(* ===== verification/Prelude.thy ===== *)
theory Prelude
  imports Main "HOL-Library.Word"
begin

text \<open>
  Shared vocabulary of the development: the machine's integer types, the result type that carries
  panics and faults as values, byte arrays with little-endian loads and stores, and the generic
  lemmas on words, lists and results that the component theories use.
\<close>

unbundle bit_operations_syntax

section \<open>Machine integers\<close>

type_synonym u8 = "8 word"
type_synonym u16 = "16 word"
type_synonym u32 = "32 word"

section \<open>Results\<close>

text \<open>
  Wait channels are the addresses the kernel sleeps on: a buffer, the sleep lock of a buffer or of
  an inode, the log, the two counters of a pipe, a process, the tick counter, the console's input.
\<close>

datatype chan =
    ChBuf nat
  | ChBufLock nat
  | ChInodeLock nat
  | ChLog
  | ChPipeRead nat
  | ChPipeWrite nat
  | ChProc nat
  | ChTicks
  | ChInput

text \<open>
  How an operation can fail to return: \<open>panic(msg)\<close>; a null or wild pointer is dereferenced; an array
  is indexed out of its bounds; a loop never ends; the caller goes to sleep on a channel.
\<close>

datatype error =
    Panic string
  | BadAddr u32
  | OutOfBounds
  | Hang
  | Sleep chan

datatype 'a res = Err error | Ok 'a

text \<open>How a loop that may wait ends: done, given up because the process was killed, or asleep.\<close>

datatype pause = Finished | Killed | Blocked

primrec bindR :: "'a res \<Rightarrow> ('a \<Rightarrow> 'b res) \<Rightarrow> 'b res" where
  "bindR (Err e) f = Err e"
| "bindR (Ok x) f = f x"

named_theorems res_simps

lemma bindR_Ok_iff [res_simps]: "bindR m f = Ok y \<longleftrightarrow> (\<exists>x. m = Ok x \<and> f x = Ok y)"
  by (cases m) auto

lemma bindR_Err_iff: "bindR m f = Err e \<longleftrightarrow> m = Err e \<or> (\<exists>x. m = Ok x \<and> f x = Err e)"
  by (cases m) auto

lemma bindR_cong [fundef_cong]:
  "m = m' \<Longrightarrow> (\<And>x. m' = Ok x \<Longrightarrow> f x = f' x) \<Longrightarrow> bindR m f = bindR m' f'"
  by (cases m') auto

lemma bindR_assoc [simp]: "bindR (bindR m f) g = bindR m (\<lambda>x. bindR (f x) g)"
  by (cases m) auto

text \<open>A loop that runs an operation once for every element of a list, stopping at the first error.\<close>

primrec foldR :: "('a \<Rightarrow> 's \<Rightarrow> 's res) \<Rightarrow> 'a list \<Rightarrow> 's \<Rightarrow> 's res" where
  "foldR f [] s = Ok s"
| "foldR f (x # xs) s = bindR (f x s) (foldR f xs)"

lemma foldR_append: "foldR f (xs @ ys) s = bindR (foldR f xs s) (foldR f ys)"
  by (induction xs arbitrary: s) (auto intro: bindR_cong)

lemma foldR_invariant:
  assumes "foldR f xs s = Ok s'"
    and "P s"
    and "\<And>x t t'. x \<in> set xs \<Longrightarrow> P t \<Longrightarrow> f x t = Ok t' \<Longrightarrow> P t'"
  shows "P s'"
  using assms by (induction xs arbitrary: s) (auto simp: res_simps)

lemma find_SomeD: "List.find P xs = Some x \<Longrightarrow> x \<in> set xs \<and> P x"
  by (induction xs) (auto split: if_splits)

end
