(* ===== verification/Bytes.thy ===== *)
theory Bytes
  imports Prelude
begin

text \<open>
  Byte arrays (memory frames, disk blocks, user structures laid out in memory) as functions from
  offsets to bytes, the 16 and 32 bit little-endian loads and stores the x86 performs on them, and
  the block copies and fills.
\<close>

unbundle bit_operations_syntax

type_synonym bytes = "nat \<Rightarrow> u8"

section \<open>Loads and stores\<close>

definition ld16 :: "bytes \<Rightarrow> nat \<Rightarrow> u16" where
  "ld16 b p = ucast (b p) OR push_bit 8 (ucast (b (p + 1)))"

definition st16 :: "bytes \<Rightarrow> nat \<Rightarrow> u16 \<Rightarrow> bytes" where
  "st16 b p v = b(p := ucast v, p + 1 := ucast (drop_bit 8 v))"

definition ld32 :: "bytes \<Rightarrow> nat \<Rightarrow> u32" where
  "ld32 b p = ucast (b p) OR push_bit 8 (ucast (b (p + 1)))
     OR push_bit 16 (ucast (b (p + 2))) OR push_bit 24 (ucast (b (p + 3)))"

definition st32 :: "bytes \<Rightarrow> nat \<Rightarrow> u32 \<Rightarrow> bytes" where
  "st32 b p v = b(p := ucast v, p + 1 := ucast (drop_bit 8 v),
     p + 2 := ucast (drop_bit 16 v), p + 3 := ucast (drop_bit 24 v))"

definition blit :: "bytes \<Rightarrow> nat \<Rightarrow> bytes \<Rightarrow> nat \<Rightarrow> nat \<Rightarrow> bytes" where
  "blit dst d src p n = (\<lambda>i. if d \<le> i \<and> i < d + n then src (p + (i - d)) else dst i)"

definition fill :: "bytes \<Rightarrow> nat \<Rightarrow> u8 \<Rightarrow> nat \<Rightarrow> bytes" where
  "fill dst d c n = (\<lambda>i. if d \<le> i \<and> i < d + n then c else dst i)"

definition bytes_of :: "bytes \<Rightarrow> nat \<Rightarrow> nat \<Rightarrow> u8 list" where
  "bytes_of b p n = map b [p..<p + n]"

definition put_bytes :: "bytes \<Rightarrow> nat \<Rightarrow> u8 list \<Rightarrow> bytes" where
  "put_bytes b p xs = (\<lambda>i. if p \<le> i \<and> i < p + length xs then xs ! (i - p) else b i)"

section \<open>Laws\<close>

named_theorems byte_simps

lemma ld16_st16_same [simp]: "ld16 (st16 b p v) p = v"
  by (rule bit_word_eqI) (auto simp: ld16_def st16_def bit_simps)

lemma ld32_st32_same [simp]: "ld32 (st32 b p v) p = v"
proof (rule bit_word_eqI)
  fix n assume n: "n < LENGTH(32)"
  show "bit (ld32 (st32 b p v) p) n \<longleftrightarrow> bit v n"
  proof (cases "n < 16")
    case True
    then show ?thesis by (auto simp: ld32_def st32_def bit_simps)
  next
    case False
    then obtain k where "n = 16 + k" by (metis le_add_diff_inverse not_less)
    moreover have "k = 8 + (k - 8)" if "\<not> k < 8" using that by arith
    ultimately show ?thesis using n
      by (cases "k < 8") (auto simp: ld32_def st32_def bit_simps)
  qed
qed

lemma ld32_st32_disjoint: "p + 4 \<le> q \<or> q + 4 \<le> p \<Longrightarrow> ld32 (st32 b p v) q = ld32 b q"
  by (auto simp: ld32_def st32_def)

lemma ld16_st16_disjoint: "p + 2 \<le> q \<or> q + 2 \<le> p \<Longrightarrow> ld16 (st16 b p v) q = ld16 b q"
  by (auto simp: ld16_def st16_def)

lemma ld16_st32_disjoint: "p + 4 \<le> q \<or> q + 2 \<le> p \<Longrightarrow> ld16 (st32 b p v) q = ld16 b q"
  by (auto simp: ld16_def st32_def)

lemma ld32_st16_disjoint: "p + 2 \<le> q \<or> q + 4 \<le> p \<Longrightarrow> ld32 (st16 b p v) q = ld32 b q"
  by (auto simp: ld32_def st16_def)

text \<open>An array of 32-bit words: stores to one element leave the others.\<close>

lemma ld32_st32_elem [byte_simps]:
  "ld32 (st32 b (4 * i) v) (4 * j) = (if i = j then v else ld32 b (4 * j))"
proof (cases "i = j")
  case False
  then have "4 * i + 4 \<le> 4 * j \<or> 4 * j + 4 \<le> 4 * i" by arith
  with False show ?thesis by (simp add: ld32_st32_disjoint)
qed simp

lemma ld32_cong: "(\<And>i. i < 4 \<Longrightarrow> b (p + i) = c (q + i)) \<Longrightarrow> ld32 b p = ld32 c q"
proof -
  assume a: "\<And>i. i < 4 \<Longrightarrow> b (p + i) = c (q + i)"
  show ?thesis using a [of 0] a [of 1] a [of 2] a [of 3] by (simp add: ld32_def)
qed

lemma ld16_cong: "(\<And>i. i < 2 \<Longrightarrow> b (p + i) = c (q + i)) \<Longrightarrow> ld16 b p = ld16 c q"
proof -
  assume a: "\<And>i. i < 2 \<Longrightarrow> b (p + i) = c (q + i)"
  show ?thesis using a [of 0] a [of 1] by (simp add: ld16_def)
qed

lemma st32_outside [byte_simps]: "i < p \<or> p + 4 \<le> i \<Longrightarrow> st32 b p v i = b i"
  by (auto simp: st32_def)

lemma st32_idem [byte_simps]: "st32 (st32 b p v) p w = st32 b p w"
  by (rule ext) (simp add: st32_def)

lemma blit_apply [byte_simps]:
  "blit dst d src p n i = (if d \<le> i \<and> i < d + n then src (p + (i - d)) else dst i)"
  by (simp add: blit_def)

lemma fill_apply [byte_simps]: "fill dst d c n i = (if d \<le> i \<and> i < d + n then c else dst i)"
  by (simp add: fill_def)

lemma blit_0 [simp]: "blit dst d src p 0 = dst"
  by (rule ext) (auto simp: blit_def)

lemma fill_0 [simp]: "fill dst d c 0 = dst"
  by (rule ext) (auto simp: fill_def)

lemma ld32_fill0: "d \<le> p \<Longrightarrow> p + 4 \<le> d + n \<Longrightarrow> ld32 (fill b d 0 n) p = 0"
  by (simp add: ld32_def fill_def)

lemma ld32_blit: "d \<le> q \<Longrightarrow> q + 4 \<le> d + n \<Longrightarrow> ld32 (blit dst d src p n) q = ld32 src (p + (q - d))"
  by (rule ld32_cong) (auto simp: blit_def add.assoc)

lemma length_bytes_of [simp]: "length (bytes_of b p n) = n"
  by (simp add: bytes_of_def)

lemma bytes_of_nth [simp]: "i < n \<Longrightarrow> bytes_of b p n ! i = b (p + i)"
  by (simp add: bytes_of_def)

lemma bytes_of_put_bytes [simp]: "bytes_of (put_bytes b p xs) p (length xs) = xs"
  by (rule nth_equalityI) (auto simp: put_bytes_def)

lemma put_bytes_outside: "i < p \<or> p + length xs \<le> i \<Longrightarrow> put_bytes b p xs i = b i"
  by (auto simp: put_bytes_def)

end
