(* ===== verification/Machine.thy ===== *)
theory Machine
  imports Bytes
begin

text \<open>
  The constants of param.h, memlayout.h, mmu.h, defs.h and fs.h and the address and page-table macros
  of mmu.h and memlayout.h, with the algebra of page alignment and of page-table entries that the
  memory components rest on. Addresses, sizes and entries are 32-bit words.
\<close>

unbundle bit_operations_syntax

section \<open>Constants\<close>

text \<open>param.h\<close>

abbreviation (input) NPROC :: nat where "NPROC \<equiv> 64"
abbreviation (input) KSTACKSIZE :: u32 where "KSTACKSIZE \<equiv> 4096"
abbreviation (input) NOFILE :: nat where "NOFILE \<equiv> 16"
abbreviation (input) NFILE :: nat where "NFILE \<equiv> 100"
abbreviation (input) NINODE :: nat where "NINODE \<equiv> 50"
abbreviation (input) NDEV :: nat where "NDEV \<equiv> 10"
abbreviation (input) ROOTDEV :: u32 where "ROOTDEV \<equiv> 1"
abbreviation (input) MAXARG :: nat where "MAXARG \<equiv> 32"
abbreviation (input) MAXOPBLOCKS :: nat where "MAXOPBLOCKS \<equiv> 10"
abbreviation (input) LOGSIZE :: nat where "LOGSIZE \<equiv> MAXOPBLOCKS * 3"
abbreviation (input) NBUF :: nat where "NBUF \<equiv> 30"
abbreviation (input) SWAPBLOCKS :: nat where "SWAPBLOCKS \<equiv> 3200"
abbreviation (input) FSSIZE :: u32 where "FSSIZE \<equiv> 10000"

text \<open>memlayout.h\<close>

abbreviation (input) EXTMEM :: u32 where "EXTMEM \<equiv> 0x100000"
abbreviation (input) PHYSTOP :: u32 where "PHYSTOP \<equiv> 0x400000"
abbreviation (input) DEVSPACE :: u32 where "DEVSPACE \<equiv> 0xFE000000"
abbreviation (input) KERNBASE :: u32 where "KERNBASE \<equiv> 0x80000000"
abbreviation (input) KERNLINK :: u32 where "KERNLINK \<equiv> 0x80100000"

definition V2P :: "u32 \<Rightarrow> u32" where
  "V2P a = a - KERNBASE"

definition P2V :: "u32 \<Rightarrow> u32" where
  "P2V a = a + KERNBASE"

text \<open>mmu.h and defs.h: paging\<close>

abbreviation (input) PGSIZE :: u32 where "PGSIZE \<equiv> 4096"
abbreviation (input) NPDENTRIES :: nat where "NPDENTRIES \<equiv> 1024"
abbreviation (input) NPTENTRIES :: nat where "NPTENTRIES \<equiv> 1024"
abbreviation (input) PTXSHIFT :: nat where "PTXSHIFT \<equiv> 12"
abbreviation (input) PDXSHIFT :: nat where "PDXSHIFT \<equiv> 22"

definition PTE_P :: u32 where "PTE_P = 0x001"
definition PTE_W :: u32 where "PTE_W = 0x002"
definition PTE_U :: u32 where "PTE_U = 0x004"
definition PTE_SW :: u32 where "PTE_SW = 0x8"
definition PTE_A :: u32 where "PTE_A = 0x020"

definition PDX :: "u32 \<Rightarrow> u32" where
  "PDX va = drop_bit PDXSHIFT va AND 0x3FF"

definition PTX :: "u32 \<Rightarrow> u32" where
  "PTX va = drop_bit PTXSHIFT va AND 0x3FF"

definition PGADDR :: "u32 \<Rightarrow> u32 \<Rightarrow> u32 \<Rightarrow> u32" where
  "PGADDR d t p = push_bit PDXSHIFT d OR push_bit PTXSHIFT t OR p"

definition PGROUNDUP :: "u32 \<Rightarrow> u32" where
  "PGROUNDUP sz = (sz + PGSIZE - 1) AND NOT (PGSIZE - 1)"

definition PGROUNDDOWN :: "u32 \<Rightarrow> u32" where
  "PGROUNDDOWN a = a AND NOT (PGSIZE - 1)"

definition PTE_ADDR :: "u32 \<Rightarrow> u32" where
  "PTE_ADDR pte = pte AND NOT 0xFFF"

definition PTE_FLAGS :: "u32 \<Rightarrow> u32" where
  "PTE_FLAGS pte = pte AND 0xFFF"

text \<open>The test \<open>*pte & flag\<close> and the frame number \<open>pa >> PTXSHIFT\<close>.\<close>

definition has :: "u32 \<Rightarrow> u32 \<Rightarrow> bool" where
  "has pte flag \<longleftrightarrow> pte AND flag \<noteq> 0"

definition pfn :: "u32 \<Rightarrow> nat" where
  "pfn pa = unat (drop_bit PTXSHIFT pa)"

lemmas pte_flag_defs = PTE_P_def PTE_W_def PTE_U_def PTE_SW_def PTE_A_def

section \<open>Alignment\<close>

definition pg_aligned :: "u32 \<Rightarrow> bool" where
  "pg_aligned a \<longleftrightarrow> a AND 0xFFF = 0"

lemma mask12: "(0xFFF :: u32) = mask 12"
  by (simp add: mask_eq_exp_minus_1)

lemma mask10: "(0x3FF :: u32) = mask 10"
  by (simp add: mask_eq_exp_minus_1)

lemma pg_aligned_bits: "pg_aligned a \<longleftrightarrow> (\<forall>n < 12. \<not> bit a n)"
proof
  assume *: "pg_aligned a"
  show "\<forall>n < 12. \<not> bit a n"
  proof (intro allI impI)
    fix n :: nat assume "n < 12"
    moreover have "\<not> bit (a AND mask 12) n" using * by (simp add: pg_aligned_def mask12)
    ultimately show "\<not> bit a n" by (simp add: bit_simps)
  qed
next
  assume "\<forall>n < 12. \<not> bit a n"
  then have "a AND mask 12 = 0" by (intro bit_word_eqI) (auto simp: bit_simps)
  then show "pg_aligned a" by (simp add: pg_aligned_def mask12)
qed

lemma pg_aligned_unat: "pg_aligned a \<longleftrightarrow> unat a mod 4096 = 0"
proof -
  have "a AND 0xFFF = take_bit 12 a" by (simp add: mask12 take_bit_eq_mask)
  moreover have "unat (take_bit 12 a) = unat a mod 4096"
    by (simp add: unsigned_take_bit_eq) (simp add: take_bit_eq_mod)
  ultimately show ?thesis
    by (metis pg_aligned_def unat_eq_zero)
qed

lemma pg_aligned_0 [simp]: "pg_aligned 0"
  by (simp add: pg_aligned_def)

lemma pg_aligned_PGROUNDDOWN [simp]: "pg_aligned (PGROUNDDOWN a)"
  by (auto simp: pg_aligned_bits PGROUNDDOWN_def mask12 bit_simps)

lemma pg_aligned_PGROUNDUP [simp]: "pg_aligned (PGROUNDUP a)"
  by (auto simp: pg_aligned_bits PGROUNDUP_def mask12 bit_simps)

lemma pg_aligned_PTE_ADDR [simp]: "pg_aligned (PTE_ADDR a)"
  by (auto simp: pg_aligned_bits PTE_ADDR_def mask12 bit_simps)

lemma pg_aligned_add: "pg_aligned a \<Longrightarrow> pg_aligned b \<Longrightarrow> pg_aligned (a + b)"
proof -
  assume "pg_aligned a" "pg_aligned b"
  then have "(unat a + unat b) mod 4096 = 0" by (auto simp: pg_aligned_unat)
  moreover have "(4096::nat) dvd 2 ^ 32" by simp
  ultimately have "(unat a + unat b) mod 2 ^ 32 mod 4096 = 0"
    by (simp only: mod_mod_cancel)
  then show ?thesis by (simp add: pg_aligned_unat unat_word_ariths)
qed

section \<open>Page-table entries\<close>

text \<open>Flag words are those below one page: they have no bit above the low twelve.\<close>

lemma flags_bits: "(f :: u32) < 4096 \<longleftrightarrow> (\<forall>n \<ge> 12. \<not> bit f n)"
proof -
  have "f < 4096 \<longleftrightarrow> unat f < 2 ^ 12"
    by (simp add: word_less_nat_alt)
  also have "\<dots> \<longleftrightarrow> take_bit 12 (unat f) = unat f"
    by (simp only: take_bit_nat_eq_self_iff)
  also have "\<dots> \<longleftrightarrow> (\<forall>n \<ge> 12. \<not> bit (unat f) n)"
  proof
    assume *: "take_bit 12 (unat f) = unat f"
    have "\<not> bit (take_bit 12 (unat f)) n" if "12 \<le> n" for n
      using that by (simp add: bit_take_bit_iff)
    with * show "\<forall>n \<ge> 12. \<not> bit (unat f) n" by simp
  next
    assume *: "\<forall>n \<ge> 12. \<not> bit (unat f) n"
    show "take_bit 12 (unat f) = unat f"
    proof (rule bit_eqI)
      fix n show "bit (take_bit 12 (unat f)) n \<longleftrightarrow> bit (unat f) n"
        using * by (cases "n < 12") (simp_all only: bit_take_bit_iff not_less simp_thms)
    qed
  qed
  also have "\<dots> \<longleftrightarrow> (\<forall>n \<ge> 12. \<not> bit f n)"
    by (simp only: bit_unsigned_iff) simp
  finally show ?thesis .
qed

lemma PTE_FLAGS_less [simp]: "PTE_FLAGS x < 4096"
  by (auto simp: flags_bits PTE_FLAGS_def mask12 bit_simps)

lemma flags_or [intro]: "(f :: u32) < 4096 \<Longrightarrow> g < 4096 \<Longrightarrow> f OR g < 4096"
  by (auto simp: flags_bits bit_simps)

lemma flags_and [intro]: "(f :: u32) < 4096 \<Longrightarrow> f AND g < 4096"
  by (auto simp: flags_bits bit_simps)

lemma PTE_ADDR_or: "pg_aligned pa \<Longrightarrow> f < 4096 \<Longrightarrow> PTE_ADDR (pa OR f) = pa"
  by (rule bit_word_eqI)
    (auto simp: PTE_ADDR_def mask12 bit_simps pg_aligned_bits flags_bits not_less)

lemma PTE_FLAGS_or: "pg_aligned pa \<Longrightarrow> f < 4096 \<Longrightarrow> PTE_FLAGS (pa OR f) = f"
  by (rule bit_word_eqI)
    (auto simp: PTE_FLAGS_def mask12 bit_simps pg_aligned_bits flags_bits; metis not_le)

lemma PTE_split: "PTE_ADDR x OR PTE_FLAGS x = x"
  by (rule bit_word_eqI) (auto simp: PTE_ADDR_def PTE_FLAGS_def mask12 bit_simps)

text \<open>Each flag is one bit.\<close>

lemma and_pow2: "(x :: u32) AND 2 ^ n \<noteq> 0 \<longleftrightarrow> bit x n"
  by (simp add: bit_iff_and_push_bit_not_eq_0 push_bit_eq_mult)

lemma has_bits [simp]:
  "has x PTE_P \<longleftrightarrow> bit x 0" "has x PTE_W \<longleftrightarrow> bit x 1" "has x PTE_U \<longleftrightarrow> bit x 2"
  "has x PTE_SW \<longleftrightarrow> bit x 3" "has x PTE_A \<longleftrightarrow> bit x 5"
  using and_pow2 [of x 0] and_pow2 [of x 1] and_pow2 [of x 2] and_pow2 [of x 3] and_pow2 [of x 5]
  by (simp_all add: has_def pte_flag_defs)

lemma bit_flags:
  "bit PTE_P n \<longleftrightarrow> n = 0" "bit PTE_W n \<longleftrightarrow> n = 1" "bit PTE_U n \<longleftrightarrow> n = 2"
  "bit PTE_SW n \<longleftrightarrow> n = 3" "bit PTE_A n \<longleftrightarrow> n = 5"
proof -
  have *: "bit ((2::u32) ^ k) n \<longleftrightarrow> n = k" if "k < 32" for k
    using that by (auto simp: bit_simps)
  show "bit PTE_P n \<longleftrightarrow> n = 0" "bit PTE_W n \<longleftrightarrow> n = 1" "bit PTE_U n \<longleftrightarrow> n = 2"
    "bit PTE_SW n \<longleftrightarrow> n = 3" "bit PTE_A n \<longleftrightarrow> n = 5"
    using * [of 0] * [of 1] * [of 2] * [of 3] * [of 5] by (simp_all add: pte_flag_defs)
qed

lemma flag_small [simp]:
  "PTE_P < 4096" "PTE_W < 4096" "PTE_U < 4096" "PTE_SW < 4096" "PTE_A < 4096"
  by (simp_all add: pte_flag_defs)

section \<open>Frame numbers and the kernel's direct map\<close>

lemma V2P_P2V [simp]: "V2P (P2V a) = a" "P2V (V2P a) = a"
  by (simp_all add: V2P_def P2V_def)

lemma pfn_PTE_ADDR [simp]: "pfn (PTE_ADDR x) = pfn x"
proof -
  have "drop_bit 12 (x AND NOT (mask 12)) = drop_bit 12 x"
    by (rule bit_word_eqI) (use bit_imp_le_length in \<open>fastforce simp: bit_simps\<close>)
  then show ?thesis by (simp add: pfn_def PTE_ADDR_def mask12)
qed

lemma pfn_or: "f < 4096 \<Longrightarrow> pfn (pa OR f) = pfn pa"
proof -
  assume "f < 4096"
  then have "drop_bit 12 (pa OR f) = drop_bit 12 pa"
    by (intro bit_word_eqI) (auto simp: bit_simps flags_bits)
  then show ?thesis by (simp add: pfn_def)
qed

lemma pfn_div: "pfn pa = unat pa div 4096"
  by (simp add: pfn_def drop_bit_eq_div unat_div)

lemma pfn_less: "pa < PHYSTOP \<Longrightarrow> pfn pa < 1024"
  by (simp add: pfn_div word_less_nat_alt less_mult_imp_div_less)

lemma pfn_mult: "pg_aligned pa \<Longrightarrow> unat pa = 4096 * pfn pa"
  using mult_div_mod_eq [of 4096 "unat pa"] by (simp add: pfn_div pg_aligned_unat)

lemma pfn_eq_iff: "pg_aligned a \<Longrightarrow> pg_aligned b \<Longrightarrow> pfn a = pfn b \<longleftrightarrow> a = b"
  by (metis pfn_mult word_unat_eq_iff)

lemma pg_aligned_V2P [simp]: "pg_aligned (V2P a) = pg_aligned a"
proof -
  have k: "pg_aligned KERNBASE" by (simp add: pg_aligned_unat)
  have "V2P a = a + KERNBASE" by (simp add: V2P_def)
  moreover have "a = V2P a + KERNBASE" by (simp add: V2P_def)
  ultimately show ?thesis using pg_aligned_add k by metis
qed

lemma pg_aligned_P2V [simp]: "pg_aligned (P2V a) = pg_aligned a"
  by (metis V2P_P2V(1) pg_aligned_V2P)

end
