(* ===== verification/CString.thy ===== *)
theory CString
  imports Machine
begin

text \<open>
  The memory and string routines of string.c (kernel) and ulib.c (user library) over one byte-addressed
  memory. A pointer is an offset into it; a loop is a recursion on the remaining count, and a loop that
  only a NUL byte can stop is an option-valued partial function.
\<close>

unbundle bit_operations_syntax

section \<open>string.c\<close>

primrec stosb :: "bytes \<Rightarrow> nat \<Rightarrow> u8 \<Rightarrow> nat \<Rightarrow> bytes" where
  "stosb m p c 0 = m"
| "stosb m p c (Suc cnt) = stosb (m(p := c)) (p + 1) c cnt"

primrec stosl :: "bytes \<Rightarrow> nat \<Rightarrow> u32 \<Rightarrow> nat \<Rightarrow> bytes" where
  "stosl m p w 0 = m"
| "stosl m p w (Suc cnt) = stosl (st32 m p w) (p + 4) w cnt"

definition memset :: "bytes \<Rightarrow> nat \<Rightarrow> u32 \<Rightarrow> nat \<Rightarrow> bytes" where
  "memset m dst c n =
     (if dst mod 4 = 0 \<and> n mod 4 = 0 then
        (let c = c AND 0xFF
         in stosl m dst (push_bit 24 c OR push_bit 16 c OR push_bit 8 c OR c) (n div 4))
      else stosb m dst (ucast c) n)"

primrec memcmp :: "bytes \<Rightarrow> nat \<Rightarrow> nat \<Rightarrow> nat \<Rightarrow> int" where
  "memcmp m v1 v2 0 = 0"
| "memcmp m v1 v2 (Suc n) =
     (if m v1 \<noteq> m v2 then uint (m v1) - uint (m v2) else memcmp m (v1 + 1) (v2 + 1) n)"

text \<open>The two copying loops of memmove: downwards from the ends, upwards from the starts.\<close>

primrec move_down :: "bytes \<Rightarrow> nat \<Rightarrow> nat \<Rightarrow> nat \<Rightarrow> bytes" where
  "move_down m d s 0 = m"
| "move_down m d s (Suc n) = move_down (m(d - 1 := m (s - 1))) (d - 1) (s - 1) n"

primrec move_up :: "bytes \<Rightarrow> nat \<Rightarrow> nat \<Rightarrow> nat \<Rightarrow> bytes" where
  "move_up m d s 0 = m"
| "move_up m d s (Suc n) = move_up (m(d := m s)) (d + 1) (s + 1) n"

definition memmove :: "bytes \<Rightarrow> nat \<Rightarrow> nat \<Rightarrow> nat \<Rightarrow> bytes" where
  "memmove m dst src n =
     (if src < dst \<and> src + n > dst then move_down m (dst + n) (src + n) n
      else move_up m dst src n)"

definition memcpy :: "bytes \<Rightarrow> nat \<Rightarrow> nat \<Rightarrow> nat \<Rightarrow> bytes" where
  "memcpy m dst src n = memmove m dst src n"

primrec strncmp :: "bytes \<Rightarrow> nat \<Rightarrow> nat \<Rightarrow> nat \<Rightarrow> int" where
  "strncmp m p q 0 = 0"
| "strncmp m p q (Suc n) =
     (if m p \<noteq> 0 \<and> m p = m q then strncmp m (p + 1) (q + 1) n else uint (m p) - uint (m q))"

text \<open>strncpy's second loop pads with NUL bytes; its first loop stops at the NUL it copies.\<close>

primrec strncpy_pad :: "bytes \<Rightarrow> nat \<Rightarrow> nat \<Rightarrow> bytes" where
  "strncpy_pad m s 0 = m"
| "strncpy_pad m s (Suc n) = strncpy_pad (m(s := 0)) (s + 1) n"

primrec strncpy :: "bytes \<Rightarrow> nat \<Rightarrow> nat \<Rightarrow> nat \<Rightarrow> bytes" where
  "strncpy m s t 0 = m"
| "strncpy m s t (Suc n) =
     (let c = m t; m' = m(s := c)
      in if c \<noteq> 0 then strncpy m' (s + 1) (t + 1) n else strncpy_pad m' (s + 1) n)"

text \<open>safestrcpy's loop after the first \<open>--n\<close>; the final store is \<open>*s = 0\<close>.\<close>

primrec safestrcpy_loop :: "bytes \<Rightarrow> nat \<Rightarrow> nat \<Rightarrow> nat \<Rightarrow> bytes" where
  "safestrcpy_loop m s t 0 = m(s := 0)"
| "safestrcpy_loop m s t (Suc n) =
     (let c = m t; m' = m(s := c)
      in if c \<noteq> 0 then safestrcpy_loop m' (s + 1) (t + 1) n else m'(s + 1 := 0))"

definition safestrcpy :: "bytes \<Rightarrow> nat \<Rightarrow> nat \<Rightarrow> int \<Rightarrow> bytes" where
  "safestrcpy m s t n = (if n \<le> 0 then m else safestrcpy_loop m s t (nat (n - 1)))"

partial_function (option) strlen_from :: "bytes \<Rightarrow> nat \<Rightarrow> nat \<Rightarrow> nat option" where
  "strlen_from m s n = (if m (s + n) = 0 then Some n else strlen_from m s (n + 1))"

definition strlen :: "bytes \<Rightarrow> nat \<Rightarrow> nat option" where
  "strlen m s = strlen_from m s 0"

section \<open>ulib.c\<close>

partial_function (option) strcpy :: "bytes \<Rightarrow> nat \<Rightarrow> nat \<Rightarrow> bytes option" where
  "strcpy m s t =
     (let c = m t; m' = m(s := c) in if c \<noteq> 0 then strcpy m' (s + 1) (t + 1) else Some m')"

partial_function (option) strcmp :: "bytes \<Rightarrow> nat \<Rightarrow> nat \<Rightarrow> int option" where
  "strcmp m p q =
     (if m p \<noteq> 0 \<and> m p = m q then strcmp m (p + 1) (q + 1) else Some (uint (m p) - uint (m q)))"

partial_function (option) strchr :: "bytes \<Rightarrow> nat \<Rightarrow> u8 \<Rightarrow> nat option option" where
  "strchr m s c =
     (if m s = 0 then Some None else if m s = c then Some (Some s) else strchr m (s + 1) c)"

text \<open>The int \<open>n * 10 + *s++ - '0'\<close> wraps at 32 bits; \<open>char\<close> is signed on i386.\<close>

definition is_digit :: "u8 \<Rightarrow> bool" where
  "is_digit c \<longleftrightarrow> 48 \<le> sint c \<and> sint c \<le> 57"

partial_function (option) atoi_from :: "bytes \<Rightarrow> nat \<Rightarrow> u32 \<Rightarrow> u32 option" where
  "atoi_from m s n =
     (if is_digit (m s) then atoi_from m (s + 1) (n * 10 + ucast (m s) - 48) else Some n)"

definition atoi :: "bytes \<Rightarrow> nat \<Rightarrow> u32 option" where
  "atoi m s = atoi_from m s 0"

text \<open>The user library's memmove only copies upwards.\<close>

definition ulib_memmove :: "bytes \<Rightarrow> nat \<Rightarrow> nat \<Rightarrow> int \<Rightarrow> bytes" where
  "ulib_memmove m dst src n = move_up m dst src (nat n)"

section \<open>Fills\<close>

lemma stosb_fill: "stosb m p c n = fill m p c n"
proof (induction n arbitrary: m p)
  case (Suc n)
  show ?case by (rule ext) (simp add: Suc fill_def)
qed simp

text \<open>The word memset stores holds the byte four times.\<close>

lemma memset_word_bytes:
  fixes c :: u32
  defines "w \<equiv> push_bit 24 (c AND 0xFF) OR push_bit 16 (c AND 0xFF) OR push_bit 8 (c AND 0xFF) OR (c AND 0xFF)"
  shows "(ucast w :: u8) = ucast c" and "(ucast (drop_bit 8 w) :: u8) = ucast c"
    and "(ucast (drop_bit 16 w) :: u8) = ucast c" and "(ucast (drop_bit 24 w) :: u8) = ucast c"
proof -
  have m: "(0xFF :: u32) = mask 8" by (simp add: mask_eq_exp_minus_1)
  show "(ucast w :: u8) = ucast c" "(ucast (drop_bit 8 w) :: u8) = ucast c"
    "(ucast (drop_bit 16 w) :: u8) = ucast c" "(ucast (drop_bit 24 w) :: u8) = ucast c"
    by (rule bit_word_eqI; simp add: w_def m bit_simps)+
qed

lemma st32_four: "ucast w = c \<Longrightarrow> ucast (drop_bit 8 w) = c \<Longrightarrow> ucast (drop_bit 16 w) = c
    \<Longrightarrow> ucast (drop_bit 24 w) = c \<Longrightarrow> st32 m p w = fill m p c 4"
  by (rule ext) (auto simp: st32_def fill_def)

lemma stosl_fill:
  assumes "\<And>m p. st32 m p w = fill m p c 4"
  shows "stosl m p w n = fill m p c (4 * n)"
proof (induction n arbitrary: m p)
  case (Suc n)
  show ?case by (rule ext) (simp add: Suc assms fill_def)
qed simp

lemma memset_eq_fill: "memset m dst c n = fill m dst (ucast c) n"
proof (cases "dst mod 4 = 0 \<and> n mod 4 = 0")
  case True
  then have "4 * (n div 4) = n" by auto
  with True show ?thesis
    by (simp only: memset_def Let_def if_True simp_thms stosl_fill [OF st32_four] memset_word_bytes)
next
  case False
  then show ?thesis by (auto simp: memset_def stosb_fill)
qed

section \<open>Copies and comparisons\<close>

lemma move_up_blit: "d \<le> s \<or> s + n \<le> d \<Longrightarrow> move_up m d s n = blit m d m s n"
proof (induction n arbitrary: m d s)
  case (Suc n)
  then have "d + 1 \<le> s + 1 \<or> (s + 1) + n \<le> d + 1" by auto
  note IH = Suc.IH [OF this, simplified]
  show ?case
    by (rule ext) (use Suc.prems in
      \<open>auto simp: IH blit_def le_Suc_eq Suc_diff_le intro!: arg_cong [of _ _ m]\<close>)
qed simp

lemma move_down_blit: "s < d \<Longrightarrow> move_down m (d + n) (s + n) n = blit m d m s n"
proof (induction n arbitrary: m)
  case (Suc n)
  show ?case
    by (rule ext) (use Suc.prems in \<open>auto simp: Suc.IH blit_def\<close>)
qed simp

lemma memmove_eq_blit: "memmove m dst src n = blit m dst m src n"
  by (auto simp: memmove_def move_down_blit move_up_blit)

lemma memcmp_zero_iff: "memcmp m v1 v2 n = 0 \<longleftrightarrow> (\<forall>i < n. m (v1 + i) = m (v2 + i))"
proof (induction n arbitrary: v1 v2)
  case (Suc n)
  have "(\<forall>i < Suc n. m (v1 + i) = m (v2 + i)) \<longleftrightarrow>
      m v1 = m v2 \<and> (\<forall>i < n. m (v1 + 1 + i) = m (v2 + 1 + i))"
    by (auto simp: less_Suc_eq_0_disj)
  then show ?case by (simp add: Suc word_uint_eq_iff [of "m v1"])
qed simp

section \<open>Strings\<close>

text \<open>\<open>cstr_at m s k\<close>: the C string at \<open>s\<close> has length \<open>k\<close>.\<close>

definition cstr_at :: "bytes \<Rightarrow> nat \<Rightarrow> nat \<Rightarrow> bool" where
  "cstr_at m s k \<longleftrightarrow> m (s + k) = 0 \<and> (\<forall>i < k. m (s + i) \<noteq> 0)"

lemma strlen_from_cstr: "cstr_at m s k \<Longrightarrow> n \<le> k \<Longrightarrow> strlen_from m s n = Some k"
proof (induction "k - n" arbitrary: n)
  case 0
  then show ?case by (subst strlen_from.simps) (auto simp: cstr_at_def)
next
  case (Suc x)
  then have "n < k" by simp
  moreover from Suc have "strlen_from m s (n + 1) = Some k" by simp
  ultimately show ?case using Suc.prems by (subst strlen_from.simps) (auto simp: cstr_at_def)
qed

lemma strlen_cstr: "cstr_at m s k \<Longrightarrow> strlen m s = Some k"
  by (simp add: strlen_def strlen_from_cstr)

lemma strncpy_pad_fill: "strncpy_pad m s n = fill m s 0 n"
proof (induction n arbitrary: m s)
  case (Suc n)
  show ?case by (rule ext) (simp add: Suc fill_def)
qed simp

text \<open>strncmp compares the strings' first \<open>n\<close> bytes, up to the first NUL.\<close>

lemma strncmp_zero_iff:
  "strncmp m p q n = 0 \<longleftrightarrow>
     (\<forall>i < n. (\<forall>j < i. m (p + j) \<noteq> 0) \<longrightarrow> m (p + i) = m (q + i))"
proof (induction n arbitrary: p q)
  case (Suc n)
  have "(\<forall>i < Suc n. (\<forall>j < i. m (p + j) \<noteq> 0) \<longrightarrow> m (p + i) = m (q + i)) \<longleftrightarrow>
      m p = m q \<and> (m p \<noteq> 0 \<longrightarrow>
        (\<forall>i < n. (\<forall>j < i. m (p + 1 + j) \<noteq> 0) \<longrightarrow> m (p + 1 + i) = m (q + 1 + i)))"
    by (auto simp add: All_less_Suc2)
  then show ?case by (auto simp add: Suc uint_0_iff word_uint_eq_iff [of "m p" "m q"])
qed simp

text \<open>
  safestrcpy leaves a terminated copy of the longest prefix that fits, and touches only the
  \<open>n\<close> bytes of its destination.
\<close>

definition copied_prefix :: "bytes \<Rightarrow> bytes \<Rightarrow> nat \<Rightarrow> nat \<Rightarrow> nat \<Rightarrow> bool" where
  "copied_prefix m r s t k \<longleftrightarrow> cstr_at r s k \<and> (\<forall>i < k. r (s + i) = m (t + i))"

lemma safestrcpy_loop_copies:
  "s \<le> t \<or> t + n \<le> s \<Longrightarrow> \<exists>k \<le> n. copied_prefix m (safestrcpy_loop m s t n) s t k"
proof (induction n arbitrary: m s t)
  case 0
  show ?case by (simp add: copied_prefix_def cstr_at_def)
next
  case (Suc n)
  let ?r = "safestrcpy_loop m s t (Suc n)"
  show ?case
  proof (cases "m t = 0")
    case True
    then have "copied_prefix m ?r s t 0" by (simp add: copied_prefix_def cstr_at_def)
    then show ?thesis by blast
  next
    case False
    let ?m = "m(s := m t)"
    from Suc.prems have "s + 1 \<le> t + 1 \<or> (t + 1) + n \<le> s + 1" by auto
    moreover have "?r = safestrcpy_loop ?m (s + 1) (t + 1) n" using False by (simp add: Let_def)
    ultimately obtain k where k: "k \<le> n" "copied_prefix ?m ?r (s + 1) (t + 1) k"
      using Suc.IH by metis
    have r0: "?r s = m t"
    proof -
      have "safestrcpy_loop m' p q j i = m' i" if "i < p" for m' p q j i
        using that by (induction j arbitrary: m' p q) (auto simp: Let_def)
      then show ?thesis using False by (simp add: Let_def)
    qed
    have src: "?m (t + 1 + i) = m (t + 1 + i)" if "i < n" for i
      using Suc.prems that by auto
    have "copied_prefix m ?r s t (Suc k)"
      using k False r0 src
      by (auto simp: copied_prefix_def cstr_at_def less_Suc_eq_0_disj)
    with k(1) show ?thesis by blast
  qed
qed

lemma safestrcpy_loop_frame: "i < s \<or> s + n < i \<Longrightarrow> safestrcpy_loop m s t n i = m i"
  by (induction n arbitrary: m s t) (auto simp: Let_def)

lemma safestrcpy_terminates:
  assumes "0 < n" and "s \<le> t \<or> t + nat n \<le> s"
  shows "\<exists>k. int k < n \<and> copied_prefix m (safestrcpy m s t n) s t k"
    and "i < s \<or> s + nat n \<le> i \<Longrightarrow> safestrcpy m s t n i = m i"
proof -
  from assms obtain j where j: "n = int (Suc j)" by (metis zero_less_imp_eq_int Suc_pred)
  then have eq: "safestrcpy m s t n = safestrcpy_loop m s t j" by (simp add: safestrcpy_def)
  from assms j have "s \<le> t \<or> t + j \<le> s" by auto
  from safestrcpy_loop_copies [OF this, of m]
  show "\<exists>k. int k < n \<and> copied_prefix m (safestrcpy m s t n) s t k"
    unfolding eq by (metis j le_imp_less_Suc of_nat_less_iff)
  show "safestrcpy m s t n i = m i" if "i < s \<or> s + nat n \<le> i"
    unfolding eq by (rule safestrcpy_loop_frame) (use that j in auto)
qed

section \<open>Properties\<close>

text \<open>
  C29. memmove, which copies upwards or downwards depending on how the ranges overlap, always equals the
  simultaneous copy of the source range, and memset, which stores words when it can, equals the byte fill.
\<close>

theorem memmove_memset_reference:
  "memmove m dst src n = blit m dst m src n \<and> memset m dst c n = fill m dst (ucast c) n"
  by (simp add: memmove_eq_blit memset_eq_fill)

end
