(* ===== verification/Kproc.thy ===== *)
theory Kproc
  imports CString
begin

text \<open>
  The process table of proc.c and proc.h: the data every other component reaches through myproc(),
  and the operations that only touch the table. The table is a total function of which the first
  \<open>NPROC\<close> entries are the C array; \<open>struct proc *\<close> is an index, a null pointer is \<open>None\<close>. The
  ptable.lock critical sections are atomic: the kernel runs on one processor (NCPU is 1) and holds
  interrupts off inside them.
\<close>

section \<open>Data\<close>

datatype procstate = UNUSED | EMBRYO | SLEEPING | RUNNABLE | RUNNING | ZOMBIE

record trapframe =
  tf_edi :: u32
  tf_esi :: u32
  tf_ebp :: u32
  tf_oesp :: u32
  tf_ebx :: u32
  tf_edx :: u32
  tf_ecx :: u32
  tf_eax :: u32
  tf_gs :: u16
  tf_fs :: u16
  tf_es :: u16
  tf_ds :: u16
  tf_trapno :: u32
  tf_err :: u32
  tf_eip :: u32
  tf_cs :: u16
  tf_eflags :: u32
  tf_esp :: u32
  tf_ss :: u16

record kcontext =
  c_edi :: u32
  c_esi :: u32
  c_ebx :: u32
  c_ebp :: u32
  c_eip :: u32

record proc =
  p_sz :: u32
  p_rss :: u32
  p_pgdir :: u32
  p_kstack :: u32
  p_state :: procstate
  p_pid :: int
  p_parent :: "nat option"
  p_tf :: trapframe
  p_context :: kcontext
  p_chan :: "chan option"
  p_killed :: bool
  p_ofile :: "nat \<Rightarrow> nat option"
  p_cwd :: "nat option"
  p_name :: bytes

record ptab =
  ptable :: "nat \<Rightarrow> proc"
  nextpid :: int
  initproc :: "nat option"
  curproc :: "nat option"

text \<open>An entry of the table as the loader leaves it: all zero.\<close>

definition zero_tf :: trapframe where
  "zero_tf = \<lparr>tf_edi = 0, tf_esi = 0, tf_ebp = 0, tf_oesp = 0, tf_ebx = 0, tf_edx = 0, tf_ecx = 0, tf_eax = 0,
     tf_gs = 0, tf_fs = 0, tf_es = 0, tf_ds = 0, tf_trapno = 0, tf_err = 0, tf_eip = 0, tf_cs = 0, tf_eflags = 0,
     tf_esp = 0, tf_ss = 0\<rparr>"

definition zero_context :: kcontext where
  "zero_context = \<lparr>c_edi = 0, c_esi = 0, c_ebx = 0, c_ebp = 0, c_eip = 0\<rparr>"

definition zero_proc :: proc where
  "zero_proc = \<lparr>p_sz = 0, p_rss = 0, p_pgdir = 0, p_kstack = 0, p_state = UNUSED, p_pid = 0, p_parent = None,
     p_tf = zero_tf, p_context = zero_context, p_chan = None, p_killed = False, p_ofile = (\<lambda>_. None),
     p_cwd = None, p_name = (\<lambda>_. 0)\<rparr>"

section \<open>Operations\<close>

definition upd_proc :: "nat \<Rightarrow> (proc \<Rightarrow> proc) \<Rightarrow> 'a ptab_scheme \<Rightarrow> 'a ptab_scheme" where
  "upd_proc i f s = s\<lparr>ptable := (ptable s)(i := f (ptable s i))\<rparr>"

text \<open>myproc(), for the callers that dereference its result.\<close>

definition myproc :: "'a ptab_scheme \<Rightarrow> nat res" where
  "myproc s = (case curproc s of None \<Rightarrow> Err (BadAddr 0) | Some i \<Rightarrow> Ok i)"

text \<open>The first entry of the table that satisfies a test, as the scanning loops find it.\<close>

definition find_proc :: "(proc \<Rightarrow> bool) \<Rightarrow> (nat \<Rightarrow> proc) \<Rightarrow> nat option" where
  "find_proc P tab = List.find (\<lambda>i. P (tab i)) [0..<NPROC]"

definition wakeup1 :: "chan \<Rightarrow> 'a ptab_scheme \<Rightarrow> 'a ptab_scheme" where
  "wakeup1 ch s = s\<lparr>ptable := (\<lambda>i.
     if i < NPROC \<and> p_state (ptable s i) = SLEEPING \<and> p_chan (ptable s i) = Some ch
     then (ptable s i)\<lparr>p_state := RUNNABLE\<rparr> else ptable s i)\<rparr>"

definition wakeup :: "chan \<Rightarrow> 'a ptab_scheme \<Rightarrow> 'a ptab_scheme" where
  "wakeup ch s = wakeup1 ch s"

definition kill :: "int \<Rightarrow> 'a ptab_scheme \<Rightarrow> int \<times> 'a ptab_scheme" where
  "kill pid s =
     (case find_proc (\<lambda>p. p_pid p = pid) (ptable s) of
        None \<Rightarrow> (-1, s)
      | Some i \<Rightarrow> (0, upd_proc i (\<lambda>p. let p = p\<lparr>p_killed := True\<rparr>
          in if p_state p = SLEEPING then p\<lparr>p_state := RUNNABLE\<rparr> else p) s))"

text \<open>
  The victim of page replacement: the loop keeps the candidate and the largest resident size seen.
\<close>

fun victim_loop :: "(nat \<Rightarrow> proc) \<Rightarrow> nat list \<Rightarrow> u32 \<Rightarrow> nat option \<Rightarrow> nat option" where
  "victim_loop tab [] max_rss v = v"
| "victim_loop tab (p # ps) max_rss v =
     (if p_rss (tab p) > max_rss then victim_loop tab ps (p_rss (tab p)) (Some p)
      else if p_rss (tab p) = max_rss then
        (case v of
           None \<Rightarrow> victim_loop tab ps max_rss (Some p)
         | Some w \<Rightarrow> if p_pid (tab p) < p_pid (tab w) then victim_loop tab ps max_rss (Some p)
                     else victim_loop tab ps max_rss v)
      else victim_loop tab ps max_rss v)"

definition get_victim_process :: "'a ptab_scheme \<Rightarrow> nat option" where
  "get_victim_process s = victim_loop (ptable s) [0..<NPROC] 0 None"

text \<open>The lines print_rss writes: pid, state and resident size of every entry in use.\<close>

definition print_rss :: "'a ptab_scheme \<Rightarrow> (int \<times> procstate \<times> u32) list" where
  "print_rss s = map (\<lambda>i. (p_pid (ptable s i), p_state (ptable s i), p_rss (ptable s i)))
     (filter (\<lambda>i. p_state (ptable s i) \<noteq> UNUSED) [0..<NPROC])"

text \<open>procdump's name for a state.\<close>

fun state_name :: "procstate \<Rightarrow> string" where
  "state_name UNUSED = ''unused''"
| "state_name EMBRYO = ''embryo''"
| "state_name SLEEPING = ''sleep ''"
| "state_name RUNNABLE = ''runble''"
| "state_name RUNNING = ''run   ''"
| "state_name ZOMBIE = ''zombie''"

section \<open>Laws\<close>

lemma upd_proc_same [simp]: "ptable (upd_proc i f s) i = f (ptable s i)"
  by (simp add: upd_proc_def)

lemma upd_proc_other [simp]: "j \<noteq> i \<Longrightarrow> ptable (upd_proc i f s) j = ptable s j"
  by (simp add: upd_proc_def)

lemma upd_proc_sel [simp]:
  "nextpid (upd_proc i f s) = nextpid s" "initproc (upd_proc i f s) = initproc s"
  "curproc (upd_proc i f s) = curproc s" "ptab.more (upd_proc i f s) = ptab.more s"
  by (simp_all add: upd_proc_def)

lemma wakeup1_sel [simp]:
  "nextpid (wakeup1 ch s) = nextpid s" "initproc (wakeup1 ch s) = initproc s"
  "curproc (wakeup1 ch s) = curproc s" "ptab.more (wakeup1 ch s) = ptab.more s"
  by (simp_all add: wakeup1_def)

lemma find_proc_Some:
  "find_proc P tab = Some i \<Longrightarrow> i < NPROC \<and> P (tab i) \<and> (\<forall>j < i. \<not> P (tab j))"
  by (auto simp: find_proc_def find_Some_iff)

lemma find_proc_None: "find_proc P tab = None \<longleftrightarrow> (\<forall>i < NPROC. \<not> P (tab i))"
  by (auto simp: find_proc_def find_None_iff)

text \<open>
  \<open>same_procs s t\<close>: the tables differ at most in the scheduling states, which is all that wakeups
  change.
\<close>

definition same_procs :: "'a ptab_scheme \<Rightarrow> 'a ptab_scheme \<Rightarrow> bool" where
  "same_procs s t \<longleftrightarrow> curproc t = curproc s \<and> nextpid t = nextpid s \<and> initproc t = initproc s \<and>
     (\<forall>i. \<exists>st. ptable t i = (ptable s i)\<lparr>p_state := st\<rparr>)"

lemma same_procs_refl [simp]: "same_procs s s"
proof -
  have "ptable s i = (ptable s i)\<lparr>p_state := p_state (ptable s i)\<rparr>" for i by simp
  then show ?thesis unfolding same_procs_def by blast
qed

lemma same_procs_cong: "ptable t = ptable s \<Longrightarrow> curproc t = curproc s \<Longrightarrow> nextpid t = nextpid s
    \<Longrightarrow> initproc t = initproc s \<Longrightarrow> same_procs s t"
  unfolding same_procs_def by (metis proc.surjective proc.update_convs(5))

lemma same_procs_trans [trans]: "same_procs s t \<Longrightarrow> same_procs t u \<Longrightarrow> same_procs s u"
proof -
  assume st: "same_procs s t" and tu: "same_procs t u"
  have "\<exists>x. ptable u i = (ptable s i)\<lparr>p_state := x\<rparr>" for i
  proof -
    from st obtain x where x: "ptable t i = (ptable s i)\<lparr>p_state := x\<rparr>"
      unfolding same_procs_def by blast
    from tu obtain y where "ptable u i = (ptable t i)\<lparr>p_state := y\<rparr>"
      unfolding same_procs_def by blast
    with x show ?thesis by (intro exI [of _ y]) simp
  qed
  with st tu show ?thesis unfolding same_procs_def by simp
qed

lemma same_procs_wakeup1 [simp]: "same_procs s (wakeup1 ch s)"
proof -
  have "\<exists>x. ptable (wakeup1 ch s) i = (ptable s i)\<lparr>p_state := x\<rparr>" for i
    by (cases "i < NPROC \<and> p_state (ptable s i) = SLEEPING \<and> p_chan (ptable s i) = Some ch")
      (auto simp: wakeup1_def intro: exI [of _ "p_state (ptable s i)"])
  then show ?thesis by (simp add: same_procs_def)
qed

lemma same_procs_sel:
  assumes "same_procs s t"
  shows "curproc t = curproc s" and "p_pid (ptable t i) = p_pid (ptable s i)"
    and "p_rss (ptable t i) = p_rss (ptable s i)" and "p_pgdir (ptable t i) = p_pgdir (ptable s i)"
    and "p_sz (ptable t i) = p_sz (ptable s i)" and "p_killed (ptable t i) = p_killed (ptable s i)"
proof -
  from assms obtain x where "ptable t i = (ptable s i)\<lparr>p_state := x\<rparr>"
    unfolding same_procs_def by blast
  then show "p_pid (ptable t i) = p_pid (ptable s i)" "p_rss (ptable t i) = p_rss (ptable s i)"
    "p_pgdir (ptable t i) = p_pgdir (ptable s i)" "p_sz (ptable t i) = p_sz (ptable s i)"
    "p_killed (ptable t i) = p_killed (ptable s i)"
    by simp_all
qed (use assms in \<open>simp add: same_procs_def\<close>)

lemma same_procs_myproc: "same_procs s t \<Longrightarrow> myproc t = myproc s"
  by (simp add: myproc_def same_procs_def)

section \<open>The victim process\<close>

text \<open>
  \<open>best tab A v\<close>: among the entries \<open>A\<close>, \<open>v\<close> has the largest resident size, and the smallest pid
  among those with that size.
\<close>

definition best :: "(nat \<Rightarrow> proc) \<Rightarrow> nat set \<Rightarrow> nat \<Rightarrow> bool" where
  "best tab A v \<longleftrightarrow> v \<in> A \<and> (\<forall>i \<in> A. p_rss (tab i) \<le> p_rss (tab v) \<and>
     (p_rss (tab i) = p_rss (tab v) \<longrightarrow> p_pid (tab v) \<le> p_pid (tab i)))"

lemma victim_loop_best:
  assumes "best tab A v" and "m = p_rss (tab v)"
  shows "\<exists>w. victim_loop tab ps m (Some v) = Some w \<and> best tab (A \<union> set ps) w"
  using assms
proof (induction ps arbitrary: A v m)
  case Nil
  then show ?case by simp
next
  case (Cons p ps)
  have keep: "best tab (insert p A) v"
    if "p_rss (tab p) < m \<or> p_rss (tab p) = m \<and> \<not> p_pid (tab p) < p_pid (tab v)"
    using that Cons.prems by (auto simp: best_def)
  have new: "best tab (insert p A) p"
    if "m < p_rss (tab p) \<or> p_rss (tab p) = m \<and> p_pid (tab p) < p_pid (tab v)"
    using that Cons.prems by (fastforce simp: best_def)
  show ?case
    using Cons.IH [OF keep] Cons.IH [OF new] Cons.prems(2) by (auto simp: not_less)
qed

lemma get_victim_best:
  "\<exists>v. get_victim_process s = Some v \<and> best (ptable s) {..<NPROC} v"
proof -
  let ?t = "ptable s"
  have "best ?t {0} 0" by (simp add: best_def)
  from victim_loop_best [OF this refl, of "[1..<NPROC]"]
  obtain w where w: "victim_loop ?t [1..<NPROC] (p_rss (?t 0)) (Some 0) = Some w"
    "best ?t ({0} \<union> set [1..<NPROC]) w" by blast
  have "victim_loop ?t (0 # [1..<NPROC]) 0 None = Some w"
    using w(1) by (cases "p_rss (?t 0) = 0") (simp_all add: word_neq_0_conv)
  moreover have "[0..<NPROC] = 0 # [1..<NPROC]" by (simp add: upt_conv_Cons)
  moreover have "{0} \<union> set [1..<NPROC] = {..<NPROC}" by auto
  ultimately show ?thesis using w(2) unfolding get_victim_process_def by metis
qed

lemma get_victim_less: "get_victim_process s = Some v \<Longrightarrow> v < NPROC"
  using get_victim_best [of s] by (auto simp: best_def)

section \<open>Properties\<close>

text \<open>
  C23. get_victim_process always finds an entry, and the entry has the largest resident size of the table
  and the smallest pid among the entries of that size.
\<close>

theorem victim_is_largest: "\<exists>v. get_victim_process s = Some v \<and> best (ptable s) {..<NPROC} v"
  by (rule get_victim_best)

end
