(* ===== verification/Bio.thy ===== *)
theory Bio
  imports Kproc
begin

text \<open>
  Sleep locks (sleeplock.c), the IDE driver (ide.c) and the buffer cache (bio.c), on top of the process
  table. A buffer is an index below \<open>NBUF\<close>; the cache's doubly linked list is the list of indices from
  head.next to head.prev. A block is a byte array of which the first \<open>BSIZE\<close> bytes count.
  The disk is the array of blocks the driver's commands read and write; the interrupt that ends a
  request is what the sleeping requester waits for.
\<close>

unbundle bit_operations_syntax

section \<open>Sleep locks\<close>

record sleeplock =
  sl_locked :: bool
  sl_pid :: int

definition initsleeplock :: sleeplock where
  "initsleeplock = \<lparr>sl_locked = False, sl_pid = 0\<rparr>"

text \<open>Taking a held lock puts the caller to sleep on the lock.\<close>

definition acquiresleep :: "chan \<Rightarrow> sleeplock \<Rightarrow> 'a ptab_scheme \<Rightarrow> sleeplock res" where
  "acquiresleep ch lk s =
     (if sl_locked lk then Err (Sleep ch)
      else bindR (myproc s) (\<lambda>i. Ok \<lparr>sl_locked = True, sl_pid = p_pid (ptable s i)\<rparr>))"

definition releasesleep :: "chan \<Rightarrow> sleeplock \<Rightarrow> 'a ptab_scheme \<Rightarrow> sleeplock \<times> 'a ptab_scheme" where
  "releasesleep ch lk s = (\<lparr>sl_locked = False, sl_pid = 0\<rparr>, wakeup ch s)"

definition holdingsleep :: "sleeplock \<Rightarrow> 'a ptab_scheme \<Rightarrow> bool res" where
  "holdingsleep lk s =
     (if \<not> sl_locked lk then Ok False
      else bindR (myproc s) (\<lambda>i. Ok (sl_pid lk = p_pid (ptable s i))))"

section \<open>Buffers\<close>

abbreviation (input) BSIZE :: nat where "BSIZE \<equiv> 512"

definition B_VALID :: u32 where "B_VALID = 0x2"
definition B_DIRTY :: u32 where "B_DIRTY = 0x4"

record buf =
  b_flags :: u32
  b_dev :: u32
  b_blockno :: u32
  b_lock :: sleeplock
  b_refcnt :: nat
  b_data :: bytes

record bio = ptab +
  bufs :: "nat \<Rightarrow> buf"
  lru :: "nat list"
  idequeue :: "nat list"
  havedisk1 :: bool
  ide_err :: bool
  disk :: "u32 \<Rightarrow> u32 \<Rightarrow> bytes"

definition upd_buf :: "nat \<Rightarrow> (buf \<Rightarrow> buf) \<Rightarrow> 'a bio_scheme \<Rightarrow> 'a bio_scheme" where
  "upd_buf b f s = s\<lparr>bufs := (bufs s)(b := f (bufs s b))\<rparr>"

section \<open>ide.c\<close>

definition idestart :: "nat \<Rightarrow> 'a bio_scheme \<Rightarrow> 'a bio_scheme res" where
  "idestart b s =
     (let bf = bufs s b in
      if b_blockno bf \<ge> FSSIZE then Err (Panic ''incorrect blockno'')
      else if has (b_flags bf) B_DIRTY then
        Ok (s\<lparr>disk := (disk s)(b_dev bf AND 1 := (disk s (b_dev bf AND 1))(b_blockno bf := b_data bf))\<rparr>)
      else Ok s)"

text \<open>The interrupt handler: finish the request at the head of the queue, start the next one.\<close>

definition ideintr :: "'a bio_scheme \<Rightarrow> 'a bio_scheme res" where
  "ideintr s =
     (case idequeue s of
        [] \<Rightarrow> Ok s
      | b # q \<Rightarrow>
          let s = s\<lparr>idequeue := q\<rparr>;
              s = (if \<not> has (b_flags (bufs s b)) B_DIRTY \<and> \<not> ide_err s
                   then upd_buf b (\<lambda>bf. bf\<lparr>b_data := disk s (b_dev bf AND 1) (b_blockno bf)\<rparr>) s else s);
              s = upd_buf b (\<lambda>bf. bf\<lparr>b_flags := (b_flags bf OR B_VALID) AND NOT B_DIRTY\<rparr>) s;
              s = wakeup (ChBuf b) s
          in (case idequeue s of [] \<Rightarrow> Ok s | b' # _ \<Rightarrow> idestart b' s))"

text \<open>The requester's loop: asleep on the buffer until its request is done; each round is one interrupt.\<close>

primrec ide_wait :: "nat \<Rightarrow> nat \<Rightarrow> 'a bio_scheme \<Rightarrow> 'a bio_scheme res" where
  "ide_wait 0 b s = Err Hang"
| "ide_wait (Suc n) b s =
     (if b_flags (bufs s b) AND (B_VALID OR B_DIRTY) = B_VALID then Ok s
      else bindR (ideintr s) (ide_wait n b))"

definition iderw :: "nat \<Rightarrow> 'a bio_scheme \<Rightarrow> 'a bio_scheme res" where
  "iderw b s =
     bindR (holdingsleep (b_lock (bufs s b)) s) (\<lambda>h.
       if \<not> h then Err (Panic ''iderw: buf not locked'')
       else if b_flags (bufs s b) AND (B_VALID OR B_DIRTY) = B_VALID
         then Err (Panic ''iderw: nothing to do'')
       else if b_dev (bufs s b) \<noteq> 0 \<and> \<not> havedisk1 s
         then Err (Panic ''iderw: ide disk 1 not present'')
       else
         let q = idequeue s; s = s\<lparr>idequeue := q @ [b]\<rparr>
         in bindR (if hd (q @ [b]) = b then idestart b s else Ok s)
              (\<lambda>s. ide_wait (Suc (length (idequeue s))) b s))"

section \<open>bio.c\<close>

definition binit :: "'a bio_scheme \<Rightarrow> 'a bio_scheme" where
  "binit s = s\<lparr>lru := foldl (\<lambda>l b. b # l) [] [0..<NBUF],
     bufs := (\<lambda>b. if b < NBUF then (bufs s b)\<lparr>b_lock := initsleeplock\<rparr> else bufs s b)\<rparr>"

definition lock_buf :: "nat \<Rightarrow> 'a bio_scheme \<Rightarrow> (nat \<times> 'a bio_scheme) res" where
  "lock_buf b s =
     bindR (acquiresleep (ChBufLock b) (b_lock (bufs s b)) s) (\<lambda>lk.
       Ok (b, upd_buf b (\<lambda>bf. bf\<lparr>b_lock := lk\<rparr>) s))"

definition bget :: "u32 \<Rightarrow> u32 \<Rightarrow> 'a bio_scheme \<Rightarrow> (nat \<times> 'a bio_scheme) res" where
  "bget dev blockno s =
     (case List.find (\<lambda>b. b_dev (bufs s b) = dev \<and> b_blockno (bufs s b) = blockno) (lru s) of
        Some b \<Rightarrow> lock_buf b (upd_buf b (\<lambda>bf. bf\<lparr>b_refcnt := b_refcnt bf + 1\<rparr>) s)
      | None \<Rightarrow>
          (case List.find (\<lambda>b. b_refcnt (bufs s b) = 0 \<and> \<not> has (b_flags (bufs s b)) B_DIRTY)
                  (rev (lru s)) of
             Some b \<Rightarrow> lock_buf b (upd_buf b
               (\<lambda>bf. bf\<lparr>b_dev := dev, b_blockno := blockno, b_flags := 0, b_refcnt := 1\<rparr>) s)
           | None \<Rightarrow> Err (Panic ''bget: no buffers'')))"

definition bread :: "u32 \<Rightarrow> u32 \<Rightarrow> 'a bio_scheme \<Rightarrow> (nat \<times> 'a bio_scheme) res" where
  "bread dev blockno s =
     bindR (bget dev blockno s) (\<lambda>(b, s).
       if \<not> has (b_flags (bufs s b)) B_VALID then bindR (iderw b s) (\<lambda>s. Ok (b, s)) else Ok (b, s))"

definition bwrite :: "nat \<Rightarrow> 'a bio_scheme \<Rightarrow> 'a bio_scheme res" where
  "bwrite b s =
     bindR (holdingsleep (b_lock (bufs s b)) s) (\<lambda>h.
       if \<not> h then Err (Panic ''bwrite'')
       else iderw b (upd_buf b (\<lambda>bf. bf\<lparr>b_flags := b_flags bf OR B_DIRTY\<rparr>) s))"

definition brelse :: "nat \<Rightarrow> 'a bio_scheme \<Rightarrow> 'a bio_scheme res" where
  "brelse b s =
     bindR (holdingsleep (b_lock (bufs s b)) s) (\<lambda>h.
       if \<not> h then Err (Panic ''brelse'')
       else
         let (lk, s) = releasesleep (ChBufLock b) (b_lock (bufs s b)) s;
             s = upd_buf b (\<lambda>bf. bf\<lparr>b_lock := lk, b_refcnt := b_refcnt bf - 1\<rparr>) s
         in Ok (if b_refcnt (bufs s b) = 0 then s\<lparr>lru := b # removeAll b (lru s)\<rparr> else s))"

text \<open>One round of the loops of write_page_to_swap and read_page_from_swap.\<close>

definition swap_write_block :: "u32 \<Rightarrow> bytes \<Rightarrow> nat \<Rightarrow> 'a bio_scheme \<Rightarrow> 'a bio_scheme res" where
  "swap_write_block blockno src i s =
     bindR (bread ROOTDEV (blockno + of_nat i) s) (\<lambda>(b, s).
     bindR (bwrite b (upd_buf b (\<lambda>bf. bf\<lparr>b_data := blit (b_data bf) 0 src (i * BSIZE) BSIZE\<rparr>) s))
       (brelse b))"

definition write_page_to_swap :: "u32 \<Rightarrow> bytes \<Rightarrow> 'a bio_scheme \<Rightarrow> 'a bio_scheme res" where
  "write_page_to_swap blockno src s = foldR (swap_write_block blockno src) [0..<8] s"

definition swap_read_block ::
    "u32 \<Rightarrow> nat \<Rightarrow> bytes \<times> 'a bio_scheme \<Rightarrow> (bytes \<times> 'a bio_scheme) res" where
  "swap_read_block blockno i = (\<lambda>(dst, s).
     bindR (bread ROOTDEV (blockno + of_nat i) s) (\<lambda>(b, s).
       let dst = blit dst (i * BSIZE) (b_data (bufs s b)) 0 BSIZE
       in bindR (brelse b s) (\<lambda>s. Ok (dst, s))))"

definition read_page_from_swap :: "u32 \<Rightarrow> bytes \<Rightarrow> 'a bio_scheme \<Rightarrow> (bytes \<times> 'a bio_scheme) res" where
  "read_page_from_swap blockno dst s = foldR (swap_read_block blockno) [0..<8] (dst, s)"

section \<open>Flags\<close>

lemma has_buf_flags [simp]: "has f B_VALID \<longleftrightarrow> bit f (Suc 0)" "has f B_DIRTY \<longleftrightarrow> bit f 2"
  using and_pow2 [of f 1] and_pow2 [of f 2] by (simp_all add: has_def B_VALID_def B_DIRTY_def)

lemma bit_buf_flags: "bit B_VALID n \<longleftrightarrow> n = 1" "bit B_DIRTY n \<longleftrightarrow> n = 2"
proof -
  have *: "bit ((2::u32) ^ k) n \<longleftrightarrow> n = k" if "k < 32" for k
    using that by (auto simp: bit_simps)
  show "bit B_VALID n \<longleftrightarrow> n = 1" "bit B_DIRTY n \<longleftrightarrow> n = 2"
    using * [of 1] * [of 2] by (simp_all add: B_VALID_def B_DIRTY_def)
qed

lemma flags_done_iff: "f AND (B_VALID OR B_DIRTY) = B_VALID \<longleftrightarrow> bit f (Suc 0) \<and> \<not> bit f 2"
proof
  assume *: "f AND (B_VALID OR B_DIRTY) = B_VALID"
  have "bit (f AND (B_VALID OR B_DIRTY)) n \<longleftrightarrow> bit B_VALID n" for n using * by simp
  from this [of "Suc 0"] this [of 2] show "bit f (Suc 0) \<and> \<not> bit f 2"
    by (auto simp: bit_and_iff bit_or_iff bit_buf_flags)
next
  assume "bit f (Suc 0) \<and> \<not> bit f 2"
  then show "f AND (B_VALID OR B_DIRTY) = B_VALID"
    by (intro bit_word_eqI) (auto simp: bit_and_iff bit_or_iff bit_buf_flags)
qed

lemma flags_finish [simp]:
  "bit ((f OR B_VALID) AND NOT B_DIRTY) (Suc 0)" "\<not> bit ((f OR B_VALID) AND NOT B_DIRTY) 2"
  "bit (f OR B_DIRTY) 2" "bit (f OR B_DIRTY) (Suc 0) \<longleftrightarrow> bit f (Suc 0)"
  by (simp_all add: bit_and_iff bit_or_iff bit_not_iff bit_buf_flags)

section \<open>One request on an idle controller\<close>

text \<open>
  What a request does to the buffer and to the disk: a dirty buffer is written, any other is read, and
  the buffer ends valid and clean.
\<close>

definition synced :: "('a bio_scheme) \<Rightarrow> nat \<Rightarrow> buf" where
  "synced s b = (let bf = bufs s b in
     bf\<lparr>b_data := (if has (b_flags bf) B_DIRTY \<or> ide_err s then b_data bf else disk s (b_dev bf AND 1) (b_blockno bf)),
        b_flags := (b_flags bf OR B_VALID) AND NOT B_DIRTY\<rparr>)"

definition written :: "('a bio_scheme) \<Rightarrow> nat \<Rightarrow> u32 \<Rightarrow> u32 \<Rightarrow> bytes" where
  "written s b = (let bf = bufs s b in
     if has (b_flags bf) B_DIRTY
     then (disk s)(b_dev bf AND 1 := (disk s (b_dev bf AND 1))(b_blockno bf := b_data bf)) else disk s)"

lemma upd_buf_sel [simp]:
  "bufs (upd_buf b f s) = (bufs s)(b := f (bufs s b))" "lru (upd_buf b f s) = lru s"
  "idequeue (upd_buf b f s) = idequeue s" "havedisk1 (upd_buf b f s) = havedisk1 s"
  "ide_err (upd_buf b f s) = ide_err s"
  "disk (upd_buf b f s) = disk s" "bio.more (upd_buf b f s) = bio.more s"
  "ptable (upd_buf b f s) = ptable s" "curproc (upd_buf b f s) = curproc s"
  "nextpid (upd_buf b f s) = nextpid s" "initproc (upd_buf b f s) = initproc s"
  by (simp_all add: upd_buf_def)

lemma wakeup_bio_sel [simp]:
  "bufs (wakeup ch s) = bufs s" "lru (wakeup ch s) = lru s"
  "idequeue (wakeup ch s) = idequeue s" "havedisk1 (wakeup ch s) = havedisk1 s"
  "ide_err (wakeup ch s) = ide_err s"
  "disk (wakeup ch s) = disk s" "bio.more (wakeup ch s) = bio.more s"
  by (simp_all add: wakeup_def wakeup1_def)

text \<open>What every operation of this component leaves alone: the rest of the kernel.\<close>

definition bio_frame :: "'a bio_scheme \<Rightarrow> 'a bio_scheme \<Rightarrow> bool" where
  "bio_frame s t \<longleftrightarrow> same_procs s t \<and> havedisk1 t = havedisk1 s \<and> ide_err t = ide_err s \<and> bio.more t = bio.more s"

lemma bio_frame_refl [simp]: "bio_frame s s"
  by (simp add: bio_frame_def)

lemma bio_frame_trans [trans]: "bio_frame s t \<Longrightarrow> bio_frame t u \<Longrightarrow> bio_frame s u"
  unfolding bio_frame_def by (metis same_procs_trans)

lemma bio_frameI: "ptable t = ptable s \<Longrightarrow> curproc t = curproc s \<Longrightarrow> nextpid t = nextpid s
    \<Longrightarrow> initproc t = initproc s \<Longrightarrow> havedisk1 t = havedisk1 s \<Longrightarrow> ide_err t = ide_err s \<Longrightarrow> bio.more t = bio.more s
    \<Longrightarrow> bio_frame s t"
  by (simp add: bio_frame_def same_procs_cong)

lemma bio_frame_err: "bio_frame s t \<Longrightarrow> ide_err t = ide_err s"
  by (simp add: bio_frame_def)

lemma bio_frame_upd_buf [simp]: "bio_frame s (upd_buf b f s)"
  by (rule bio_frameI) simp_all

lemma bio_frame_wakeup [simp]: "bio_frame s (wakeup ch s)"
  by (simp add: bio_frame_def) (simp add: wakeup_def)

lemma ideintr_single:
  assumes "idequeue s = [b]" and "ideintr s = Ok s'"
  shows "bufs s' = (bufs s)(b := synced s b)" "disk s' = disk s" "lru s' = lru s" "idequeue s' = []"
    "bio_frame s s'"
proof -
  let ?s1 = "s\<lparr>idequeue := []\<rparr>"
  let ?s2 = "(if \<not> has (b_flags (bufs s b)) B_DIRTY \<and> \<not> ide_err s
                   then upd_buf b (\<lambda>bf. bf\<lparr>b_data := disk s (b_dev bf AND 1) (b_blockno bf)\<rparr>) ?s1 else ?s1)"
  let ?s3 = "upd_buf b (\<lambda>bf. bf\<lparr>b_flags := (b_flags bf OR B_VALID) AND NOT B_DIRTY\<rparr>) ?s2"
  have s': "s' = wakeup (ChBuf b) ?s3"
    using assms by (auto simp: ideintr_def Let_def)
  show "bufs s' = (bufs s)(b := synced s b)" "disk s' = disk s" "lru s' = lru s" "idequeue s' = []"
    unfolding s' by (simp_all add: synced_def Let_def)
  have "same_procs s ?s3" by (rule same_procs_cong) simp_all
  then have "same_procs s s'" unfolding s' wakeup_def
    using same_procs_wakeup1 same_procs_trans by blast
  then show "bio_frame s s'" by (simp add: bio_frame_def s')
qed

lemma iderw_idle:
  assumes ok: "iderw b s = Ok s'" and q: "idequeue s = []"
  shows "bufs s' = (bufs s)(b := synced s b)" "disk s' = written s b" "lru s' = lru s"
    "idequeue s' = []" "bio_frame s s'"
proof -
  let ?s1 = "s\<lparr>idequeue := [b]\<rparr>"
  have nd: "\<not> b_flags (bufs s b) AND (B_VALID OR B_DIRTY) = B_VALID"
    using ok by (auto simp: iderw_def bindR_Ok_iff split: if_splits)
  obtain s2 where s2: "idestart b ?s1 = Ok s2"
    and wt: "ide_wait (Suc (length (idequeue s2))) b s2 = Ok s'"
    using ok q by (auto simp: iderw_def bindR_Ok_iff Let_def split: if_splits)
  have s2f: "bufs s2 = bufs s" "disk s2 = written s b" "lru s2 = lru s" "idequeue s2 = [b]"
    and fr: "bio_frame s s2"
    using s2 by (auto simp: idestart_def written_def Let_def intro: bio_frameI split: if_splits)
  from wt nd s2f obtain s3 where s3: "ideintr s2 = Ok s3" and w3: "ide_wait (Suc 0) b s3 = Ok s'"
    by (auto simp: bindR_Ok_iff)
  note i = ideintr_single [OF s2f(4) s3]
  have sy: "synced s2 b = synced s b"
    using s2f bio_frame_err [OF fr] by (simp add: synced_def written_def Let_def)
  have "b_flags (bufs s3 b) AND (B_VALID OR B_DIRTY) = B_VALID"
    using i(1) by (simp add: synced_def Let_def flags_done_iff)
  with w3 have "s' = s3" by (auto simp: bindR_Ok_iff)
  then show "bufs s' = (bufs s)(b := synced s b)" "disk s' = written s b" "lru s' = lru s"
    "idequeue s' = []" "bio_frame s s'"
    using i s2f fr sy by (auto intro: bio_frame_trans)
qed

section \<open>Lock, read, write, release\<close>

text \<open>The lock of the running process.\<close>

definition my_lock :: "'a bio_scheme \<Rightarrow> sleeplock \<Rightarrow> bool" where
  "my_lock s lk \<longleftrightarrow> (\<exists>i. curproc s = Some i \<and> lk = \<lparr>sl_locked = True, sl_pid = p_pid (ptable s i)\<rparr>)"

lemma lock_buf_spec:
  assumes "lock_buf b s = Ok (c, s')"
  obtains lk where "c = b" "\<not> sl_locked (b_lock (bufs s b))" "my_lock s lk"
    "s' = upd_buf b (\<lambda>bf. bf\<lparr>b_lock := lk\<rparr>) s"
  using assms by (auto simp: lock_buf_def acquiresleep_def myproc_def bindR_Ok_iff my_lock_def
      split: if_splits option.splits)

lemma my_lock_upd_buf [simp]: "my_lock (upd_buf b f s) lk = my_lock s lk"
  by (simp add: my_lock_def)

definition bio_inv :: "'a bio_scheme \<Rightarrow> bool" where
  "bio_inv s \<longleftrightarrow>
     set (lru s) = {..<NBUF} \<and> distinct (lru s) \<and> idequeue s = [] \<and> \<not> ide_err s \<and>
     (\<forall>b < NBUF. b_dev (bufs s b) \<in> {0, ROOTDEV}) \<and>
     (\<forall>b < NBUF. \<forall>c < NBUF. b \<noteq> c \<and> b_dev (bufs s b) = ROOTDEV \<and> b_dev (bufs s c) = ROOTDEV
        \<longrightarrow> b_blockno (bufs s b) \<noteq> b_blockno (bufs s c)) \<and>
     (\<forall>b < NBUF. sl_locked (b_lock (bufs s b)) \<longrightarrow> 0 < b_refcnt (bufs s b)) \<and>
     (\<forall>b < NBUF. b_dev (bufs s b) = ROOTDEV \<and> \<not> sl_locked (b_lock (bufs s b)) \<and>
        bit (b_flags (bufs s b)) (Suc 0) \<and> \<not> bit (b_flags (bufs s b)) 2
        \<longrightarrow> b_data (bufs s b) = disk s ROOTDEV (b_blockno (bufs s b))) \<and>
     (\<forall>b < NBUF. bit (b_flags (bufs s b)) 2 \<longrightarrow> bit (b_flags (bufs s b)) (Suc 0))"

text \<open>The block a reader sees: the valid cached copy if there is one, the disk's otherwise.\<close>

definition cached :: "'a bio_scheme \<Rightarrow> u32 \<Rightarrow> nat \<Rightarrow> bool" where
  "cached s n b \<longleftrightarrow> b < NBUF \<and> b_dev (bufs s b) = ROOTDEV \<and> b_blockno (bufs s b) = n
     \<and> bit (b_flags (bufs s b)) (Suc 0)"

definition view :: "'a bio_scheme \<Rightarrow> u32 \<Rightarrow> bytes" where
  "view s n = (case List.find (cached s n) [0..<NBUF] of
     Some b \<Rightarrow> b_data (bufs s b) | None \<Rightarrow> disk s ROOTDEV n)"

lemma view_cached:
  assumes "bio_inv s" and "cached s n b"
  shows "view s n = b_data (bufs s b)"
proof -
  have u: "c = b" if "cached s n c" for c
    using assms that unfolding bio_inv_def cached_def by blast
  have "List.find (cached s n) [0..<NBUF] \<noteq> None"
    using assms(2) by (auto simp: find_None_iff cached_def)
  then obtain c where "List.find (cached s n) [0..<NBUF] = Some c" by blast
  moreover from this have "cached s n c" by (auto simp: find_Some_iff)
  ultimately show ?thesis using u by (simp add: view_def)
qed

lemma view_uncached: "(\<And>b. \<not> cached s n b) \<Longrightarrow> view s n = disk s ROOTDEV n"
  by (simp add: view_def find_None_iff [THEN iffD2])

lemma view_cong:
  assumes "\<And>c. cached t m c \<longleftrightarrow> cached s m c"
    and "\<And>c. cached s m c \<Longrightarrow> b_data (bufs t c) = b_data (bufs s c)"
    and "disk t ROOTDEV m = disk s ROOTDEV m"
  shows "view t m = view s m"
proof -
  have "cached t m = cached s m" using assms(1) by blast
  then show ?thesis using assms(2,3)
    by (cases "List.find (cached s m) [0..<NBUF]") (auto simp: view_def dest: find_SomeD)
qed

lemma bget_spec:
  assumes inv: "bio_inv s" and ok: "bget ROOTDEV n s = Ok (b, s1)"
  obtains bf where "b < NBUF" "bio_frame s s1" "bufs s1 = (bufs s)(b := bf)" "lru s1 = lru s"
    "idequeue s1 = []" "disk s1 = disk s" "\<not> sl_locked (b_lock (bufs s b))" "my_lock s1 (b_lock bf)"
    "b_dev bf = ROOTDEV" "b_blockno bf = n" "b_refcnt bf = Suc (b_refcnt (bufs s b))" "b_data bf = b_data (bufs s b)"
    "b_dev (bufs s b) = ROOTDEV \<and> b_blockno (bufs s b) = n \<and> b_flags bf = b_flags (bufs s b) \<or>
     (\<forall>c < NBUF. b_dev (bufs s c) = ROOTDEV \<longrightarrow> b_blockno (bufs s c) \<noteq> n) \<and>
     b_refcnt (bufs s b) = 0 \<and> \<not> bit (b_flags (bufs s b)) 2 \<and> b_flags bf = 0"
proof -
  have lru: "set (lru s) = {..<NBUF}" and q: "idequeue s = []" using inv by (auto simp: bio_inv_def)
  show thesis
  proof (cases "List.find (\<lambda>b. b_dev (bufs s b) = ROOTDEV \<and> b_blockno (bufs s b) = n) (lru s)")
    case (Some c)
    then have c: "c < NBUF" "b_dev (bufs s c) = ROOTDEV" "b_blockno (bufs s c) = n"
      using lru find_SomeD [OF Some] by auto
    from ok Some have l: "lock_buf c (upd_buf c (\<lambda>bf. bf\<lparr>b_refcnt := b_refcnt bf + 1\<rparr>) s) = Ok (b, s1)"
      by (simp add: bget_def)
    from lock_buf_spec [OF l] obtain lk where lk: "b = c" "\<not> sl_locked (b_lock (bufs s c))" "my_lock s lk"
      and s1: "s1 = upd_buf c (\<lambda>bf. bf\<lparr>b_lock := lk\<rparr>) (upd_buf c (\<lambda>bf. bf\<lparr>b_refcnt := b_refcnt bf + 1\<rparr>) s)"
      by auto
    show thesis
      by (rule that [of "bufs s1 b"]) (use c lk q in \<open>simp_all add: s1 bio_frameI\<close>)
  next
    case None
    then have nm: "\<forall>c < NBUF. b_dev (bufs s c) = ROOTDEV \<longrightarrow> b_blockno (bufs s c) \<noteq> n"
      using lru by (auto simp: find_None_iff)
    let ?f = "\<lambda>bf. bf\<lparr>b_dev := ROOTDEV, b_blockno := n, b_flags := 0, b_refcnt := 1\<rparr>"
    from ok None obtain c where
      c: "List.find (\<lambda>b. b_refcnt (bufs s b) = 0 \<and> \<not> has (b_flags (bufs s b)) B_DIRTY) (rev (lru s)) = Some c"
      and l: "lock_buf c (upd_buf c ?f s) = Ok (b, s1)"
      by (simp add: bget_def split: option.splits)
    from find_SomeD [OF c] lru have c: "c < NBUF" "b_refcnt (bufs s c) = 0" "\<not> bit (b_flags (bufs s c)) 2"
      by auto
    from lock_buf_spec [OF l] obtain lk where lk: "b = c" "\<not> sl_locked (b_lock (bufs s c))" "my_lock s lk"
      and s1: "s1 = upd_buf c (\<lambda>bf. bf\<lparr>b_lock := lk\<rparr>) (upd_buf c ?f s)"
      by auto
    show thesis
      by (rule that [of "bufs s1 b"]) (use c lk q nm in \<open>simp_all add: s1 bio_frameI\<close>)
  qed
qed

lemma bio_inv_update:
  assumes inv: "bio_inv s" and b: "b < NBUF" and bufs: "bufs t = (bufs s)(b := bf)"
    and lru: "set (lru t) = set (lru s)" "distinct (lru t)" and q: "idequeue t = []" "ide_err t = ide_err s"
    and dev: "b_dev bf = ROOTDEV"
    and uniq: "\<And>c. c < NBUF \<Longrightarrow> c \<noteq> b \<Longrightarrow> b_dev (bufs s c) = ROOTDEV \<Longrightarrow> b_blockno (bufs s c) \<noteq> b_blockno bf"
    and lock: "sl_locked (b_lock bf) \<Longrightarrow> 0 < b_refcnt bf"
    and clean: "\<not> sl_locked (b_lock bf) \<Longrightarrow> bit (b_flags bf) (Suc 0) \<Longrightarrow> \<not> bit (b_flags bf) 2
        \<Longrightarrow> b_data bf = disk t ROOTDEV (b_blockno bf)"
    and dirty: "bit (b_flags bf) 2 \<Longrightarrow> bit (b_flags bf) (Suc 0)"
    and disk: "\<And>m. m \<noteq> b_blockno bf \<Longrightarrow> disk t ROOTDEV m = disk s ROOTDEV m"
  shows "bio_inv t"
  unfolding bio_inv_def
proof (intro conjI allI impI)
  show "set (lru t) = {..<NBUF}" "distinct (lru t)" "idequeue t = []" "\<not> ide_err t"
    using inv lru q by (simp_all add: bio_inv_def)
next
  fix c assume "c < NBUF"
  then show "b_dev (bufs t c) \<in> {0, ROOTDEV}" using inv dev bufs by (auto simp: bio_inv_def)
next
  fix c d assume c: "c < NBUF" and d: "d < NBUF"
    and *: "c \<noteq> d \<and> b_dev (bufs t c) = ROOTDEV \<and> b_dev (bufs t d) = ROOTDEV"
  have "b_blockno (bufs s c) \<noteq> b_blockno (bufs s d)" if "c \<noteq> b" "d \<noteq> b"
    using inv c d * that bufs unfolding bio_inv_def by (auto simp del: One_nat_def)
  with uniq [OF c] uniq [OF d] * bufs
  show "b_blockno (bufs t c) \<noteq> b_blockno (bufs t d)" by (cases "c = b"; cases "d = b") auto
next
  fix c assume "c < NBUF" and "sl_locked (b_lock (bufs t c))"
  then show "0 < b_refcnt (bufs t c)" using inv lock bufs by (cases "c = b") (auto simp: bio_inv_def)
next
  fix c assume c: "c < NBUF" and *: "b_dev (bufs t c) = ROOTDEV \<and> \<not> sl_locked (b_lock (bufs t c)) \<and>
        bit (b_flags (bufs t c)) (Suc 0) \<and> \<not> bit (b_flags (bufs t c)) 2"
  show "b_data (bufs t c) = disk t ROOTDEV (b_blockno (bufs t c))"
  proof (cases "c = b")
    case True then show ?thesis using clean * bufs by simp
  next
    case False
    then have "b_data (bufs s c) = disk s ROOTDEV (b_blockno (bufs s c))"
      using inv c * bufs by (simp add: bio_inv_def)
    with False show ?thesis using disk uniq [OF c] * bufs by simp
  qed
next
  fix c assume "c < NBUF" and "bit (b_flags (bufs t c)) 2"
  then show "bit (b_flags (bufs t c)) (Suc 0)" using inv dirty bufs
    by (cases "c = b") (auto simp: bio_inv_def)
qed

lemma view_disk:
  assumes "bio_inv s" "cached s m b" "\<not> sl_locked (b_lock (bufs s b))" "\<not> bit (b_flags (bufs s b)) 2"
  shows "view s m = disk s ROOTDEV m"
  using assms view_cached [OF assms(1,2)] by (simp add: bio_inv_def cached_def)

lemma my_lock_frame: "bio_frame s t \<Longrightarrow> my_lock s lk \<Longrightarrow> my_lock t lk"
  by (auto simp: bio_frame_def my_lock_def same_procs_sel)

lemma bio_inv_uniq:
  "bio_inv s \<Longrightarrow> b < NBUF \<Longrightarrow> c < NBUF \<Longrightarrow> b_dev (bufs s b) = ROOTDEV \<Longrightarrow> b_dev (bufs s c) = ROOTDEV \<Longrightarrow> c \<noteq> b
    \<Longrightarrow> b_blockno (bufs s c) \<noteq> b_blockno (bufs s b)"
  unfolding bio_inv_def by blast

lemma view_update_other:
  assumes inv: "bio_inv s" and bufs: "bufs t = (bufs s)(b := bf)" and disk: "disk t ROOTDEV m = disk s ROOTDEV m"
    and m: "m \<noteq> b_blockno bf"
    and old: "b_blockno (bufs s b) = b_blockno bf \<or> \<not> sl_locked (b_lock (bufs s b)) \<and> \<not> bit (b_flags (bufs s b)) 2"
  shows "view t m = view s m"
proof (cases "cached s m b")
  case False
  then show ?thesis using disk m bufs by (intro view_cong) (auto simp: cached_def)
next
  case True
  with m old have "view s m = disk s ROOTDEV m" using view_disk [OF inv True] by (auto simp: cached_def)
  moreover have "\<not> cached t m c" for c
    using bio_inv_uniq [OF inv, of b c] True bufs m by (cases "c = b") (auto simp: cached_def)
  ultimately show ?thesis using disk view_uncached by metis
qed

text \<open>The state after a bread, on a hit and on a recycled buffer alike.\<close>

lemma bread_state:
  assumes inv: "bio_inv s" and ok: "bread ROOTDEV n s = Ok (b, s')"
  obtains bf where "b < NBUF" "bio_frame s s'" "bufs s' = (bufs s)(b := bf)" "lru s' = lru s" "idequeue s' = []"
    "disk s' = disk s" "\<not> sl_locked (b_lock (bufs s b))" "my_lock s' (b_lock bf)" "b_dev bf = ROOTDEV"
    "b_blockno bf = n" "b_refcnt bf = Suc (b_refcnt (bufs s b))"
    "bit (b_flags bf) (Suc 0)" "bit (b_flags bf) 2 = bit (b_flags (bufs s b)) 2"
    "b_data bf = (if cached s n b then b_data (bufs s b) else disk s ROOTDEV n)"
    "b_dev (bufs s b) = ROOTDEV \<and> b_blockno (bufs s b) = n \<or>
     (\<forall>c < NBUF. b_dev (bufs s c) = ROOTDEV \<longrightarrow> b_blockno (bufs s c) \<noteq> n) \<and> \<not> bit (b_flags (bufs s b)) 2"
proof -
  from ok obtain s1 where g: "bget ROOTDEV n s = Ok (b, s1)"
    and r: "(if \<not> has (b_flags (bufs s1 b)) B_VALID then bindR (iderw b s1) (\<lambda>s. Ok (b, s)) else Ok (b, s1))
            = Ok (b, s')"
    by (auto simp: bread_def bindR_Ok_iff split: if_splits)
  from bget_spec [OF inv g] obtain bf where b: "b < NBUF" and g1: "bio_frame s s1" "bufs s1 = (bufs s)(b := bf)"
    "lru s1 = lru s" "idequeue s1 = []" "disk s1 = disk s" and ul: "\<not> sl_locked (b_lock (bufs s b))"
    and lk: "my_lock s1 (b_lock bf)" and bf: "b_dev bf = ROOTDEV" "b_blockno bf = n"
    "b_refcnt bf = Suc (b_refcnt (bufs s b))" "b_data bf = b_data (bufs s b)"
    and old: "b_dev (bufs s b) = ROOTDEV \<and> b_blockno (bufs s b) = n \<and> b_flags bf = b_flags (bufs s b) \<or>
     (\<forall>c < NBUF. b_dev (bufs s c) = ROOTDEV \<longrightarrow> b_blockno (bufs s c) \<noteq> n) \<and>
     b_refcnt (bufs s b) = 0 \<and> \<not> bit (b_flags (bufs s b)) 2 \<and> b_flags bf = 0" .
  have dv: "bit (b_flags (bufs s b)) 2 \<Longrightarrow> bit (b_flags (bufs s b)) (Suc 0)"
    using inv b by (simp add: bio_inv_def)
  show thesis
  proof (cases "bit (b_flags bf) (Suc 0)")
    case True
    then show thesis using r g1 b ul lk bf old by (intro that [of bf]) (auto simp: cached_def)
  next
    case False
    then have "\<not> bit (b_flags bf) 2" using old dv by auto
    then have w: "written s1 b = disk s" using g1 by (simp add: written_def)
    from r g1 False have "iderw b s1 = Ok s'" by (simp add: bindR_Ok_iff)
    note i = iderw_idle [OF this g1(4)]
    have nc: "\<not> cached s n b" using False old b by (auto simp: cached_def)
    show thesis
    proof (rule that [of "synced s1 b"])
      show "bio_frame s s'" using g1 i by (blast intro: bio_frame_trans)
      show "my_lock s' (b_lock (synced s1 b))" using my_lock_frame [OF i(5) lk] g1 by (simp add: synced_def Let_def)
      show "bit (b_flags (synced s1 b)) 2 = bit (b_flags (bufs s b)) 2"
        using False old dv by (auto simp: synced_def Let_def)
      show "b_data (synced s1 b) = (if cached s n b then b_data (bufs s b) else disk s ROOTDEV n)"
        using g1 bf nc \<open>\<not> bit (b_flags bf) 2\<close> inv bio_frame_err [OF g1(1)]
        unfolding bio_inv_def by (simp add: synced_def Let_def)
    qed (use i g1 w b ul bf old in \<open>auto simp: synced_def Let_def\<close>)
  qed
qed

lemma bread_spec:
  assumes inv: "bio_inv s" and ok: "bread ROOTDEV n s = Ok (b, s')"
  obtains bf where "b < NBUF" "bio_frame s s'" "bufs s' = (bufs s)(b := bf)" "lru s' = lru s"
    "disk s' = disk s" "\<not> sl_locked (b_lock (bufs s b))" "my_lock s' (b_lock bf)"
    "b_refcnt bf = Suc (b_refcnt (bufs s b))" "bit (b_flags bf) 2 = bit (b_flags (bufs s b)) 2"
    "cached s' n b" "b_data bf = view s n" "\<not> bit (b_flags bf) 2 \<longrightarrow> b_data bf = disk s ROOTDEV n"
    "bio_inv s'" "view s' = view s"
proof -
  from bread_state [OF inv ok] obtain bf where b: "b < NBUF" and s': "bio_frame s s'" "bufs s' = (bufs s)(b := bf)"
    "lru s' = lru s" "idequeue s' = []" "disk s' = disk s" and ul: "\<not> sl_locked (b_lock (bufs s b))"
    and lk: "my_lock s' (b_lock bf)" and bf: "b_dev bf = ROOTDEV" "b_blockno bf = n"
    "b_refcnt bf = Suc (b_refcnt (bufs s b))" "bit (b_flags bf) (Suc 0)"
    "bit (b_flags bf) 2 = bit (b_flags (bufs s b)) 2"
    "b_data bf = (if cached s n b then b_data (bufs s b) else disk s ROOTDEV n)"
    and old: "b_dev (bufs s b) = ROOTDEV \<and> b_blockno (bufs s b) = n \<or>
     (\<forall>c < NBUF. b_dev (bufs s c) = ROOTDEV \<longrightarrow> b_blockno (bufs s c) \<noteq> n) \<and> \<not> bit (b_flags (bufs s b)) 2" .
  have uniq: "b_blockno (bufs s c) \<noteq> b_blockno bf" if "c < NBUF" "c \<noteq> b" "b_dev (bufs s c) = ROOTDEV" for c
    using old bio_inv_uniq [OF inv b that(1)] that bf by auto
  have lk': "sl_locked (b_lock bf)" using lk by (auto simp: my_lock_def)
  have i': "bio_inv s'"
    by (rule bio_inv_update [OF inv b s'(2)]) (use inv s' bf uniq lk' bio_frame_err [OF s'(1)] in \<open>auto simp: bio_inv_def\<close>)
  have c': "cached s' n b" using b s' bf by (simp add: cached_def)
  have data: "b_data bf = view s n"
  proof (cases "cached s n b")
    case True
    with view_cached [OF inv True] show ?thesis using bf by simp
  next
    case False
    then have "\<not> cached s n c" for c using uniq [of c] bf by (cases "c = b") (auto simp: cached_def)
    then have "view s n = disk s ROOTDEV n" by (rule view_uncached)
    with False bf show ?thesis by simp
  qed
  have "view s' m = view s m" for m
  proof (cases "m = n")
    case True then show ?thesis using view_cached [OF i' c'] s' data by simp
  next
    case False
    show ?thesis
      by (rule view_update_other [OF inv s'(2)]) (use s' False bf ul old in auto)
  qed
  then have v: "view s' = view s" by blast
  have "\<not> bit (b_flags bf) 2 \<longrightarrow> b_data bf = disk s ROOTDEV n"
    using view_disk [OF inv _ ul] data bf by (cases "cached s n b") auto
  then show thesis by (rule that [OF b s'(1-3) s'(5) ul lk bf(3,5) c' data _ i' v])
qed

lemma my_lock_holding: "my_lock s lk \<Longrightarrow> holdingsleep lk s = Ok True"
  by (auto simp: my_lock_def holdingsleep_def myproc_def)

text \<open>bwrite makes the data of a locked buffer the block's content, in the cache and on the disk.\<close>

lemma bwrite_spec:
  assumes inv: "bio_inv s" and c: "cached s n b" and ok: "bwrite b s = Ok s'"
    and lk: "my_lock s (b_lock (bufs s b))"
  obtains bf where "bio_frame s s'" "bufs s' = (bufs s)(b := bf)" "lru s' = lru s" "bio_inv s'" "cached s' n b"
    "b_lock bf = b_lock (bufs s b)" "b_refcnt bf = b_refcnt (bufs s b)" "b_data bf = b_data (bufs s b)"
    "\<not> bit (b_flags bf) 2"
    "view s' = view s" "disk s' ROOTDEV = (disk s ROOTDEV)(n := b_data (bufs s b))"
proof -
  let ?s1 = "upd_buf b (\<lambda>bf. bf\<lparr>b_flags := b_flags bf OR B_DIRTY\<rparr>) s"
  from ok have w: "iderw b ?s1 = Ok s'"
    using my_lock_holding [OF lk] by (simp add: bwrite_def)
  have q: "idequeue ?s1 = []" and b: "b < NBUF" using inv c by (simp_all add: bio_inv_def cached_def)
  note i = iderw_idle [OF w q]
  let ?bf = "synced ?s1 b"
  have bf: "b_lock ?bf = b_lock (bufs s b)" "b_refcnt ?bf = b_refcnt (bufs s b)" "b_data ?bf = b_data (bufs s b)"
    "b_dev ?bf = ROOTDEV" "b_blockno ?bf = n" "bit (b_flags ?bf) (Suc 0)" "\<not> bit (b_flags ?bf) 2"
    using c by (simp_all add: synced_def Let_def cached_def)
  have bufs: "bufs s' = (bufs s)(b := ?bf)" using i by simp
  have disk: "disk s' ROOTDEV = (disk s ROOTDEV)(n := b_data (bufs s b))"
    using i c by (simp add: written_def Let_def cached_def)
  have fr: "bio_frame s s'" using i bio_frame_upd_buf bio_frame_trans by blast
  have i': "bio_inv s'"
    by (rule bio_inv_update [OF inv b bufs])
      (use inv bf i disk c bio_frame_err [OF fr] bio_inv_uniq [OF inv b] in \<open>auto simp: bio_inv_def cached_def\<close>)
  have c': "cached s' n b" using bufs bf b by (simp add: cached_def)
  have "view s' m = view s m" for m
  proof (cases "m = n")
    case True then show ?thesis using view_cached [OF i' c'] view_cached [OF inv c] bufs bf by simp
  next
    case False
    show ?thesis by (rule view_update_other [OF inv bufs]) (use False bf disk c in \<open>auto simp: cached_def\<close>)
  qed
  then have "view s' = view s" by blast
  with that [OF fr bufs _ i' c' bf(1-3) bf(7) _ disk] i show thesis by simp
qed

text \<open>brelse gives the buffer back; what it holds must already be on the disk, or marked dirty.\<close>

lemma brelse_spec:
  assumes inv: "bio_inv s" and c: "cached s n b" and lk: "my_lock s (b_lock (bufs s b))"
    and clean: "\<not> bit (b_flags (bufs s b)) 2 \<Longrightarrow> b_data (bufs s b) = disk s ROOTDEV n"
  obtains s' bf where "brelse b s = Ok s'" "bio_frame s s'" "bufs s' = (bufs s)(b := bf)" "bio_inv s'"
    "\<not> sl_locked (b_lock bf)" "b_refcnt bf = b_refcnt (bufs s b) - 1" "b_flags bf = b_flags (bufs s b)"
    "disk s' = disk s" "view s' = view s"
proof -
  let ?bf = "(bufs s b)\<lparr>b_lock := \<lparr>sl_locked = False, sl_pid = 0\<rparr>, b_refcnt := b_refcnt (bufs s b) - 1\<rparr>"
  let ?s1 = "upd_buf b (\<lambda>bf. bf\<lparr>b_lock := \<lparr>sl_locked = False, sl_pid = 0\<rparr>, b_refcnt := b_refcnt bf - 1\<rparr>)
     (wakeup (ChBufLock b) s)"
  let ?s' = "if b_refcnt (bufs ?s1 b) = 0 then ?s1\<lparr>lru := b # removeAll b (lru ?s1)\<rparr> else ?s1"
  have b: "b < NBUF" using c by (simp add: cached_def)
  have ok: "brelse b s = Ok ?s'"
    using my_lock_holding [OF lk] by (simp add: brelse_def releasesleep_def Let_def)
  have bufs: "bufs ?s' = (bufs s)(b := ?bf)" by simp
  have "bio_frame ?s1 ?s'" by (auto intro: bio_frameI)
  moreover have "bio_frame s ?s1" using bio_frame_wakeup bio_frame_upd_buf bio_frame_trans by blast
  ultimately have fr: "bio_frame s ?s'" using bio_frame_trans by blast
  have lru: "set (lru ?s') = set (lru s)" "distinct (lru ?s')" using inv b
    by (auto simp: bio_inv_def distinct_removeAll)
  have i': "bio_inv ?s'"
    by (rule bio_inv_update [OF inv b bufs lru])
      (use inv clean c bio_inv_uniq [OF inv b] in \<open>auto simp: bio_inv_def cached_def\<close>)
  have "view ?s' m = view s m" for m
    by (rule view_cong) (auto simp: cached_def)
  then have v: "view ?s' = view s" by blast
  show thesis by (rule that [OF ok fr bufs i' _ _ _ _ v]) simp_all
qed

section \<open>The operations return\<close>

text \<open>
  A cache that can serve the running process: the disk is there and some buffer is unused and clean.
  A block can be had at once when no one holds its buffer.
\<close>

definition bio_ready :: "'a bio_scheme \<Rightarrow> bool" where
  "bio_ready s \<longleftrightarrow> bio_inv s \<and> havedisk1 s \<and> curproc s \<noteq> None \<and>
     (\<exists>b < NBUF. b_refcnt (bufs s b) = 0 \<and> \<not> bit (b_flags (bufs s b)) 2)"

definition available :: "u32 \<Rightarrow> 'a bio_scheme \<Rightarrow> bool" where
  "available n s \<longleftrightarrow> bio_ready s \<and> n < FSSIZE \<and> (\<forall>b < NBUF. b_dev (bufs s b) = ROOTDEV \<and> b_blockno (bufs s b) = n
     \<longrightarrow> \<not> sl_locked (b_lock (bufs s b)))"

lemma lock_buf_ok: "curproc s \<noteq> None \<Longrightarrow> \<not> sl_locked (b_lock (bufs s b)) \<Longrightarrow> \<exists>s'. lock_buf b s = Ok (b, s')"
  by (auto simp: lock_buf_def acquiresleep_def myproc_def)

lemma bget_ok:
  assumes "available n s"
  shows "\<exists>b s1. bget ROOTDEV n s = Ok (b, s1)"
proof (cases "List.find (\<lambda>b. b_dev (bufs s b) = ROOTDEV \<and> b_blockno (bufs s b) = n) (lru s)")
  case (Some c)
  have "c < NBUF" "b_dev (bufs s c) = ROOTDEV" "b_blockno (bufs s c) = n"
    using find_SomeD [OF Some] assms by (auto simp: available_def bio_ready_def bio_inv_def)
  then have "\<not> sl_locked (b_lock (bufs s c))" using assms by (simp add: available_def)
  with Some show ?thesis
    using lock_buf_ok [of "upd_buf c (\<lambda>bf. bf\<lparr>b_refcnt := b_refcnt bf + 1\<rparr>) s" c] assms
    by (auto simp: bget_def available_def bio_ready_def)
next
  case None
  let ?P = "\<lambda>b. b_refcnt (bufs s b) = 0 \<and> \<not> has (b_flags (bufs s b)) B_DIRTY"
  have "List.find ?P (rev (lru s)) \<noteq> None"
    using assms by (auto simp: available_def bio_ready_def bio_inv_def find_None_iff)
  then obtain c where c: "List.find ?P (rev (lru s)) = Some c" by blast
  then have "c < NBUF" "b_refcnt (bufs s c) = 0"
    using find_SomeD [OF c] assms by (auto simp: available_def bio_ready_def bio_inv_def)
  then have "\<not> sl_locked (b_lock (bufs s c))"
    using assms by (auto simp: available_def bio_ready_def bio_inv_def)
  then show ?thesis using None c
      lock_buf_ok [of "upd_buf c (\<lambda>bf. bf\<lparr>b_dev := ROOTDEV, b_blockno := n, b_flags := 0, b_refcnt := 1\<rparr>) s" c] assms
    by (auto simp: bget_def available_def bio_ready_def)
qed

lemma ideintr_ok: "idequeue s = [b] \<Longrightarrow> \<exists>s'. ideintr s = Ok s'"
  by (simp add: ideintr_def Let_def)

lemma idestart_ok: "b_blockno (bufs s b) < FSSIZE \<Longrightarrow> \<exists>s'. idestart b s = Ok s'"
  by (auto simp: idestart_def Let_def not_le)

lemma iderw_ok:
  assumes lk: "my_lock s (b_lock (bufs s b))" and q: "idequeue s = []" and d: "havedisk1 s"
    and n: "b_blockno (bufs s b) < FSSIZE"
    and f: "\<not> (bit (b_flags (bufs s b)) (Suc 0) \<and> \<not> bit (b_flags (bufs s b)) 2)"
  shows "\<exists>s'. iderw b s = Ok s'"
proof -
  let ?s1 = "s\<lparr>idequeue := [b]\<rparr>"
  obtain s2 where s2: "idestart b ?s1 = Ok s2" using n idestart_ok [of ?s1 b] by auto
  then have q2: "idequeue s2 = [b]" and b2: "bufs s2 = bufs s"
    by (auto simp: idestart_def Let_def split: if_splits)
  obtain s3 where s3: "ideintr s2 = Ok s3" using ideintr_ok [OF q2] by blast
  note i = ideintr_single [OF q2 s3]
  have "b_flags (bufs s3 b) AND (B_VALID OR B_DIRTY) = B_VALID"
    using i(1) by (simp add: synced_def Let_def flags_done_iff)
  then have "ide_wait (Suc (length (idequeue s2))) b s2 = Ok s3"
    using s3 b2 f q2 by (auto simp: flags_done_iff)
  then show ?thesis using s2 my_lock_holding [OF lk] f q d
    by (simp add: iderw_def flags_done_iff)
qed

lemma bread_ok:
  assumes a: "available n s"
  shows "\<exists>b s'. bread ROOTDEV n s = Ok (b, s')"
proof -
  have inv: "bio_inv s" using a by (simp add: available_def bio_ready_def)
  from bget_ok [OF a] obtain b s1 where g: "bget ROOTDEV n s = Ok (b, s1)" by blast
  from bget_spec [OF inv g] obtain bf where s1: "bio_frame s s1" "bufs s1 = (bufs s)(b := bf)" "idequeue s1 = []"
    and bf: "my_lock s1 (b_lock bf)" "b_blockno bf = n" .
  show ?thesis
  proof (cases "bit (b_flags bf) (Suc 0)")
    case False
    then have "\<exists>s'. iderw b s1 = Ok s'"
      using s1 bf a by (intro iderw_ok) (auto simp: bio_frame_def available_def bio_ready_def)
    with g s1 False show ?thesis by (auto simp: bread_def)
  qed (use g s1 in \<open>simp add: bread_def\<close>)
qed

lemma bwrite_ok:
  assumes c: "cached s n b" and lk: "my_lock s (b_lock (bufs s b))" and inv: "bio_inv s"
    and n: "n < FSSIZE" and d: "havedisk1 s"
  shows "\<exists>s'. bwrite b s = Ok s'"
proof -
  have "\<exists>s'. iderw b (upd_buf b (\<lambda>bf. bf\<lparr>b_flags := b_flags bf OR B_DIRTY\<rparr>) s) = Ok s'"
    using assms by (intro iderw_ok) (auto simp: bio_inv_def cached_def)
  then show ?thesis using my_lock_holding [OF lk] by (simp add: bwrite_def)
qed

section \<open>One block read, one block written\<close>

lemma set_data:
  assumes inv: "bio_inv s" and c: "cached s n b" and lk: "my_lock s (b_lock (bufs s b))"
    and t: "t = upd_buf b (\<lambda>bf. bf\<lparr>b_data := g bf\<rparr>) s"
  shows "bio_inv t" "cached t n b" "my_lock t (b_lock (bufs t b))" "view t = (view s)(n := g (bufs s b))"
proof -
  have b: "b < NBUF" using c by (simp add: cached_def)
  have bufs: "bufs t = (bufs s)(b := (bufs s b)\<lparr>b_data := g (bufs s b)\<rparr>)" using t by simp
  show i: "bio_inv t"
    by (rule bio_inv_update [OF inv b bufs])
      (use inv t c b lk bio_inv_uniq [OF inv b] in \<open>auto simp: bio_inv_def cached_def my_lock_def\<close>)
  show c': "cached t n b" and "my_lock t (b_lock (bufs t b))" using c t lk by (simp_all add: cached_def)
  have "view t m = ((view s)(n := g (bufs s b))) m" for m
  proof (cases "m = n")
    case True then show ?thesis using view_cached [OF i c'] bufs by simp
  next
    case False
    then show ?thesis using view_update_other [OF inv bufs, of m] t c by (simp add: cached_def)
  qed
  then show "view t = (view s)(n := g (bufs s b))" by blast
qed

lemma available_kept:
  assumes "available m s" "bio_inv t" "bio_frame s t" "bufs t = (bufs s)(b := bf)" "\<not> sl_locked (b_lock bf)"
    "b_refcnt bf = b_refcnt (bufs s b)" "bit (b_flags bf) 2 \<Longrightarrow> bit (b_flags (bufs s b)) 2"
  shows "available m t"
proof -
  from assms(1) obtain c where "c < NBUF" "b_refcnt (bufs s c) = 0" "\<not> bit (b_flags (bufs s c)) 2"
    by (auto simp: available_def bio_ready_def)
  then have "\<exists>c < NBUF. b_refcnt (bufs t c) = 0 \<and> \<not> bit (b_flags (bufs t c)) 2"
    using assms(4,6,7) by (intro exI [of _ c]) auto
  then have "bio_ready t" using assms(1-3)
    by (simp add: available_def bio_ready_def bio_frame_def same_procs_def)
  with assms(1,4,5) show ?thesis by (auto simp: available_def)
qed

lemma swap_write_block_spec:
  assumes a: "available (blockno + of_nat i) s"
  shows "\<exists>s'. swap_write_block blockno src i s = Ok s' \<and> bio_frame s s' \<and> (\<forall>m. available m s \<longrightarrow> available m s') \<and>
    view s' = (view s)(blockno + of_nat i := blit (view s (blockno + of_nat i)) 0 src (i * BSIZE) BSIZE)"
proof -
  let ?n = "blockno + of_nat i"
  have inv: "bio_inv s" using a by (simp add: available_def bio_ready_def)
  obtain b s1 where r: "bread ROOTDEV ?n s = Ok (b, s1)" using bread_ok [OF a] by blast
  from bread_spec [OF inv r] obtain bf where b: "b < NBUF" and f1: "bio_frame s s1" "bufs s1 = (bufs s)(b := bf)"
    and l1: "\<not> sl_locked (b_lock (bufs s b))" "my_lock s1 (b_lock bf)"
    and bf: "b_refcnt bf = Suc (b_refcnt (bufs s b))" "b_data bf = view s ?n"
    and c1: "cached s1 ?n b" and i1: "bio_inv s1" and v1: "view s1 = view s" .
  define s2 where "s2 = upd_buf b (\<lambda>bf. bf\<lparr>b_data := blit (b_data bf) 0 src (i * BSIZE) BSIZE\<rparr>) s1"
  have l1': "my_lock s1 (b_lock (bufs s1 b))" using l1 f1 by simp
  note d = set_data [OF i1 c1 l1' s2_def]
  have "havedisk1 s2" using f1 a by (simp add: s2_def bio_frame_def available_def bio_ready_def)
  with bwrite_ok [OF d(2,3,1)] a obtain s3 where w: "bwrite b s2 = Ok s3" by (auto simp: available_def)
  from bwrite_spec [OF d(1,2) w d(3)] obtain bf3 where f3: "bio_frame s2 s3" "bufs s3 = (bufs s2)(b := bf3)"
    and i3: "bio_inv s3" "cached s3 ?n b" and b3: "b_lock bf3 = b_lock (bufs s2 b)" "b_refcnt bf3 = b_refcnt (bufs s2 b)"
    "b_data bf3 = b_data (bufs s2 b)" "\<not> bit (b_flags bf3) 2" and v3: "view s3 = view s2"
    and k3: "disk s3 ROOTDEV = (disk s2 ROOTDEV)(?n := b_data (bufs s2 b))" .
  have l3: "my_lock s3 (b_lock (bufs s3 b))" using my_lock_frame [OF f3(1) d(3)] b3 f3 by simp
  have cl: "b_data (bufs s3 b) = disk s3 ROOTDEV ?n" using f3 b3 k3 by simp
  from brelse_spec [OF i3 l3 cl] obtain s4 bf4 where e: "brelse b s3 = Ok s4" and f4: "bio_frame s3 s4"
    "bufs s4 = (bufs s3)(b := bf4)" and i4: "bio_inv s4" and b4: "\<not> sl_locked (b_lock bf4)"
    "b_refcnt bf4 = b_refcnt (bufs s3 b) - 1" "b_flags bf4 = b_flags (bufs s3 b)" and v4: "view s4 = view s3" .
  have fr: "bio_frame s s4"
    using f1(1) bio_frame_upd_buf f3(1) f4(1) unfolding s2_def by (blast intro: bio_frame_trans)
  have bufs4: "bufs s4 = (bufs s)(b := bf4)" using f4 f3 f1 by (simp add: s2_def)
  have "available m s4" if "available m s" for m
    by (rule available_kept [OF that i4 fr bufs4]) (use b4 f3 b3 bf f1 in \<open>simp_all add: s2_def\<close>)
  moreover have "view s4 = (view s)(?n := blit (view s ?n) 0 src (i * BSIZE) BSIZE)"
    using v4 v3 d(4) v1 bf f1 by simp
  moreover have "swap_write_block blockno src i s = Ok s4"
    using r w e by (simp add: swap_write_block_def s2_def)
  ultimately show ?thesis using fr by blast
qed

lemma swap_read_block_spec:
  assumes a: "available (blockno + of_nat i) s"
  shows "\<exists>s'. swap_read_block blockno i (dst, s) = Ok (blit dst (i * BSIZE) (view s (blockno + of_nat i)) 0 BSIZE, s') \<and>
    bio_frame s s' \<and> (\<forall>m. available m s \<longrightarrow> available m s') \<and> view s' = view s"
proof -
  let ?n = "blockno + of_nat i"
  have inv: "bio_inv s" using a by (simp add: available_def bio_ready_def)
  obtain b s1 where r: "bread ROOTDEV ?n s = Ok (b, s1)" using bread_ok [OF a] by blast
  from bread_spec [OF inv r] obtain bf where b: "b < NBUF" and f1: "bio_frame s s1" "bufs s1 = (bufs s)(b := bf)"
    "disk s1 = disk s"
    and l1: "\<not> sl_locked (b_lock (bufs s b))" "my_lock s1 (b_lock bf)"
    and bf: "b_refcnt bf = Suc (b_refcnt (bufs s b))" "bit (b_flags bf) 2 = bit (b_flags (bufs s b)) 2"
    "b_data bf = view s ?n" "\<not> bit (b_flags bf) 2 \<longrightarrow> b_data bf = disk s ROOTDEV ?n"
    and c1: "cached s1 ?n b" and i1: "bio_inv s1" and v1: "view s1 = view s" .
  have cl: "b_data (bufs s1 b) = disk s1 ROOTDEV ?n" if "\<not> bit (b_flags (bufs s1 b)) 2"
    using that bf f1 by simp
  have l1': "my_lock s1 (b_lock (bufs s1 b))" using l1 f1 by simp
  from brelse_spec [OF i1 c1 l1' cl] obtain s4 bf4 where e: "brelse b s1 = Ok s4" and f4: "bio_frame s1 s4"
    "bufs s4 = (bufs s1)(b := bf4)" and i4: "bio_inv s4" and b4: "\<not> sl_locked (b_lock bf4)"
    "b_refcnt bf4 = b_refcnt (bufs s1 b) - 1" "b_flags bf4 = b_flags (bufs s1 b)" and v4: "view s4 = view s1" .
  have fr: "bio_frame s s4" using f1(1) f4(1) by (rule bio_frame_trans)
  have bufs4: "bufs s4 = (bufs s)(b := bf4)" using f4 f1 by simp
  have "available m s4" if "available m s" for m
    by (rule available_kept [OF that i4 fr bufs4]) (use b4 bf f1 in simp_all)
  moreover have "swap_read_block blockno i (dst, s) = Ok (blit dst (i * BSIZE) (view s ?n) 0 BSIZE, s4)"
    using r e f1 bf by (simp add: swap_read_block_def Let_def)
  ultimately show ?thesis using fr v4 v1 by auto
qed

section \<open>Pages on the disk\<close>

text \<open>
  What the swap code relies on: blocks that can be read and written one at a time, where a write
  replaces the block's content, a read returns it, and neither disturbs any other block nor makes a
  block unavailable. \<open>frame\<close> relates states that agree on everything outside the store.
\<close>

locale block_store =
  fixes rd :: "u32 \<Rightarrow> nat \<Rightarrow> bytes \<times> 's \<Rightarrow> (bytes \<times> 's) res"
    and wr :: "u32 \<Rightarrow> bytes \<Rightarrow> nat \<Rightarrow> 's \<Rightarrow> 's res"
    and avail :: "u32 \<Rightarrow> 's \<Rightarrow> bool"
    and sees :: "'s \<Rightarrow> u32 \<Rightarrow> bytes"
    and frame :: "'s \<Rightarrow> 's \<Rightarrow> bool"
  assumes frame_refl: "frame s s"
    and frame_trans: "frame s t \<Longrightarrow> frame t u \<Longrightarrow> frame s u"
    and wr_law: "avail (n + of_nat i) s \<Longrightarrow> \<exists>s'. wr n src i s = Ok s' \<and> frame s s' \<and>
      (\<forall>m. avail m s \<longrightarrow> avail m s') \<and>
      sees s' = (sees s)(n + of_nat i := blit (sees s (n + of_nat i)) 0 src (i * BSIZE) BSIZE)"
    and rd_law: "avail (n + of_nat i) s \<Longrightarrow> \<exists>s'.
      rd n i (dst, s) = Ok (blit dst (i * BSIZE) (sees s (n + of_nat i)) 0 BSIZE, s') \<and> frame s s' \<and>
      (\<forall>m. avail m s \<longrightarrow> avail m s') \<and> sees s' = sees s"
begin

text \<open>The blocks \<open>n, n+1, ..\<close> hold the first \<open>k\<close> blocks of a page.\<close>

definition holds :: "'s \<Rightarrow> u32 \<Rightarrow> nat \<Rightarrow> bytes \<Rightarrow> bool" where
  "holds s n k src \<longleftrightarrow> (\<forall>i < k. \<forall>j < BSIZE. sees s (n + of_nat i) j = src (i * BSIZE + j))"

lemma write_loop:
  assumes "k \<le> 8" and "\<forall>i < k. avail (n + of_nat i) s"
  shows "\<exists>s'. foldR (wr n src) [0..<k] s = Ok s' \<and> frame s s' \<and> (\<forall>m. avail m s \<longrightarrow> avail m s') \<and>
    holds s' n k src \<and> (\<forall>m. (\<forall>i < k. m \<noteq> n + of_nat i) \<longrightarrow> sees s' m = sees s m)"
  using assms
proof (induction k)
  case 0
  show ?case by (simp add: holds_def frame_refl)
next
  case (Suc k)
  then obtain s1 where s1: "foldR (wr n src) [0..<k] s = Ok s1" "frame s s1" "\<forall>m. avail m s \<longrightarrow> avail m s1"
    "holds s1 n k src" "\<forall>m. (\<forall>i < k. m \<noteq> n + of_nat i) \<longrightarrow> sees s1 m = sees s m" by auto
  from Suc.prems s1 have "avail (n + of_nat k) s1" by simp
  from wr_law [OF this, of src] obtain s2 where s2: "wr n src k s1 = Ok s2" "frame s1 s2"
    "\<forall>m. avail m s1 \<longrightarrow> avail m s2"
    "sees s2 = (sees s1)(n + of_nat k := blit (sees s1 (n + of_nat k)) 0 src (k * BSIZE) BSIZE)" by blast
  have ne: "(of_nat i :: u32) \<noteq> of_nat k" if "i < k" for i
    using that Suc.prems(1) by (simp add: of_nat_eq_iff word_of_nat_eq_iff take_bit_nat_eq_self)
  have "holds s2 n (Suc k) src"
    using s1(4) ne by (auto simp: holds_def s2 less_Suc_eq byte_simps)
  moreover have "\<forall>m. (\<forall>i < Suc k. m \<noteq> n + of_nat i) \<longrightarrow> sees s2 m = sees s m"
    using s1(5) by (simp add: s2 less_Suc_eq)
  moreover have "foldR (wr n src) [0..<Suc k] s = Ok s2"
    using s1(1) s2(1) by (simp add: foldR_append)
  ultimately show ?case using s1(2,3) s2(2,3) frame_trans by blast
qed

lemma read_loop:
  assumes "k \<le> 8" and "\<forall>i < k. avail (n + of_nat i) s"
  shows "\<exists>dst' s'. foldR (rd n) [0..<k] (dst, s) = Ok (dst', s') \<and> frame s s' \<and> (\<forall>m. avail m s \<longrightarrow> avail m s') \<and>
    sees s' = sees s \<and> holds s n k dst' \<and> (\<forall>j \<ge> k * BSIZE. dst' j = dst j)"
  using assms
proof (induction k)
  case 0
  show ?case by (simp add: holds_def frame_refl)
next
  case (Suc k)
  then obtain d1 s1 where s1: "foldR (rd n) [0..<k] (dst, s) = Ok (d1, s1)" "frame s s1"
    "\<forall>m. avail m s \<longrightarrow> avail m s1" "sees s1 = sees s" "holds s n k d1" "\<forall>j \<ge> k * BSIZE. d1 j = dst j" by auto
  from Suc.prems s1 have "avail (n + of_nat k) s1" by simp
  from rd_law [OF this, of d1] obtain s2 where s2:
    "rd n k (d1, s1) = Ok (blit d1 (k * BSIZE) (sees s (n + of_nat k)) 0 BSIZE, s2)" "frame s1 s2"
    "\<forall>m. avail m s1 \<longrightarrow> avail m s2" "sees s2 = sees s" using s1(4) by auto
  let ?d = "blit d1 (k * BSIZE) (sees s (n + of_nat k)) 0 BSIZE"
  have "holds s n (Suc k) ?d" unfolding holds_def
  proof (intro allI impI)
    fix i j assume i: "i < Suc k" and j: "j < BSIZE"
    show "sees s (n + of_nat i) j = ?d (i * BSIZE + j)"
    proof (cases "i = k")
      case True then show ?thesis using j by (simp add: byte_simps)
    next
      case False
      then have "i * BSIZE + j < k * BSIZE" using i j by simp
      then show ?thesis using s1(5) i j False by (simp add: holds_def byte_simps)
    qed
  qed
  moreover have "\<forall>j \<ge> Suc k * BSIZE. ?d j = dst j" using s1(6) by (simp add: byte_simps)
  moreover have "foldR (rd n) [0..<Suc k] (dst, s) = Ok (?d, s2)"
    using s1(1) s2(1) by (simp add: foldR_append)
  ultimately show ?case using s1(2,3) s2(2-4) frame_trans by blast
qed

text \<open>A page that was written is what a later read of the same blocks returns.\<close>

lemma page_round_trip:
  assumes h: "holds s n 8 src" and a: "\<forall>i < 8. avail (n + of_nat i) s"
  shows "\<exists>dst' s'. foldR (rd n) [0..<8] (dst, s) = Ok (dst', s') \<and> frame s s' \<and> (\<forall>m. avail m s \<longrightarrow> avail m s') \<and>
    sees s' = sees s \<and> (\<forall>j < 8 * BSIZE. dst' j = src j) \<and> (\<forall>j \<ge> 8 * BSIZE. dst' j = dst j)"
proof -
  from read_loop [OF order_refl a, of dst] obtain d s' where s':
    "foldR (rd n) [0..<8] (dst, s) = Ok (d, s')" "frame s s'" "\<forall>m. avail m s \<longrightarrow> avail m s'"
    "sees s' = sees s" "holds s n 8 d" "\<forall>j \<ge> 8 * BSIZE. d j = dst j" by blast
  have "d j = src j" if "j < 8 * BSIZE" for j
  proof -
    have "j div BSIZE < 8" "j mod BSIZE < BSIZE" using that by auto
    with h s'(5) have "d (j div BSIZE * BSIZE + j mod BSIZE) = src (j div BSIZE * BSIZE + j mod BSIZE)"
      unfolding holds_def by metis
    then show ?thesis by (simp only: div_mult_mod_eq)
  qed
  with s' show ?thesis by auto
qed

end

interpretation swapdev: block_store swap_read_block swap_write_block available view bio_frame
  by unfold_locales
    (simp, blast intro: bio_frame_trans, rule swap_write_block_spec, assumption,
     rule swap_read_block_spec, assumption)

section \<open>Nothing of the buffer cache touches the rest of the kernel\<close>

lemma idestart_more: "idestart b s = Ok s' \<Longrightarrow> bio.more s' = bio.more s"
  by (auto simp: idestart_def Let_def split: if_splits)

lemma ideintr_more: "ideintr s = Ok s' \<Longrightarrow> bio.more s' = bio.more s"
  by (auto simp: ideintr_def Let_def dest!: idestart_more split: list.splits if_splits)

lemma ide_wait_more: "ide_wait n b s = Ok s' \<Longrightarrow> bio.more s' = bio.more s"
  by (induction n arbitrary: s) (auto simp: bindR_Ok_iff ideintr_more split: if_splits)

lemma iderw_more: "iderw b s = Ok s' \<Longrightarrow> bio.more s' = bio.more s"
  by (auto simp: iderw_def bindR_Ok_iff Let_def dest!: idestart_more ide_wait_more
      simp del: ide_wait.simps split: if_splits)

lemma lock_buf_more: "lock_buf b s = Ok (c, s') \<Longrightarrow> bio.more s' = bio.more s"
  by (auto simp: lock_buf_def bindR_Ok_iff)

lemma bget_more: "bget dev n s = Ok (c, s') \<Longrightarrow> bio.more s' = bio.more s"
  by (auto simp: bget_def dest: lock_buf_more split: option.splits)

lemma bread_more: "bread dev n s = Ok (c, s') \<Longrightarrow> bio.more s' = bio.more s"
  by (auto simp: bread_def bindR_Ok_iff dest!: bget_more iderw_more split: if_splits)

lemma bwrite_more: "bwrite b s = Ok s' \<Longrightarrow> bio.more s' = bio.more s"
  by (auto simp: bwrite_def bindR_Ok_iff dest!: iderw_more split: if_splits)

lemma brelse_more: "brelse b s = Ok s' \<Longrightarrow> bio.more s' = bio.more s"
  by (auto simp: brelse_def releasesleep_def bindR_Ok_iff Let_def split: if_splits)

lemma write_page_more: "write_page_to_swap n src s = Ok s' \<Longrightarrow> bio.more s' = bio.more s"
  unfolding write_page_to_swap_def
  by (erule foldR_invariant) (auto simp: swap_write_block_def bindR_Ok_iff
      dest!: bread_more bwrite_more brelse_more)

lemma read_page_more: "read_page_from_swap n dst s = Ok (dst', s') \<Longrightarrow> bio.more s' = bio.more s"
proof -
  assume "read_page_from_swap n dst s = Ok (dst', s')"
  then have "bio.more (snd (dst', s')) = bio.more s"
    unfolding read_page_from_swap_def
    by (rule foldR_invariant [where P = "\<lambda>(d, t). bio.more t = bio.more s", simplified case_prod_beta])
      (auto simp: swap_read_block_def bindR_Ok_iff Let_def split: prod.splits dest!: bread_more brelse_more)
  then show ?thesis by simp
qed

section \<open>Properties\<close>

text \<open>A quiet machine: a process is running, the disk is there, no buffer is in use.\<close>

definition quiet_ext :: "(nat \<Rightarrow> proc) \<Rightarrow> (u32 \<Rightarrow> u32 \<Rightarrow> bytes) \<Rightarrow> 'a \<Rightarrow> 'a bio_scheme" where
  "quiet_ext tab d rest = \<lparr>ptable = tab, nextpid = 2, initproc = Some 0, curproc = Some 0,
     bufs = (\<lambda>b. \<lparr>b_flags = 0, b_dev = 0, b_blockno = 0, b_lock = initsleeplock, b_refcnt = 0, b_data = (\<lambda>_. 0)\<rparr>),
     lru = rev [0..<NBUF], idequeue = [], havedisk1 = True, ide_err = False, disk = d, \<dots> = rest\<rparr>"

abbreviation quiet_bio :: "(nat \<Rightarrow> proc) \<Rightarrow> (u32 \<Rightarrow> u32 \<Rightarrow> bytes) \<Rightarrow> bio" where
  "quiet_bio tab d \<equiv> quiet_ext tab d ()"

lemma quiet_available: "n < FSSIZE \<Longrightarrow> available n (quiet_ext tab d rest)"
proof -
  assume "n < FSSIZE"
  moreover have "set (rev [0..<NBUF]) = {..<NBUF}" by auto
  ultimately show ?thesis
    by (auto simp: available_def bio_ready_def bio_inv_def quiet_ext_def initsleeplock_def intro: exI [of _ 0])
qed

text \<open>
  C9. A page that write_page_to_swap puts on eight free blocks is what read_page_from_swap returns for
  them: both calls return, the 4096 bytes come back, nothing past the destination page changes, and no
  other block is seen differently by any reader.
\<close>

theorem swap_page_round_trip:
  assumes a: "\<forall>i < 8. available (n + of_nat i) s"
  shows "\<exists>s1 dst' s2. write_page_to_swap n src s = Ok s1 \<and> read_page_from_swap n dst s1 = Ok (dst', s2) \<and>
    (\<forall>j < 4096. dst' j = src j) \<and> (\<forall>j \<ge> 4096. dst' j = dst j) \<and>
    (\<forall>m. (\<forall>i < 8. m \<noteq> n + of_nat i) \<longrightarrow> view s2 m = view s m) \<and> bio_frame s s2"
proof -
  from swapdev.write_loop [OF order_refl a, of src] obtain s1 where s1:
    "write_page_to_swap n src s = Ok s1" "bio_frame s s1" "\<forall>m. available m s \<longrightarrow> available m s1"
    "swapdev.holds s1 n 8 src" "\<forall>m. (\<forall>i < 8. m \<noteq> n + of_nat i) \<longrightarrow> view s1 m = view s m"
    by (auto simp: write_page_to_swap_def)
  from swapdev.page_round_trip [OF s1(4), of dst] a s1(3) obtain dst' s2 where s2:
    "read_page_from_swap n dst s1 = Ok (dst', s2)" "bio_frame s1 s2" "view s2 = view s1"
    "\<forall>j < 8 * BSIZE. dst' j = src j" "\<forall>j \<ge> 8 * BSIZE. dst' j = dst j"
    by (auto simp: read_page_from_swap_def)
  have "bio_frame s s2" using s1(2) s2(2) by (rule bio_frame_trans)
  with s1 s2 show ?thesis by simp
qed

theorem swap_page_round_trip_witness:
  "\<exists>s1 dst' s2. write_page_to_swap 2 (\<lambda>j. of_nat j) (quiet_bio (\<lambda>_. zero_proc) (\<lambda>_ _ _. 0)) = Ok s1 \<and>
    read_page_from_swap 2 (\<lambda>_. 0) s1 = Ok (dst', s2) \<and> dst' 77 = 77"
proof -
  have a: "available (2 + of_nat i) (quiet_bio (\<lambda>_. zero_proc) (\<lambda>_ _ _. 0))" if "i < 8" for i
  proof (rule quiet_available)
    have "unat (of_nat i :: u32) < 8" using that by (simp add: unat_of_nat)
    then show "(2 + of_nat i :: u32) < FSSIZE" by (simp add: word_less_nat_alt unat_word_ariths)
  qed
  then have "\<forall>i < 8. available (2 + of_nat i) (quiet_bio (\<lambda>_. zero_proc) (\<lambda>_ _ _. 0))" by blast
  from swap_page_round_trip [OF this, of "\<lambda>j. of_nat j" "\<lambda>_. 0"] show ?thesis
    by (elim exE conjE) (intro exI conjI, assumption, assumption, simp)
qed

end
