(* ===== verification/Seg.thy ===== *)
theory Seg
  imports Machine
begin

text \<open>
  Segment and gate descriptors (mmu.h): the bit fields of \<open>struct segdesc\<close> and \<open>struct gatedesc\<close> with the
  macros SEG, SEG16 and SETGATE that fill them in, and the base, limit and offset the processor reads
  back from the fields.
\<close>

unbundle bit_operations_syntax

section \<open>Descriptors\<close>

record segdesc =
  lim_15_0 :: u16
  base_15_0 :: u16
  base_23_16 :: u8
  sd_type :: u32
  sd_s :: u32
  sd_dpl :: u32
  sd_p :: u32
  lim_19_16 :: u32
  sd_avl :: u32
  sd_rsv1 :: u32
  sd_db :: u32
  sd_g :: u32
  base_31_24 :: u8

definition SEG :: "u32 \<Rightarrow> u32 \<Rightarrow> u32 \<Rightarrow> u32 \<Rightarrow> segdesc" where
  "SEG ty base lim dpl =
     \<lparr>lim_15_0 = ucast (drop_bit 12 lim AND 0xffff), base_15_0 = ucast (base AND 0xffff),
      base_23_16 = ucast (drop_bit 16 base AND 0xff), sd_type = ty, sd_s = 1, sd_dpl = dpl, sd_p = 1,
      lim_19_16 = drop_bit 28 lim, sd_avl = 0, sd_rsv1 = 0, sd_db = 1, sd_g = 1,
      base_31_24 = ucast (drop_bit 24 base)\<rparr>"

definition SEG16 :: "u32 \<Rightarrow> u32 \<Rightarrow> u32 \<Rightarrow> u32 \<Rightarrow> segdesc" where
  "SEG16 ty base lim dpl =
     \<lparr>lim_15_0 = ucast (lim AND 0xffff), base_15_0 = ucast (base AND 0xffff),
      base_23_16 = ucast (drop_bit 16 base AND 0xff), sd_type = ty, sd_s = 1, sd_dpl = dpl, sd_p = 1,
      lim_19_16 = drop_bit 16 lim AND 0xF, sd_avl = 0, sd_rsv1 = 0, sd_db = 1, sd_g = 0,
      base_31_24 = ucast (drop_bit 24 base)\<rparr>"

abbreviation (input) SEG_KCODE :: nat where "SEG_KCODE \<equiv> 1"
abbreviation (input) SEG_KDATA :: nat where "SEG_KDATA \<equiv> 2"
abbreviation (input) SEG_UCODE :: nat where "SEG_UCODE \<equiv> 3"
abbreviation (input) SEG_UDATA :: nat where "SEG_UDATA \<equiv> 4"
abbreviation (input) SEG_TSS :: nat where "SEG_TSS \<equiv> 5"
abbreviation (input) DPL_USER :: u32 where "DPL_USER \<equiv> 3"
abbreviation (input) STA_X :: u32 where "STA_X \<equiv> 0x8"
abbreviation (input) STA_W :: u32 where "STA_W \<equiv> 0x2"
abbreviation (input) STA_R :: u32 where "STA_R \<equiv> 0x2"
abbreviation (input) STS_T32A :: u32 where "STS_T32A \<equiv> 0x9"
abbreviation (input) STS_IG32 :: u32 where "STS_IG32 \<equiv> 0xE"
abbreviation (input) STS_TG32 :: u32 where "STS_TG32 \<equiv> 0xF"
abbreviation (input) FL_IF :: u32 where "FL_IF \<equiv> 0x200"

record gatedesc =
  off_15_0 :: u16
  gd_cs :: u16
  gd_args :: u32
  gd_rsv1 :: u32
  gd_type :: u32
  gd_s :: u32
  gd_dpl :: u32
  gd_p :: u32
  off_31_16 :: u16

definition SETGATE :: "bool \<Rightarrow> u16 \<Rightarrow> u32 \<Rightarrow> u32 \<Rightarrow> gatedesc" where
  "SETGATE istrap sel off d =
     \<lparr>off_15_0 = ucast (off AND 0xffff), gd_cs = sel, gd_args = 0, gd_rsv1 = 0,
      gd_type = (if istrap then STS_TG32 else STS_IG32), gd_s = 0, gd_dpl = d, gd_p = 1,
      off_31_16 = ucast (drop_bit 16 off)\<rparr>"

section \<open>What the processor reads back\<close>

definition seg_base :: "segdesc \<Rightarrow> u32" where
  "seg_base d = push_bit 24 (ucast (base_31_24 d)) OR push_bit 16 (ucast (base_23_16 d)) OR ucast (base_15_0 d)"

definition seg_limit :: "segdesc \<Rightarrow> u32" where
  "seg_limit d = (let l = push_bit 16 (lim_19_16 d) OR ucast (lim_15_0 d)
     in if sd_g d = 1 then push_bit 12 l OR 0xFFF else l)"

definition gate_offset :: "gatedesc \<Rightarrow> u32" where
  "gate_offset g = push_bit 16 (ucast (off_31_16 g)) OR ucast (off_15_0 g)"

lemma mask8: "(0xff :: u32) = mask 8"
  by (simp add: mask_eq_exp_minus_1)

lemma mask16: "(0xffff :: u32) = mask 16"
  by (simp add: mask_eq_exp_minus_1)

lemma seg_base_split:
  fixes b :: u32
  shows "push_bit 24 (ucast (ucast (drop_bit 24 b) :: u8)) OR push_bit 16 (ucast (ucast (drop_bit 16 b AND 0xff) :: u8))
     OR ucast (ucast (b AND 0xffff) :: u16) = b"
proof (rule bit_word_eqI)
  fix n assume n: "n < LENGTH(32)"
  consider "n < 16" | k where "n = 16 + k" "k < 8" | k where "n = 24 + k" "k < 8"
  proof (cases "n < 16"; cases "n < 24")
    assume "\<not> n < 16" "n < 24"
    then show ?thesis using that(2) [of "n - 16"] by simp
  next
    assume "\<not> n < 16" "\<not> n < 24"
    then show ?thesis using that(3) [of "n - 24"] n by simp
  qed (use that(1) in simp_all)
  then show "bit (push_bit 24 (ucast (ucast (drop_bit 24 b) :: u8) :: u32) OR
      push_bit 16 (ucast (ucast (drop_bit 16 b AND 0xff) :: u8)) OR ucast (ucast (b AND 0xffff) :: u16)) n \<longleftrightarrow> bit b n"
    by cases (auto simp: mask8 mask16 bit_simps)
qed

lemma seg_base_SEG [simp]: "seg_base (SEG ty b l d) = b" "seg_base (SEG16 ty b l d) = b"
  by (simp_all add: seg_base_def SEG_def SEG16_def seg_base_split)

lemma gate_offset_SETGATE [simp]: "gate_offset (SETGATE t sel off d) = off"
proof (rule bit_word_eqI)
  fix n assume n: "n < LENGTH(32)"
  show "bit (gate_offset (SETGATE t sel off d)) n \<longleftrightarrow> bit off n"
  proof (cases "n < 16")
    case True
    then show ?thesis by (auto simp: gate_offset_def SETGATE_def mask16 bit_simps)
  next
    case False
    then obtain k where "n = 16 + k" by (metis le_add_diff_inverse not_less)
    then show ?thesis using n by (auto simp: gate_offset_def SETGATE_def mask16 bit_simps)
  qed
qed

end
