(* ===== verification/Kmem.thy ===== *)
theory Kmem
  imports Bio Seg
begin

text \<open>
  Physical memory: the page allocator of kalloc.c with its reference counts, the swap slots of
  pageswap.c, the choice of a victim page in proc.c and the eviction that kalloc falls back on when the
  free list is empty.

  Memory is a function from frame numbers to the bytes of the frame. A kernel pointer is a 32-bit address
  of the direct map; loading or storing through any other address, null included, is the error
  \<open>BadAddr\<close>. The free list is threaded through the free pages themselves, as in the C code. The
  linker symbols end and data and the address of the processor's task state are the fields \<open>kend\<close>,
  \<open>kdata\<close> and \<open>ts_addr\<close>, which nothing assigns. The kmem.lock sections are atomic.
\<close>

unbundle bit_operations_syntax

section \<open>State\<close>

abbreviation (input) BPPAGE :: nat where "BPPAGE \<equiv> 8"
abbreviation (input) SWAPBASE :: u32 where "SWAPBASE \<equiv> 2"
abbreviation (input) NPAGE :: nat where "NPAGE \<equiv> 400"
abbreviation (input) NFRAME :: nat where "NFRAME \<equiv> 1024"

record swapslothdr =
  is_free :: bool
  page_perm :: u32
  blockno :: u32
  refcnt_to_disk :: int

record vm = bio +
  mem :: "nat \<Rightarrow> bytes"
  freelist :: u32
  num_free_pages :: u32
  use_lock :: bool
  page_to_refcnt :: "nat \<Rightarrow> int"
  swap_slots :: "nat \<Rightarrow> swapslothdr"
  cr3 :: u32
  kpgdir :: u32
  kend :: u32
  kdata :: u32
  cpu_gdt :: "nat \<Rightarrow> segdesc"
  ts_ss0 :: u16
  ts_esp0 :: u32
  ts_iomb :: u16
  ts_addr :: u32

text \<open>The frame of a kernel address, and the addresses that are in the direct map.\<close>

definition frm :: "u32 \<Rightarrow> nat" where
  "frm p = pfn (V2P p)"

definition kptr :: "u32 \<Rightarrow> bool" where
  "kptr p \<longleftrightarrow> V2P p < PHYSTOP"

definition kload :: "u32 \<Rightarrow> 'a vm_scheme \<Rightarrow> u32 res" where
  "kload p s = (if kptr p \<and> unat p mod 4 = 0
     then Ok (ld32 (mem s (frm p)) (unat p mod 4096)) else Err (BadAddr p))"

definition kstore :: "u32 \<Rightarrow> u32 \<Rightarrow> 'a vm_scheme \<Rightarrow> 'a vm_scheme res" where
  "kstore p v s = (if kptr p \<and> unat p mod 4 = 0
     then Ok (s\<lparr>mem := (mem s)(frm p := st32 (mem s (frm p)) (unat p mod 4096) v)\<rparr>) else Err (BadAddr p))"

text \<open>Whole pages: the source of a page copy, and a page overwritten by \<open>f\<close> of its content.\<close>

definition kpage :: "u32 \<Rightarrow> 'a vm_scheme \<Rightarrow> bytes res" where
  "kpage p s = (if kptr p \<and> pg_aligned p then Ok (mem s (frm p)) else Err (BadAddr p))"

definition kpage_upd :: "u32 \<Rightarrow> (bytes \<Rightarrow> bytes) \<Rightarrow> 'a vm_scheme \<Rightarrow> 'a vm_scheme res" where
  "kpage_upd p f s = (if kptr p \<and> pg_aligned p
     then Ok (s\<lparr>mem := (mem s)(frm p := f (mem s (frm p)))\<rparr>) else Err (BadAddr p))"

text \<open>
  The addresses a loop \<open>for(; a < e; a += PGSIZE)\<close> visits; exact for an end of at most 0xFFFFF000, and
  process sizes stay below \<open>KERNBASE\<close>.
\<close>

definition page_range :: "u32 \<Rightarrow> u32 \<Rightarrow> u32 list" where
  "page_range a e = map (\<lambda>k. a + of_nat k * PGSIZE) [0..<(unat e - unat a + 4095) div 4096]"

section \<open>kalloc.c: freeing\<close>

definition kfree :: "u32 \<Rightarrow> 'a vm_scheme \<Rightarrow> 'a vm_scheme res" where
  "kfree v s =
     (if unat v mod unat PGSIZE \<noteq> 0 \<or> v < kend s \<or> V2P v \<ge> PHYSTOP then Err (Panic ''kfree'')
      else if page_to_refcnt s (frm v) > 1 then
        Ok (s\<lparr>page_to_refcnt := (page_to_refcnt s)(frm v := page_to_refcnt s (frm v) - 1)\<rparr>)
      else
        bindR (kpage_upd v (\<lambda>b. memset b 0 1 (unat PGSIZE)) s) (\<lambda>s.
        bindR (kstore v (freelist s) s) (\<lambda>s.
          Ok (s\<lparr>num_free_pages := num_free_pages s + 1, freelist := v\<rparr>))))"

definition freerange_step :: "u32 \<Rightarrow> 'a vm_scheme \<Rightarrow> 'a vm_scheme res" where
  "freerange_step p s = bindR (kfree p s) (\<lambda>s.
     Ok (s\<lparr>page_to_refcnt := (page_to_refcnt s)(frm p := 0)\<rparr>))"

definition freerange :: "u32 \<Rightarrow> u32 \<Rightarrow> 'a vm_scheme \<Rightarrow> 'a vm_scheme res" where
  "freerange vstart vend s =
     (let p = PGROUNDUP vstart
      in foldR freerange_step (map (\<lambda>k. p + of_nat k * PGSIZE) [0..<(unat vend - unat p) div 4096]) s)"

definition kinit1 :: "u32 \<Rightarrow> u32 \<Rightarrow> 'a vm_scheme \<Rightarrow> 'a vm_scheme res" where
  "kinit1 vstart vend s = freerange vstart vend (s\<lparr>use_lock := False\<rparr>)"

definition kinit2 :: "u32 \<Rightarrow> u32 \<Rightarrow> 'a vm_scheme \<Rightarrow> 'a vm_scheme res" where
  "kinit2 vstart vend s = bindR (freerange vstart vend s) (\<lambda>s. Ok (s\<lparr>use_lock := True\<rparr>))"

definition num_of_FreePages :: "'a vm_scheme \<Rightarrow> u32" where
  "num_of_FreePages s = num_free_pages s"

section \<open>pageswap.c: slots\<close>

definition upd_slot :: "nat \<Rightarrow> (swapslothdr \<Rightarrow> swapslothdr) \<Rightarrow> 'a vm_scheme \<Rightarrow> 'a vm_scheme" where
  "upd_slot i f s = s\<lparr>swap_slots := (swap_slots s)(i := f (swap_slots s i))\<rparr>"

definition swapinit :: "'a vm_scheme \<Rightarrow> 'a vm_scheme" where
  "swapinit s = s\<lparr>swap_slots := (\<lambda>i. if i < NPAGE
     then (swap_slots s i)\<lparr>is_free := True, page_perm := 0, blockno := SWAPBASE + of_nat (i * BPPAGE)\<rparr>
     else swap_slots s i)\<rparr>"

section \<open>proc.c: the victim page\<close>

text \<open>walkpgdir as proc.c and pageswap.c call it, without allocation: null when there is no page table.\<close>

definition walkpgdir0 :: "u32 \<Rightarrow> u32 \<Rightarrow> 'a vm_scheme \<Rightarrow> u32 res" where
  "walkpgdir0 pgdir va s =
     bindR (kload (pgdir + 4 * PDX va) s) (\<lambda>pde.
       Ok (if has pde PTE_P then P2V (PTE_ADDR pde) + 4 * PTX va else 0))"

fun victim_page_loop :: "u32 \<Rightarrow> u32 list \<Rightarrow> 'a vm_scheme \<Rightarrow> u32 res" where
  "victim_page_loop pgdir [] s = Ok 0"
| "victim_page_loop pgdir (i # is) s =
     bindR (walkpgdir0 pgdir i s) (\<lambda>pte.
     bindR (kload pte s) (\<lambda>x.
       if has x PTE_P \<and> has x PTE_U \<and> \<not> has x PTE_A then Ok pte
       else victim_page_loop pgdir is s))"

definition get_victim_page :: "nat \<Rightarrow> 'a vm_scheme \<Rightarrow> u32 res" where
  "get_victim_page v s =
     victim_page_loop (p_pgdir (ptable s v)) (page_range 0 (p_sz (ptable s v))) s"

text \<open>One round of flush_table: \<open>ctr\<close> counts, modulo ten, the accessed pages seen.\<close>

definition flush_step :: "u32 \<Rightarrow> u32 \<Rightarrow> int \<times> 'a vm_scheme \<Rightarrow> (int \<times> 'a vm_scheme) res" where
  "flush_step pgdir i = (\<lambda>(ctr, s).
     bindR (walkpgdir0 pgdir i s) (\<lambda>pte.
     bindR (kload pte s) (\<lambda>x.
       if has x PTE_P \<and> has x PTE_U \<and> has x PTE_A then
         bindR (if ctr = 0 then kstore pte (x AND NOT PTE_A) s else Ok s) (\<lambda>s. Ok ((ctr + 1) mod 10, s))
       else Ok (ctr, s))))"

definition flush_table :: "nat \<Rightarrow> 'a vm_scheme \<Rightarrow> 'a vm_scheme res" where
  "flush_table v s =
     bindR (foldR (flush_step (p_pgdir (ptable s v))) (page_range 0 (p_sz (ptable s v))) (0, s))
       (\<lambda>(ctr, s). Ok s)"

definition final_page :: "'a vm_scheme \<Rightarrow> (u32 \<times> 'a vm_scheme) res" where
  "final_page s =
     (case get_victim_process s of
        None \<Rightarrow> Err (BadAddr 0)
      | Some v \<Rightarrow>
          let s = upd_proc v (\<lambda>p. p\<lparr>p_rss := p_rss p - PGSIZE\<rparr>) s
          in bindR (get_victim_page v s) (\<lambda>pte.
               if pte = 0 then
                 bindR (flush_table v s) (\<lambda>s. bindR (get_victim_page v s) (\<lambda>pte. Ok (pte, s)))
               else Ok (pte, s)))"

section \<open>pageswap.c: eviction\<close>

definition free_slot :: "'a vm_scheme \<Rightarrow> nat option" where
  "free_slot s = List.find (\<lambda>i. is_free (swap_slots s i)) [0..<NPAGE]"

text \<open>The entry swap_out leaves behind: the flags are taken from the word just written.\<close>

definition swapped_pte :: "u32 \<Rightarrow> u32" where
  "swapped_pte bn =
     (let x = push_bit PTXSHIFT bn; x = x OR PTE_FLAGS x; x = x OR PTE_SW in x AND NOT PTE_P)"

definition swap_out :: "'a vm_scheme \<Rightarrow> 'a vm_scheme res" where
  "swap_out s =
     bindR (final_page s) (\<lambda>(pte, s).
       case free_slot s of
         None \<Rightarrow> Err (Panic ''Swap full'')
       | Some i \<Rightarrow>
           let s = upd_slot i (\<lambda>h. h\<lparr>is_free := False\<rparr>) s
           in bindR (kload pte s) (\<lambda>x.
                let s = upd_slot i (\<lambda>h. h\<lparr>page_perm := PTE_FLAGS x\<rparr>) s; pa = PTE_ADDR x
                in bindR (kpage (P2V pa) s) (\<lambda>b.
                   bindR (write_page_to_swap (blockno (swap_slots s i)) b s) (\<lambda>s.
                   bindR (kfree (P2V pa) s) (\<lambda>s.
                     kstore pte (swapped_pte (blockno (swap_slots s i))) s)))))"

section \<open>What the operations leave alone\<close>

definition nfree_slots :: "'a vm_scheme \<Rightarrow> nat" where
  "nfree_slots s = card {i. i < NPAGE \<and> is_free (swap_slots s i)}"

lemma vm_more_sel:
  assumes "bio.more s = bio.more t"
  shows "mem s = mem t" "freelist s = freelist t" "num_free_pages s = num_free_pages t"
    "use_lock s = use_lock t" "page_to_refcnt s = page_to_refcnt t" "swap_slots s = swap_slots t"
    "cr3 s = cr3 t" "kpgdir s = kpgdir t" "kend s = kend t" "kdata s = kdata t" "vm.more s = vm.more t"
  using assms by (cases s; cases t; simp)+

lemma vm_proc_sel [simp]:
  "mem (upd_proc i f s) = mem s" "freelist (upd_proc i f s) = freelist s"
  "num_free_pages (upd_proc i f s) = num_free_pages s" "use_lock (upd_proc i f s) = use_lock s"
  "page_to_refcnt (upd_proc i f s) = page_to_refcnt s" "swap_slots (upd_proc i f s) = swap_slots s"
  "cr3 (upd_proc i f s) = cr3 s" "kpgdir (upd_proc i f s) = kpgdir s" "kend (upd_proc i f s) = kend s"
  "kdata (upd_proc i f s) = kdata s" "vm.more (upd_proc i f s) = vm.more s"
  by (simp_all add: upd_proc_def)

lemma upd_slot_sel [simp]:
  "mem (upd_slot i f s) = mem s" "freelist (upd_slot i f s) = freelist s"
  "num_free_pages (upd_slot i f s) = num_free_pages s" "use_lock (upd_slot i f s) = use_lock s"
  "page_to_refcnt (upd_slot i f s) = page_to_refcnt s"
  "swap_slots (upd_slot i f s) = (swap_slots s)(i := f (swap_slots s i))"
  "cr3 (upd_slot i f s) = cr3 s" "kpgdir (upd_slot i f s) = kpgdir s" "kend (upd_slot i f s) = kend s"
  "kdata (upd_slot i f s) = kdata s" "ptable (upd_slot i f s) = ptable s"
  by (simp_all add: upd_slot_def)

lemma kstore_slots: "kstore p v s = Ok s' \<Longrightarrow> swap_slots s' = swap_slots s"
  by (auto simp: kstore_def split: if_splits)

lemma kfree_slots: "kfree v s = Ok s' \<Longrightarrow> swap_slots s' = swap_slots s"
  by (auto simp: kfree_def kpage_upd_def bindR_Ok_iff dest!: kstore_slots split: if_splits)

lemma flush_table_slots: "flush_table v s = Ok s' \<Longrightarrow> swap_slots s' = swap_slots s"
proof -
  assume "flush_table v s = Ok s'"
  then obtain c where "foldR (flush_step (p_pgdir (ptable s v))) (page_range 0 (p_sz (ptable s v))) (0, s) = Ok (c, s')"
    by (auto simp: flush_table_def bindR_Ok_iff)
  then have "swap_slots (snd (c, s')) = swap_slots s"
    by (rule foldR_invariant [where P = "\<lambda>(d, t). swap_slots t = swap_slots s", simplified case_prod_beta])
      (auto simp: flush_step_def bindR_Ok_iff split: prod.splits if_splits dest!: kstore_slots)
  then show ?thesis by simp
qed

lemma final_page_slots: "final_page s = Ok (pte, s') \<Longrightarrow> swap_slots s' = swap_slots s"
  by (auto simp: final_page_def bindR_Ok_iff Let_def dest!: flush_table_slots split: option.splits if_splits)

lemma swap_out_slots:
  assumes "swap_out s = Ok s'"
  shows "nfree_slots s' < nfree_slots s"
proof -
  from assms obtain pte t i where fp: "final_page s = Ok (pte, t)" and fs: "free_slot t = Some i"
    by (auto simp: swap_out_def bindR_Ok_iff split: option.splits)
  have i: "i < NPAGE" "is_free (swap_slots s i)"
    using find_SomeD [OF fs [unfolded free_slot_def]] final_page_slots [OF fp] by auto
  have fr: "is_free (swap_slots s' j) \<longleftrightarrow> j \<noteq> i \<and> is_free (swap_slots s j)" for j
    using assms fp fs final_page_slots [OF fp]
    by (auto simp: swap_out_def bindR_Ok_iff Let_def dest!: kstore_slots kfree_slots write_page_more vm_more_sel(6)
        split: if_splits)
  have "{j. j < NPAGE \<and> is_free (swap_slots s' j)} \<subset> {j. j < NPAGE \<and> is_free (swap_slots s j)}"
    using i fr by auto
  then show ?thesis unfolding nfree_slots_def by (intro psubset_card_mono) auto
qed

section \<open>Allocation\<close>

text \<open>
  kalloc calls itself after every eviction. It ends because every eviction takes a slot: the number of
  free slots decreases, and with none left swap_out panics.
\<close>

function kalloc :: "'a vm_scheme \<Rightarrow> (u32 \<times> 'a vm_scheme) res" where
  "kalloc s =
     (let r = freelist s
      in if r \<noteq> 0 then
           bindR (kload r s) (\<lambda>next.
             Ok (r, s\<lparr>freelist := next, num_free_pages := num_free_pages s - 1,
                      page_to_refcnt := (page_to_refcnt s)(frm r := 1)\<rparr>))
         else bindR (swap_out s) kalloc)"
  by pat_completeness auto
termination by (relation "measure nfree_slots") (auto intro: swap_out_slots)

declare kalloc.simps [simp del]

section \<open>Words of a page\<close>

definition kpg :: "u32 \<Rightarrow> bool" where
  "kpg p \<longleftrightarrow> kptr p \<and> pg_aligned p"

lemma kpg_nonzero: "kpg p \<Longrightarrow> p \<noteq> 0"
  by (auto simp: kpg_def kptr_def V2P_def)

lemma kptr_unat: "kptr p \<Longrightarrow> unat (V2P p) < 4194304"
  by (simp add: kptr_def word_less_nat_alt)

lemma V2P_add: "V2P (p + x) = V2P p + x"
  by (simp add: V2P_def)

lemma unat_mod4096_V2P: "unat p mod 4096 = unat (V2P p) mod 4096"
proof -
  have "p = V2P p + KERNBASE" by (simp add: V2P_def)
  then have "unat p mod 4096 = unat (V2P p + KERNBASE) mod 4096" by simp
  also have "\<dots> = (unat (V2P p) + 2147483648) mod 2 ^ 32 mod 4096" by (simp add: unat_word_ariths)
  also have "\<dots> = (unat (V2P p) + 2147483648) mod 4096" by (rule mod_mod_cancel) simp
  also have "\<dots> = (unat (V2P p) + 524288 * 4096) mod 4096" by simp
  also have "\<dots> = unat (V2P p) mod 4096" by (rule mod_mult_self1)
  finally show ?thesis .
qed

lemma page_word:
  assumes "kpg p" and "i < 1024"
  shows "kptr (p + 4 * of_nat i)" "frm (p + 4 * of_nat i) = frm p" "unat (p + 4 * of_nat i) mod 4096 = 4 * i"
    "unat (p + 4 * of_nat i) mod 4 = 0"
proof -
  let ?x = "4 * of_nat i :: u32"
  have x: "unat ?x = 4 * i" using assms(2) by (simp add: unat_word_ariths unat_of_nat)
  have a: "unat (V2P p) < 4194304" "unat (V2P p) mod 4096 = 0"
    using assms(1) kptr_unat by (auto simp: kpg_def pg_aligned_unat [symmetric])
  then obtain k where k: "unat (V2P p) = 4096 * k" by (metis mod_0_imp_dvd dvdE)
  with a have k': "k < 1024" by simp
  have u: "unat (V2P p + ?x) = 4096 * k + 4 * i"
    using x k k' assms(2) by (simp add: unat_word_ariths)
  show "kptr (p + ?x)" using u k' assms(2) by (simp add: kptr_def V2P_add word_less_nat_alt)
  show "frm (p + ?x) = frm p" using u k assms(2) by (simp add: frm_def V2P_add pfn_div)
  show m: "unat (p + ?x) mod 4096 = 4 * i" using u assms(2) by (simp add: unat_mod4096_V2P V2P_add)
  have "unat (p + ?x) mod 4 = unat (p + ?x) mod 4096 mod 4" by (simp add: mod_mod_cancel)
  then show "unat (p + ?x) mod 4 = 0" by (simp add: m)
qed


lemma page_word0: "kpg p \<Longrightarrow> unat p mod 4096 = 0 \<and> unat p mod 4 = 0"
  using page_word [of p 0] by simp

lemma kload_word: "kpg p \<Longrightarrow> i < 1024 \<Longrightarrow> kload (p + 4 * of_nat i) s = Ok (ld32 (mem s (frm p)) (4 * i))"
  using page_word [of p i] by (simp add: kload_def)

lemma kstore_word: "kpg p \<Longrightarrow> i < 1024
    \<Longrightarrow> kstore (p + 4 * of_nat i) v s = Ok (s\<lparr>mem := (mem s)(frm p := st32 (mem s (frm p)) (4 * i) v)\<rparr>)"
  using page_word [of p i] by (simp add: kstore_def)

lemma kload_page: "kpg p \<Longrightarrow> kload p s = Ok (ld32 (mem s (frm p)) 0)"
  using kload_word [of p 0] by simp

lemma kstore_page: "kpg p \<Longrightarrow> kstore p v s = Ok (s\<lparr>mem := (mem s)(frm p := st32 (mem s (frm p)) 0 v)\<rparr>)"
  using kstore_word [of p 0] by simp

lemma kpage_upd_page: "kpg p \<Longrightarrow> kpage_upd p f s = Ok (s\<lparr>mem := (mem s)(frm p := f (mem s (frm p)))\<rparr>)"
  by (simp add: kpage_upd_def kpg_def)

lemma kpage_page: "kpg p \<Longrightarrow> kpage p s = Ok (mem s (frm p))"
  by (simp add: kpage_def kpg_def)

lemma frm_less: "kpg p \<Longrightarrow> frm p < NFRAME"
  using kptr_unat by (simp add: frm_def kpg_def kptr_def pfn_less)

lemma frm_eq_iff: "kpg p \<Longrightarrow> kpg q \<Longrightarrow> frm p = frm q \<longleftrightarrow> p = q"
  unfolding frm_def kpg_def by (metis V2P_P2V(2) pfn_eq_iff pg_aligned_V2P)

lemma frm_P2V [simp]: "frm (P2V pa) = pfn pa"
  by (simp add: frm_def)

lemma kpg_P2V_iff: "kpg (P2V pa) \<longleftrightarrow> pa < PHYSTOP \<and> pg_aligned pa"
  by (simp add: kpg_def kptr_def)

section \<open>States that differ in memory only\<close>

text \<open>The allocator and the stores change memory, the free list and the reference counts, nothing else.\<close>

definition mem_frame :: "'a vm_scheme \<Rightarrow> 'a vm_scheme \<Rightarrow> bool" where
  "mem_frame s t \<longleftrightarrow> (\<exists>m f n r. t = s\<lparr>mem := m, freelist := f, num_free_pages := n, page_to_refcnt := r\<rparr>)"

lemma mem_frameI [intro]: "mem_frame s (s\<lparr>mem := m, freelist := f, num_free_pages := n, page_to_refcnt := r\<rparr>)"
  by (auto simp: mem_frame_def)

lemma mem_frame_refl [simp]: "mem_frame s s"
  unfolding mem_frame_def
  by (rule exI [of _ "mem s"], rule exI [of _ "freelist s"], rule exI [of _ "num_free_pages s"],
      rule exI [of _ "page_to_refcnt s"]) simp

lemma mem_frame_trans [trans]: "mem_frame s t \<Longrightarrow> mem_frame t u \<Longrightarrow> mem_frame s u"
  unfolding mem_frame_def by (elim exE) (simp, blast)

lemma mem_frame_upd [simp]:
  "mem_frame s (s\<lparr>mem := m\<rparr>)" "mem_frame s (s\<lparr>page_to_refcnt := r\<rparr>)"
  "mem_frame s (s\<lparr>num_free_pages := n, freelist := f\<rparr>)"
  "mem_frame s (s\<lparr>freelist := f, num_free_pages := n, page_to_refcnt := r\<rparr>)"
proof -
  have "s\<lparr>mem := m\<rparr> = s\<lparr>mem := m, freelist := freelist s, num_free_pages := num_free_pages s,
      page_to_refcnt := page_to_refcnt s\<rparr>" by simp
  then show "mem_frame s (s\<lparr>mem := m\<rparr>)" unfolding mem_frame_def by blast
  have "s\<lparr>page_to_refcnt := r\<rparr> = s\<lparr>mem := mem s, freelist := freelist s, num_free_pages := num_free_pages s,
      page_to_refcnt := r\<rparr>" by simp
  then show "mem_frame s (s\<lparr>page_to_refcnt := r\<rparr>)" unfolding mem_frame_def by blast
  have "s\<lparr>num_free_pages := n, freelist := f\<rparr> = s\<lparr>mem := mem s, freelist := f, num_free_pages := n,
      page_to_refcnt := page_to_refcnt s\<rparr>" by simp
  then show "mem_frame s (s\<lparr>num_free_pages := n, freelist := f\<rparr>)" unfolding mem_frame_def by blast
  have "s\<lparr>freelist := f, num_free_pages := n, page_to_refcnt := r\<rparr>
    = s\<lparr>mem := mem s, freelist := f, num_free_pages := n, page_to_refcnt := r\<rparr>" by simp
  then show "mem_frame s (s\<lparr>freelist := f, num_free_pages := n, page_to_refcnt := r\<rparr>)"
    unfolding mem_frame_def by blast
qed

lemma mem_frame_sel:
  assumes "mem_frame s t"
  shows "ptable t = ptable s" "curproc t = curproc s" "nextpid t = nextpid s" "initproc t = initproc s"
    "bufs t = bufs s" "lru t = lru s" "idequeue t = idequeue s" "havedisk1 t = havedisk1 s" "ide_err t = ide_err s" "disk t = disk s"
    "use_lock t = use_lock s" "swap_slots t = swap_slots s" "cr3 t = cr3 s" "kpgdir t = kpgdir s"
    "kend t = kend s" "kdata t = kdata s" "cpu_gdt t = cpu_gdt s" "vm.more t = vm.more s"
  using assms by (auto simp: mem_frame_def)

section \<open>The free list\<close>

text \<open>
  The pages the allocator may hand out, and the free list as the list of pages that its pointers chain
  through the first word of every free page.
\<close>

definition page_ok :: "'a vm_scheme \<Rightarrow> u32 \<Rightarrow> bool" where
  "page_ok s p \<longleftrightarrow> kpg p \<and> kend s \<le> p"

primrec chain :: "(nat \<Rightarrow> bytes) \<Rightarrow> u32 \<Rightarrow> u32 list \<Rightarrow> bool" where
  "chain m p [] \<longleftrightarrow> p = 0"
| "chain m p (q # qs) \<longleftrightarrow> p = q \<and> chain m (ld32 (m (frm q)) 0) qs"

definition free_pages :: "'a vm_scheme \<Rightarrow> u32 list \<Rightarrow> bool" where
  "free_pages s fs \<longleftrightarrow> chain (mem s) (freelist s) fs \<and> distinct fs \<and> (\<forall>p \<in> set fs. page_ok s p) \<and>
     num_free_pages s = of_nat (length fs)"

lemma page_ok_kpg: "page_ok s p \<Longrightarrow> kpg p"
  by (simp add: page_ok_def)

lemma page_ok_frame: "mem_frame s t \<Longrightarrow> page_ok t p = page_ok s p"
  by (simp add: page_ok_def mem_frame_sel)

lemma chain_cong: "(\<And>p. p \<in> set qs \<Longrightarrow> m' (frm p) = m (frm p)) \<Longrightarrow> chain m' p qs = chain m p qs"
  by (induction qs arbitrary: p) auto

lemma free_pages_mem:
  assumes "free_pages s fs" and "\<And>p. p \<in> set fs \<Longrightarrow> mem t (frm p) = mem s (frm p)"
    and "mem_frame s t" "freelist t = freelist s" "num_free_pages t = num_free_pages s"
  shows "free_pages t fs"
  using assms chain_cong [of fs "mem t" "mem s"] by (auto simp: free_pages_def page_ok_frame)

lemma free_frm_distinct:
  assumes "free_pages s fs" "kpg q" "q \<notin> set fs" "p \<in> set fs"
  shows "frm p \<noteq> frm q"
  using assms frm_eq_iff [of p q] by (auto simp: free_pages_def page_ok_def)

text \<open>kfree of a page with other references only drops one of them.\<close>

lemma kfree_guard: "page_ok s v \<Longrightarrow> \<not> (unat v mod unat PGSIZE \<noteq> 0 \<or> v < kend s \<or> V2P v \<ge> PHYSTOP)"
  using page_word0 [of v] by (auto simp: page_ok_def kpg_def kptr_def not_less not_le)

lemma kfree_shared:
  "page_ok s v \<Longrightarrow> page_to_refcnt s (frm v) > 1 \<Longrightarrow>
   kfree v s = Ok (s\<lparr>page_to_refcnt := (page_to_refcnt s)(frm v := page_to_refcnt s (frm v) - 1)\<rparr>)"
  using kfree_guard [of s v] by (simp add: kfree_def)

text \<open>kfree of the last reference puts the page at the front of the free list.\<close>

lemma kfree_last:
  assumes fp: "free_pages s fs" and v: "page_ok s v" "v \<notin> set fs" and r: "page_to_refcnt s (frm v) \<le> 1"
  obtains s' where "kfree v s = Ok s'" "free_pages s' (v # fs)" "mem_frame s s'"
    "\<forall>f. f \<noteq> frm v \<longrightarrow> mem s' f = mem s f" "page_to_refcnt s' = page_to_refcnt s"
proof -
  have k: "kpg v" using v by (simp add: page_ok_def)
  let ?b = "st32 (memset (mem s (frm v)) 0 1 4096) 0 (freelist s)"
  let ?s1 = "s\<lparr>mem := (mem s)(frm v := ?b)\<rparr>"
  let ?s' = "?s1\<lparr>num_free_pages := num_free_pages s + 1, freelist := v\<rparr>"
  have ok: "kfree v s = Ok ?s'"
    using kfree_guard [OF v(1)] r by (simp add: kfree_def kpage_upd_page [OF k] kstore_page [OF k])
  have "mem_frame s ?s1" "mem_frame ?s1 ?s'" by (rule mem_frame_upd)+
  then have fr: "mem_frame s ?s'" by (rule mem_frame_trans)
  have "chain ((mem s)(frm v := ?b)) (freelist s) fs = chain (mem s) (freelist s) fs"
    using free_frm_distinct [OF fp k v(2)] by (intro chain_cong) auto
  then have "free_pages ?s' (v # fs)" using fp v k
    by (auto simp: free_pages_def page_ok_def)
  then show thesis by (intro that [OF ok _ fr]) auto
qed

text \<open>kalloc takes the first page of a list that is not empty and counts its one reference.\<close>

lemma kalloc_free:
  assumes fp: "free_pages s (p # fs)"
  obtains s' where "kalloc s = Ok (p, s')" "free_pages s' fs" "mem_frame s s'" "mem s' = mem s"
    "page_to_refcnt s' = (page_to_refcnt s)(frm p := 1)"
proof -
  have k: "kpg p" "p \<noteq> 0" "freelist s = p" using fp kpg_nonzero by (auto simp: free_pages_def page_ok_def)
  let ?s' = "s\<lparr>freelist := ld32 (mem s (frm p)) 0, num_free_pages := num_free_pages s - 1,
               page_to_refcnt := (page_to_refcnt s)(frm p := 1)\<rparr>"
  have ok: "kalloc s = Ok (p, ?s')"
    using k by (subst kalloc.simps) (simp add: kload_page [OF k(1)])
  have fr: "mem_frame s ?s'" by simp
  have "free_pages ?s' fs" using fp by (auto simp: free_pages_def page_ok_def)
  then show thesis by (intro that [OF ok _ fr]) auto
qed

section \<open>The allocator's contract\<close>

text \<open>
  What the users of the allocator rely on, stated over any state with an abstract free list: allocation
  takes the front, freeing a page that is not free puts it back in front, and pages on the list are
  distinct. \<open>last_ref s p\<close> says that no one else holds a reference to the page.
\<close>

locale page_allocator =
  fixes alloc :: "'s \<Rightarrow> (u32 \<times> 's) res"
    and free :: "u32 \<Rightarrow> 's \<Rightarrow> 's res"
    and frees :: "'s \<Rightarrow> u32 list \<Rightarrow> bool"
    and last_ref :: "'s \<Rightarrow> u32 \<Rightarrow> bool"
  assumes frees_distinct: "frees s fs \<Longrightarrow> distinct fs"
    and alloc_law: "frees s (p # fs) \<Longrightarrow> \<exists>s'. alloc s = Ok (p, s') \<and> frees s' fs \<and> last_ref s' p"
    and free_law: "frees s fs \<Longrightarrow> last_ref s p \<Longrightarrow> p \<notin> set fs \<Longrightarrow> \<exists>s'. free p s = Ok s' \<and> frees s' (p # fs)"
begin

primrec allocs :: "nat \<Rightarrow> 's \<Rightarrow> (u32 list \<times> 's) res" where
  "allocs 0 s = Ok ([], s)"
| "allocs (Suc n) s = bindR (alloc s) (\<lambda>(p, s). bindR (allocs n s) (\<lambda>(ps, s). Ok (p # ps, s)))"

lemma allocs_front: "frees s (ps @ fs) \<Longrightarrow> \<exists>s'. allocs (length ps) s = Ok (ps, s') \<and> frees s' fs"
proof (induction ps arbitrary: s)
  case (Cons p ps)
  from alloc_law [of s p "ps @ fs"] Cons.prems obtain s1 where "alloc s = Ok (p, s1)" "frees s1 (ps @ fs)" by auto
  with Cons.IH [of s1] show ?case by auto
qed simp

lemma allocs_distinct: "frees s fs \<Longrightarrow> n \<le> length fs \<Longrightarrow>
    \<exists>ps s'. allocs n s = Ok (ps, s') \<and> length ps = n \<and> distinct ps \<and> set ps \<subseteq> set fs"
  using allocs_front [of s "take n fs" "drop n fs"] frees_distinct [of s fs]
  by (auto simp: min_absorb2 intro: distinct_take dest: in_set_takeD)

lemma alloc_free: "frees s (p # fs) \<Longrightarrow> \<exists>s1 s2. alloc s = Ok (p, s1) \<and> free p s1 = Ok s2 \<and> frees s2 (p # fs)"
proof -
  assume a: "frees s (p # fs)"
  from alloc_law [OF a] obtain s1 where s1: "alloc s = Ok (p, s1)" "frees s1 fs" "last_ref s1 p" by blast
  from free_law [OF s1(2,3)] frees_distinct [OF a] s1 show ?thesis by auto
qed

lemma free_alloc: "frees s fs \<Longrightarrow> last_ref s p \<Longrightarrow> p \<notin> set fs \<Longrightarrow>
    \<exists>s1 s2. free p s = Ok s1 \<and> alloc s1 = Ok (p, s2) \<and> frees s2 fs"
  using free_law [of s fs p] alloc_law by blast

end

text \<open>The last reference to a page of this kernel.\<close>

definition sole_ref :: "'a vm_scheme \<Rightarrow> u32 \<Rightarrow> bool" where
  "sole_ref s p \<longleftrightarrow> page_ok s p \<and> page_to_refcnt s (frm p) \<le> 1"

lemma kalloc_law: "free_pages s (p # fs) \<Longrightarrow> \<exists>s'. kalloc s = Ok (p, s') \<and> free_pages s' fs \<and> sole_ref s' p"
proof -
  assume fp: "free_pages s (p # fs)"
  then have "page_ok s p" by (simp add: free_pages_def)
  with kalloc_free [OF fp] show ?thesis by (metis sole_ref_def page_ok_frame fun_upd_same order_refl)
qed

lemma kfree_law: "free_pages s fs \<Longrightarrow> sole_ref s p \<Longrightarrow> p \<notin> set fs \<Longrightarrow> \<exists>s'. kfree p s = Ok s' \<and> free_pages s' (p # fs)"
  unfolding sole_ref_def by (meson kfree_last)

interpretation kmem: page_allocator kalloc kfree free_pages sole_ref
  by unfold_locales (simp add: free_pages_def, erule kalloc_law, erule kfree_law)

text \<open>Every pointer kalloc returns is non-null, whether it came from the free list or from an eviction.\<close>

lemma kalloc_nonzero: "kalloc s = Ok (p, s') \<Longrightarrow> p \<noteq> 0"
proof (induction s rule: kalloc.induct)
  case (1 s)
  show ?case
  proof (cases "freelist s = 0")
    case True
    with 1(2) obtain t where "swap_out s = Ok t" "kalloc t = Ok (p, s')"
      by (subst (asm) kalloc.simps) (auto simp: bindR_Ok_iff)
    with 1(1) True show ?thesis by blast
  next
    case False
    with 1(2) show ?thesis by (subst (asm) kalloc.simps) (auto simp: bindR_Ok_iff Let_def)
  qed
qed

section \<open>Building the free list\<close>

lemma freerange_step_ok:
  assumes fp: "free_pages s fs" and p: "page_ok s p" "p \<notin> set fs" and r: "page_to_refcnt s (frm p) \<le> 1"
  shows "\<exists>s'. freerange_step p s = Ok s' \<and> free_pages s' (p # fs) \<and> mem_frame s s' \<and>
    page_to_refcnt s' = (page_to_refcnt s)(frm p := 0)"
proof -
  from kfree_last [OF fp p r] obtain s1 where s1: "kfree p s = Ok s1" "free_pages s1 (p # fs)" "mem_frame s s1"
    "page_to_refcnt s1 = page_to_refcnt s" by metis
  let ?s' = "s1\<lparr>page_to_refcnt := (page_to_refcnt s1)(frm p := 0)\<rparr>"
  have "free_pages ?s' (p # fs)" using s1(2) by (auto intro: free_pages_mem)
  moreover have "mem_frame s ?s'" using s1(3) mem_frame_upd(2) by (rule mem_frame_trans)
  ultimately show ?thesis using s1 by (auto simp: freerange_step_def)
qed

lemma freerange_fold:
  assumes "free_pages s fs" "\<forall>p \<in> set ps. page_ok s p \<and> p \<notin> set fs" "distinct ps" "\<forall>f. page_to_refcnt s f \<le> 1"
  shows "\<exists>s'. foldR freerange_step ps s = Ok s' \<and> free_pages s' (rev ps @ fs) \<and> mem_frame s s' \<and>
    (\<forall>p \<in> set ps. page_to_refcnt s' (frm p) = 0) \<and>
    (\<forall>f. f \<notin> frm ` set ps \<longrightarrow> page_to_refcnt s' f = page_to_refcnt s f)"
  using assms
proof (induction ps arbitrary: s fs)
  case Nil
  then show ?case by auto
next
  case (Cons p ps)
  from freerange_step_ok [of s fs p] Cons.prems obtain s1 where s1: "freerange_step p s = Ok s1"
    "free_pages s1 (p # fs)" "mem_frame s s1" "page_to_refcnt s1 = (page_to_refcnt s)(frm p := 0)" by auto
  have "\<forall>q \<in> set ps. page_ok s1 q \<and> q \<notin> set (p # fs)" "\<forall>f. page_to_refcnt s1 f \<le> 1"
    using Cons.prems s1 by (auto simp: page_ok_frame)
  from Cons.IH [OF s1(2) this(1) _ this(2)] Cons.prems(3) obtain s2 where s2:
    "foldR freerange_step ps s1 = Ok s2" "free_pages s2 (rev ps @ p # fs)" "mem_frame s1 s2"
    "\<forall>p \<in> set ps. page_to_refcnt s2 (frm p) = 0"
    "\<forall>f. f \<notin> frm ` set ps \<longrightarrow> page_to_refcnt s2 f = page_to_refcnt s1 f" by auto
  have "page_to_refcnt s2 (frm p) = 0"
    using s2(4,5) s1(4) by (cases "frm p \<in> frm ` set ps") auto
  moreover have "mem_frame s s2" using s1(3) s2(3) by (rule mem_frame_trans)
  ultimately show ?case using s1 s2 by auto
qed

lemma map_steps:
  fixes a c :: "'b::comm_semiring_1"
  shows "map (\<lambda>k. a + of_nat k * c) [0..<Suc m] = a # map (\<lambda>k. a + c + of_nat k * c) [0..<m]"
  by (simp add: map_upt_Suc algebra_simps del: upt_Suc)

lemma page_range_loop:
  assumes "e \<le> 0xFFFFF000"
  shows "page_range a e = (if a < e then a # page_range (a + PGSIZE) e else [])"
proof (cases "a < e")
  case False
  then show ?thesis by (simp add: page_range_def word_less_nat_alt not_less)
next
  case True
  have e: "unat e \<le> 4294963200" using assms by (simp add: word_le_nat_alt)
  have l: "unat a < unat e" using True by (simp add: word_less_nat_alt)
  then have u: "unat (a + PGSIZE) = unat a + 4096" using e by (simp add: unat_word_ariths)
  let ?n = "(unat e - unat a + 4095) div 4096" and ?m = "(unat e - unat (a + PGSIZE) + 4095) div 4096"
  have n: "?n = Suc ?m"
  proof (cases "unat e - unat a < 4096")
    case True then show ?thesis using l u by simp
  next
    case False
    then have "unat e - unat a + 4095 = (unat e - unat (a + PGSIZE) + 4095) + 4096" using u by simp
    then show ?thesis by simp
  qed
  show ?thesis using True unfolding page_range_def n map_steps by simp
qed

text \<open>A quiet machine with no memory to give out.\<close>

definition quiet_vm :: "(nat \<Rightarrow> proc) \<Rightarrow> (u32 \<Rightarrow> u32 \<Rightarrow> bytes) \<Rightarrow> 'a \<Rightarrow> 'a vm_scheme" where
  "quiet_vm tab d rest = quiet_ext tab d
     \<lparr>mem = (\<lambda>_ _. 0), freelist = 0, num_free_pages = 0, use_lock = True, page_to_refcnt = (\<lambda>_. 0),
      swap_slots = (\<lambda>_. \<lparr>is_free = True, page_perm = 0, blockno = 0, refcnt_to_disk = 0\<rparr>), cr3 = 0, kpgdir = 0,
      kend = 0x80110000, kdata = 0x80108000, cpu_gdt = (\<lambda>_. SEG 0 0 0 0), ts_ss0 = 0, ts_esp0 = 0, ts_iomb = 0,
      ts_addr = 0, \<dots> = rest\<rparr>"

end
