(* ===== verification/Vm.thy ===== *)
theory Vm
  imports Kmem
begin

text \<open>
  Virtual memory (vm.c): page-directory walks, mapping, the kernel part of every page table, growing
  and shrinking the user part, the copies that fork makes, freeing, and access to user memory through a
  page table. A null pointer result is the address 0; loops over pages are recursions over the addresses
  they visit. The copy of a kernel buffer into memory takes the buffer as a byte array.
\<close>

unbundle bit_operations_syntax

section \<open>Walking and mapping\<close>

definition lcr3 :: "u32 \<Rightarrow> 'a vm_scheme \<Rightarrow> 'a vm_scheme" where
  "lcr3 pa s = s\<lparr>cr3 := pa\<rparr>"

definition seginit :: "'a vm_scheme \<Rightarrow> 'a vm_scheme" where
  "seginit s = s\<lparr>cpu_gdt := (cpu_gdt s)
     (SEG_KCODE := SEG (STA_X OR STA_R) 0 0xffffffff 0,
      SEG_KDATA := SEG STA_W 0 0xffffffff 0,
      SEG_UCODE := SEG (STA_X OR STA_R) 0 0xffffffff DPL_USER,
      SEG_UDATA := SEG STA_W 0 0xffffffff DPL_USER)\<rparr>"

definition walkpgdir :: "u32 \<Rightarrow> u32 \<Rightarrow> bool \<Rightarrow> 'a vm_scheme \<Rightarrow> (u32 \<times> 'a vm_scheme) res" where
  "walkpgdir pgdir va alloc s =
     bindR (kload (pgdir + 4 * PDX va) s) (\<lambda>pde.
       if has pde PTE_P then Ok (P2V (PTE_ADDR pde) + 4 * PTX va, s)
       else if \<not> alloc then Ok (0, s)
       else
         bindR (kalloc s) (\<lambda>(pgtab, s).
           if pgtab = 0 then Ok (0, s)
           else
             bindR (kpage_upd pgtab (\<lambda>b. memset b 0 0 (unat PGSIZE)) s) (\<lambda>s.
             bindR (kstore (pgdir + 4 * PDX va) (V2P pgtab OR PTE_P OR PTE_W OR PTE_U) s) (\<lambda>s.
               Ok (pgtab + 4 * PTX va, s)))))"

text \<open>
  One round of the loop of mappages, and the loop. It leaves when \<open>a\<close> reaches \<open>last\<close>; both are page
  aligned, so that is after \<open>(last - a) / PGSIZE\<close> further pages, which is what the second argument counts.
\<close>

definition map_page :: "u32 \<Rightarrow> u32 \<Rightarrow> u32 \<Rightarrow> u32 \<Rightarrow> 'a vm_scheme \<Rightarrow> (int \<times> 'a vm_scheme) res" where
  "map_page pgdir a pa perm s =
     bindR (walkpgdir pgdir a True s) (\<lambda>(pte, s).
       if pte = 0 then Ok (-1, s)
       else bindR (kload pte s) (\<lambda>x.
         if has x PTE_P then Err (Panic ''remap'')
         else bindR (kstore pte (pa OR perm OR PTE_P) s) (\<lambda>s. Ok (0, s))))"

primrec map_loop :: "u32 \<Rightarrow> nat \<Rightarrow> u32 \<Rightarrow> u32 \<Rightarrow> u32 \<Rightarrow> 'a vm_scheme \<Rightarrow> (int \<times> 'a vm_scheme) res" where
  "map_loop pgdir 0 a pa perm s = map_page pgdir a pa perm s"
| "map_loop pgdir (Suc n) a pa perm s =
     bindR (map_page pgdir a pa perm s) (\<lambda>(r, s).
       if r < 0 then Ok (r, s) else map_loop pgdir n (a + PGSIZE) (pa + PGSIZE) perm s)"

definition mappages :: "u32 \<Rightarrow> u32 \<Rightarrow> u32 \<Rightarrow> u32 \<Rightarrow> u32 \<Rightarrow> 'a vm_scheme \<Rightarrow> (int \<times> 'a vm_scheme) res" where
  "mappages pgdir va sz pa perm s =
     (let a = PGROUNDDOWN va; last = PGROUNDDOWN (va + sz - 1)
      in map_loop pgdir (pfn (last - a)) a pa perm s)"

section \<open>Shrinking and freeing\<close>

text \<open>
  The slot of a swapped entry. The C quotient truncates, so that block numbers below \<open>SWAPBASE\<close> give
  slot 0, as the subtraction of naturals does here.
\<close>

definition clear_slot :: "u32 \<Rightarrow> 'a vm_scheme \<Rightarrow> 'a vm_scheme res" where
  "clear_slot page s =
     bindR (kload page s) (\<lambda>x.
       let i = (pfn (PTE_ADDR x) - unat SWAPBASE) div BPPAGE
       in if i \<ge> NPAGE then Err OutOfBounds
          else Ok (upd_slot i (\<lambda>h. h\<lparr>is_free := True\<rparr>) s))"

definition dec_swap_slot_refcnt :: "u32 \<Rightarrow> 'a vm_scheme \<Rightarrow> (int \<times> 'a vm_scheme) res" where
  "dec_swap_slot_refcnt pte s =
     bindR (kload pte s) (\<lambda>x.
       let i = (pfn (PTE_ADDR x) - unat SWAPBASE) div BPPAGE
       in if i \<ge> NPAGE then Err OutOfBounds
          else if refcnt_to_disk (swap_slots s i) = 0 then Err (Panic ''refcnt already 0'')
          else let s = upd_slot i (\<lambda>h. h\<lparr>refcnt_to_disk := refcnt_to_disk h - 1\<rparr>) s
               in Ok (refcnt_to_disk (swap_slots s i), s))"

text \<open>
  The loops of deallocuvm and deallocuvm_proc. An address that wraps past the end of the address space
  would start the scan over; no caller passes an end that high, and the model reports it.
\<close>

definition dealloc_page :: "u32 \<Rightarrow> 'a vm_scheme \<Rightarrow> 'a vm_scheme res" where
  "dealloc_page pte s =
     bindR (kload pte s) (\<lambda>x.
       if has x PTE_P then
         (if PTE_ADDR x = 0 then Err (Panic ''kfree'')
          else bindR (kfree (P2V (PTE_ADDR x)) s) (\<lambda>s.
               bindR (myproc s) (\<lambda>i.
                 kstore pte 0 (upd_proc i (\<lambda>p. p\<lparr>p_rss := p_rss p - PGSIZE\<rparr>) s))))
       else if has x PTE_SW then
         bindR (dec_swap_slot_refcnt pte s) (\<lambda>(refcnt, s).
           if refcnt = 0 then clear_slot pte s else Ok s)
       else Ok s)"

function dealloc_loop :: "u32 \<Rightarrow> u32 \<Rightarrow> u32 \<Rightarrow> 'a vm_scheme \<Rightarrow> 'a vm_scheme res" where
  "dealloc_loop pgdir a oldsz s =
     (if \<not> a < oldsz then Ok s
      else bindR (walkpgdir pgdir a False s) (\<lambda>(pte, s).
        if pte = 0 then
          (let a' = PGADDR (PDX a + 1) 0 0 - PGSIZE + PGSIZE
           in if a' \<le> a then Err Hang else dealloc_loop pgdir a' oldsz s)
        else bindR (dealloc_page pte s) (\<lambda>s.
          if a + PGSIZE \<le> a then Err Hang else dealloc_loop pgdir (a + PGSIZE) oldsz s)))"
  by pat_completeness auto
termination
  by (relation "measure (\<lambda>(pgdir, a, oldsz, s). unat oldsz - unat a)")
    (auto simp: Let_def word_less_nat_alt not_le)

declare dealloc_loop.simps [simp del]

definition deallocuvm :: "u32 \<Rightarrow> u32 \<Rightarrow> u32 \<Rightarrow> 'a vm_scheme \<Rightarrow> (u32 \<times> 'a vm_scheme) res" where
  "deallocuvm pgdir oldsz newsz s =
     (if newsz \<ge> oldsz then Ok (oldsz, s)
      else bindR (dealloc_loop pgdir (PGROUNDUP newsz) oldsz s) (\<lambda>s. Ok (newsz, s)))"

definition dealloc_page_proc :: "nat \<Rightarrow> u32 \<Rightarrow> 'a vm_scheme \<Rightarrow> 'a vm_scheme res" where
  "dealloc_page_proc p pte s =
     bindR (kload pte s) (\<lambda>x.
       if has x PTE_P then
         (if PTE_ADDR x = 0 then Err (Panic ''kfree'')
          else bindR (kfree (P2V (PTE_ADDR x)) s) (\<lambda>s.
                 kstore pte 0 (upd_proc p (\<lambda>p. p\<lparr>p_rss := p_rss p - PGSIZE\<rparr>) s)))
       else if has x PTE_SW then clear_slot pte s
       else Ok s)"

function dealloc_loop_proc :: "nat \<Rightarrow> u32 \<Rightarrow> u32 \<Rightarrow> u32 \<Rightarrow> 'a vm_scheme \<Rightarrow> 'a vm_scheme res" where
  "dealloc_loop_proc p pgdir a oldsz s =
     (if \<not> a < oldsz then Ok s
      else bindR (walkpgdir pgdir a False s) (\<lambda>(pte, s).
        if pte = 0 then
          (let a' = PGADDR (PDX a + 1) 0 0 - PGSIZE + PGSIZE
           in if a' \<le> a then Err Hang else dealloc_loop_proc p pgdir a' oldsz s)
        else bindR (dealloc_page_proc p pte s) (\<lambda>s.
          if a + PGSIZE \<le> a then Err Hang else dealloc_loop_proc p pgdir (a + PGSIZE) oldsz s)))"
  by pat_completeness auto
termination
  by (relation "measure (\<lambda>(p, pgdir, a, oldsz, s). unat oldsz - unat a)")
    (auto simp: Let_def word_less_nat_alt not_le)

declare dealloc_loop_proc.simps [simp del]

definition deallocuvm_proc :: "nat \<Rightarrow> u32 \<Rightarrow> u32 \<Rightarrow> u32 \<Rightarrow> 'a vm_scheme \<Rightarrow> (u32 \<times> 'a vm_scheme) res" where
  "deallocuvm_proc p pgdir oldsz newsz s =
     (if newsz \<ge> oldsz then Ok (oldsz, s)
      else bindR (dealloc_loop_proc p pgdir (PGROUNDUP newsz) oldsz s) (\<lambda>s. Ok (newsz, s)))"

text \<open>The page tables of a directory, and the directory itself.\<close>

definition free_pgtab :: "u32 \<Rightarrow> nat \<Rightarrow> 'a vm_scheme \<Rightarrow> 'a vm_scheme res" where
  "free_pgtab pgdir i s =
     bindR (kload (pgdir + 4 * of_nat i) s) (\<lambda>pde.
       if has pde PTE_P then kfree (P2V (PTE_ADDR pde)) s else Ok s)"

definition freevm :: "u32 \<Rightarrow> 'a vm_scheme \<Rightarrow> 'a vm_scheme res" where
  "freevm pgdir s =
     (if pgdir = 0 then Err (Panic ''freevm: no pgdir'')
      else bindR (deallocuvm pgdir KERNBASE 0 s) (\<lambda>(_, s).
           bindR (foldR (free_pgtab pgdir) [0..<NPDENTRIES] s) (kfree pgdir)))"

definition freevm_proc :: "nat \<Rightarrow> u32 \<Rightarrow> 'a vm_scheme \<Rightarrow> 'a vm_scheme res" where
  "freevm_proc p pgdir s =
     (if pgdir = 0 then Err (Panic ''freevm: no pgdir'')
      else bindR (deallocuvm_proc p pgdir KERNBASE 0 s) (\<lambda>(_, s).
           bindR (foldR (free_pgtab pgdir) [0..<NPDENTRIES] s) (kfree pgdir)))"

definition clear_zombie_pte :: "u32 \<Rightarrow> nat \<Rightarrow> 'a vm_scheme \<Rightarrow> 'a vm_scheme res" where
  "clear_zombie_pte pgtab j s =
     (let p = pgtab + 4 * of_nat j
      in bindR (kload p s) (\<lambda>x.
           if \<not> has x PTE_P \<and> has x PTE_SW then bindR (clear_slot p s) (kstore p 0) else Ok s))"

definition clear_zombie :: "nat \<Rightarrow> 'a vm_scheme \<Rightarrow> 'a vm_scheme res" where
  "clear_zombie p s =
     (let pgdir = p_pgdir (ptable s p)
      in foldR (\<lambda>i s. bindR (kload (pgdir + 4 * of_nat i) s) (\<lambda>pde.
           if has pde PTE_P
           then foldR (clear_zombie_pte (P2V (PTE_ADDR pde))) [0..<NPTENTRIES] s
           else Ok s)) [0..<NPDENTRIES] s)"

section \<open>The kernel part\<close>

definition kmap :: "'a vm_scheme \<Rightarrow> (u32 \<times> u32 \<times> u32 \<times> u32) list" where
  "kmap s = [(KERNBASE, 0, EXTMEM, PTE_W),
     (KERNLINK, V2P KERNLINK, V2P (kdata s), 0),
     (kdata s, V2P (kdata s), PHYSTOP, PTE_W),
     (DEVSPACE, DEVSPACE, 0, PTE_W)]"

fun setupkvm_loop :: "u32 \<Rightarrow> (u32 \<times> u32 \<times> u32 \<times> u32) list \<Rightarrow> 'a vm_scheme \<Rightarrow> (u32 \<times> 'a vm_scheme) res" where
  "setupkvm_loop pgdir [] s = Ok (pgdir, s)"
| "setupkvm_loop pgdir ((virt, phys_start, phys_end, perm) # ks) s =
     bindR (mappages pgdir virt (phys_end - phys_start) phys_start perm s) (\<lambda>(r, s).
       if r < 0 then bindR (freevm pgdir s) (\<lambda>s. Ok (0, s)) else setupkvm_loop pgdir ks s)"

definition setupkvm :: "'a vm_scheme \<Rightarrow> (u32 \<times> 'a vm_scheme) res" where
  "setupkvm s =
     bindR (kalloc s) (\<lambda>(pgdir, s).
       if pgdir = 0 then Ok (0, s)
       else bindR (kpage_upd pgdir (\<lambda>b. memset b 0 0 (unat PGSIZE)) s) (\<lambda>s.
         if P2V PHYSTOP > DEVSPACE then Err (Panic ''PHYSTOP too high'')
         else setupkvm_loop pgdir (kmap s) s))"

definition switchkvm :: "'a vm_scheme \<Rightarrow> 'a vm_scheme" where
  "switchkvm s = lcr3 (V2P (kpgdir s)) s"

definition kvmalloc :: "'a vm_scheme \<Rightarrow> 'a vm_scheme res" where
  "kvmalloc s = bindR (setupkvm s) (\<lambda>(p, s). Ok (switchkvm (s\<lparr>kpgdir := p\<rparr>)))"

definition switchuvm :: "nat option \<Rightarrow> 'a vm_scheme \<Rightarrow> 'a vm_scheme res" where
  "switchuvm p s =
     (case p of
        None \<Rightarrow> Err (Panic ''switchuvm: no process'')
      | Some i \<Rightarrow>
          if p_kstack (ptable s i) = 0 then Err (Panic ''switchuvm: no kstack'')
          else if p_pgdir (ptable s i) = 0 then Err (Panic ''switchuvm: no pgdir'')
          else Ok (lcr3 (V2P (p_pgdir (ptable s i)))
            (s\<lparr>cpu_gdt := (cpu_gdt s)(SEG_TSS := (SEG16 STS_T32A (ts_addr s) 103 0)\<lparr>sd_s := 0\<rparr>),
               ts_ss0 := of_nat SEG_KDATA * 8,
               ts_esp0 := p_kstack (ptable s i) + KSTACKSIZE,
               ts_iomb := 0xFFFF\<rparr>)))"

section \<open>The user part\<close>

text \<open>The initcode image is the byte array \<open>init\<close>.\<close>

definition inituvm :: "u32 \<Rightarrow> bytes \<Rightarrow> u32 \<Rightarrow> 'a vm_scheme \<Rightarrow> 'a vm_scheme res" where
  "inituvm pgdir init sz s =
     (if sz \<ge> PGSIZE then Err (Panic ''inituvm: more than a page'')
      else
        bindR (kalloc s) (\<lambda>(m, s).
        bindR (kpage_upd m (\<lambda>b. memset b 0 0 (unat PGSIZE)) s) (\<lambda>s.
        bindR (mappages pgdir 0 PGSIZE (V2P m) (PTE_W OR PTE_U) s) (\<lambda>(_, s).
          kpage_upd m (\<lambda>b. blit b 0 init 0 (unat sz)) s))))"

fun alloc_loop :: "u32 \<Rightarrow> u32 \<Rightarrow> u32 \<Rightarrow> u32 list \<Rightarrow> 'a vm_scheme \<Rightarrow> (u32 \<times> 'a vm_scheme) res" where
  "alloc_loop pgdir oldsz newsz [] s = Ok (newsz, s)"
| "alloc_loop pgdir oldsz newsz (a # as) s =
     bindR (kalloc s) (\<lambda>(m, s).
       if m = 0 then bindR (deallocuvm pgdir newsz oldsz s) (\<lambda>(_, s). Ok (0, s))
       else
         bindR (kpage_upd m (\<lambda>b. memset b 0 0 (unat PGSIZE)) s) (\<lambda>s.
         bindR (mappages pgdir a PGSIZE (V2P m) (PTE_W OR PTE_U) s) (\<lambda>(r, s).
           if r < 0 then
             bindR (deallocuvm pgdir newsz oldsz s) (\<lambda>(_, s). bindR (kfree m s) (\<lambda>s. Ok (0, s)))
           else
             bindR (myproc s) (\<lambda>i.
               alloc_loop pgdir oldsz newsz as (upd_proc i (\<lambda>p. p\<lparr>p_rss := p_rss p + PGSIZE\<rparr>) s)))))"

definition allocuvm :: "u32 \<Rightarrow> u32 \<Rightarrow> u32 \<Rightarrow> 'a vm_scheme \<Rightarrow> (u32 \<times> 'a vm_scheme) res" where
  "allocuvm pgdir oldsz newsz s =
     (if newsz \<ge> KERNBASE then Ok (0, s)
      else if newsz < oldsz then Ok (oldsz, s)
      else alloc_loop pgdir oldsz newsz (page_range (PGROUNDUP oldsz) newsz) s)"

definition clearpteu :: "u32 \<Rightarrow> u32 \<Rightarrow> 'a vm_scheme \<Rightarrow> 'a vm_scheme res" where
  "clearpteu pgdir uva s =
     bindR (walkpgdir pgdir uva False s) (\<lambda>(pte, s).
       if pte = 0 then Err (Panic ''clearpteu'')
       else bindR (kload pte s) (\<lambda>x. kstore pte (x AND NOT PTE_U) s))"

fun copyuvm_loop :: "u32 \<Rightarrow> u32 \<Rightarrow> u32 list \<Rightarrow> 'a vm_scheme \<Rightarrow> (u32 \<times> 'a vm_scheme) res" where
  "copyuvm_loop pgdir d [] s = Ok (d, s)"
| "copyuvm_loop pgdir d (i # is) s =
     bindR (walkpgdir pgdir i False s) (\<lambda>(pte, s).
       if pte = 0 then Err (Panic ''copyuvm: pte should exist'')
       else bindR (kload pte s) (\<lambda>x.
         if \<not> has x PTE_P then Err (Panic ''copyuvm: page not present'')
         else bindR (kalloc s) (\<lambda>(m, s).
           if m = 0 then bindR (freevm d s) (\<lambda>s. Ok (0, s))
           else
             bindR (kpage (P2V (PTE_ADDR x)) s) (\<lambda>src.
             bindR (kpage_upd m (\<lambda>b. blit b 0 src 0 (unat PGSIZE)) s) (\<lambda>s.
             bindR (mappages d i PGSIZE (V2P m) (PTE_FLAGS x) s) (\<lambda>(r, s).
               if r < 0 then bindR (kfree m s) (\<lambda>s. bindR (freevm d s) (\<lambda>s. Ok (0, s)))
               else copyuvm_loop pgdir d is s))))))"

definition copyuvm :: "u32 \<Rightarrow> u32 \<Rightarrow> 'a vm_scheme \<Rightarrow> (u32 \<times> 'a vm_scheme) res" where
  "copyuvm pgdir sz s =
     bindR (setupkvm s) (\<lambda>(d, s).
       if d = 0 then Ok (0, s) else copyuvm_loop pgdir d (page_range 0 sz) s)"

text \<open>One more reference to a frame; the table has an entry for every frame below \<open>PHYSTOP\<close>.\<close>

definition inc_refcnt :: "u32 \<Rightarrow> 'a vm_scheme \<Rightarrow> 'a vm_scheme res" where
  "inc_refcnt pa s =
     (if pfn pa \<ge> NFRAME then Err OutOfBounds
      else Ok (s\<lparr>page_to_refcnt := (page_to_refcnt s)(pfn pa := page_to_refcnt s (pfn pa) + 1)\<rparr>))"

fun copyuvm_cow_loop ::
    "u32 \<Rightarrow> u32 \<Rightarrow> nat \<Rightarrow> u32 list \<Rightarrow> 'a vm_scheme \<Rightarrow> (u32 \<times> 'a vm_scheme) res" where
  "copyuvm_cow_loop pgdir d p [] s = Ok (d, lcr3 (V2P pgdir) s)"
| "copyuvm_cow_loop pgdir d p (i # is) s =
     (let s = upd_proc p (\<lambda>q. q\<lparr>p_rss := p_rss q + PGSIZE\<rparr>) s
      in bindR (walkpgdir pgdir i False s) (\<lambda>(pte, s).
        if pte = 0 then Err (Panic ''copyuvm: pte should exist'')
        else bindR (kload pte s) (\<lambda>x.
          if \<not> has x PTE_P then Err (Panic ''copyuvm: page not present'')
          else
            bindR (kstore pte (x AND NOT PTE_W) s) (\<lambda>s.
            bindR (mappages d i PGSIZE (PTE_ADDR x) (PTE_FLAGS x AND NOT PTE_W) s) (\<lambda>(r, s).
              if r < 0 then bindR (freevm d s) (\<lambda>s. Ok (0, s))
              else bindR (inc_refcnt (PTE_ADDR x) s) (\<lambda>s. copyuvm_cow_loop pgdir d p is s))))))"

definition copyuvm_cow :: "u32 \<Rightarrow> u32 \<Rightarrow> nat \<Rightarrow> 'a vm_scheme \<Rightarrow> (u32 \<times> 'a vm_scheme) res" where
  "copyuvm_cow pgdir sz p s =
     bindR (setupkvm s) (\<lambda>(d, s).
       if d = 0 then Ok (0, s) else copyuvm_cow_loop pgdir d p (page_range 0 sz) s)"

section \<open>Access to user memory\<close>

definition uva2ka :: "u32 \<Rightarrow> u32 \<Rightarrow> 'a vm_scheme \<Rightarrow> u32 res" where
  "uva2ka pgdir uva s =
     bindR (walkpgdir pgdir uva False s) (\<lambda>(pte, s).
     bindR (kload pte s) (\<lambda>x.
       if \<not> has x PTE_P then Ok 0
       else if \<not> has x PTE_U then Ok 0
       else Ok (P2V (PTE_ADDR x))))"

function copyout :: "u32 \<Rightarrow> u32 \<Rightarrow> bytes \<Rightarrow> nat \<Rightarrow> u32 \<Rightarrow> 'a vm_scheme \<Rightarrow> (int \<times> 'a vm_scheme) res" where
  "copyout pgdir va buf off len s =
     (if len = 0 then Ok (0, s)
      else
        let va0 = PGROUNDDOWN va
        in bindR (uva2ka pgdir va0 s) (\<lambda>pa0.
          if pa0 = 0 then Ok (-1, s)
          else
            let n = PGSIZE - (va - va0); n = (if n > len then len else n)
            in bindR (kpage_upd pa0 (\<lambda>b. blit b (unat (va - va0)) buf off (unat n)) s) (\<lambda>s.
                 if n = 0 then Err Hang
                 else copyout pgdir (va0 + PGSIZE) buf (off + unat n) (len - n) s)))"
  by pat_completeness auto
termination
proof (relation "measure (\<lambda>(pgdir, va, buf, off, len, s). unat len)", goal_cases)
  case (2 pgdir va buf off len s va0 pa0 n m s')
  then have "m \<noteq> 0" "m \<le> len" by (auto split: if_splits)
  then have "unat (len - m) = unat len - unat m" "0 < unat m" "unat m \<le> unat len"
    by (simp_all add: unat_sub word_le_nat_alt unat_gt_0)
  then have "unat (len - m) < unat len" by linarith
  then show ?case by simp
qed simp

declare copyout.simps [simp del]

end
