(* ===== verification/PageTable.thy ===== *)
theory PageTable
  imports Vm
begin

text \<open>
  Page tables (vm.c) as functions. A well-formed directory is read as a map from page numbers to
  entries; a walk, a store through an entry and mappages are updates of that map, and setupkvm builds
  exactly the map that the table kmap describes.
\<close>

unbundle bit_operations_syntax

section \<open>Page numbers\<close>

abbreviation (input) NVPN :: nat where "NVPN \<equiv> 1048576"

lemma pfn_bound: "pfn va < NVPN"
proof -
  have "unat va < 2 ^ LENGTH(32)" by (rule unsigned_less)
  then show ?thesis by (simp add: pfn_div less_mult_imp_div_less)
qed

lemma drop_bit_mask10: "n \<in> {12, 22} \<Longrightarrow> unat (drop_bit n va AND (0x3FF :: u32)) = unat va div 2 ^ n mod 1024"
proof -
  assume n: "n \<in> {12, 22}"
  have "drop_bit n va AND 0x3FF = take_bit 10 (drop_bit n va)" by (simp add: mask10 take_bit_eq_mask)
  moreover have "unat (take_bit 10 (drop_bit n va)) = unat (drop_bit n va) mod 1024"
    by (simp only: unsigned_take_bit_eq) (simp add: take_bit_eq_mod)
  moreover have "unat (drop_bit n va) = unat va div 2 ^ n"
    using n by (auto simp: drop_bit_eq_div unat_div)
  ultimately show ?thesis by simp
qed

lemma PDX_nat: "PDX va = of_nat (pfn va div 1024)"
proof -
  have "pfn va div 1024 < 1024" using pfn_bound [of va] by (simp add: less_mult_imp_div_less)
  then have "unat (PDX va) = pfn va div 1024"
    by (simp add: PDX_def drop_bit_mask10 pfn_div div_mult2_eq [symmetric])
  then show ?thesis by (metis of_nat_unat ucast_id)
qed

lemma PTX_nat: "PTX va = of_nat (pfn va mod 1024)"
proof -
  have "unat (PTX va) = pfn va mod 1024" by (simp add: PTX_def drop_bit_mask10 pfn_div)
  then show ?thesis by (metis of_nat_unat ucast_id)
qed

section \<open>A page directory as a map from page numbers to entries\<close>

definition pde :: "'a vm_scheme \<Rightarrow> u32 \<Rightarrow> nat \<Rightarrow> u32" where
  "pde s d i = ld32 (mem s (frm d)) (4 * i)"

definition ptab_of :: "u32 \<Rightarrow> u32" where
  "ptab_of e = P2V (PTE_ADDR e)"

text \<open>
  A directory is well formed when its page tables are frames of memory, different from the directory and
  from each other. Then every entry of the table stands for one page number, and \<open>pt\<close> reads it.
\<close>

definition pgdir_wf :: "'a vm_scheme \<Rightarrow> u32 \<Rightarrow> bool" where
  "pgdir_wf s d \<longleftrightarrow> kpg d \<and>
     (\<forall>i < 1024. bit (pde s d i) 0 \<longrightarrow> kpg (ptab_of (pde s d i)) \<and> frm (ptab_of (pde s d i)) \<noteq> frm d \<and>
        (\<forall>j < 1024. j \<noteq> i \<and> bit (pde s d j) 0 \<longrightarrow> frm (ptab_of (pde s d j)) \<noteq> frm (ptab_of (pde s d i))))"

definition owned :: "'a vm_scheme \<Rightarrow> u32 \<Rightarrow> nat set" where
  "owned s d = insert (frm d) {frm (ptab_of (pde s d i)) |i. i < 1024 \<and> bit (pde s d i) 0}"

definition pt :: "'a vm_scheme \<Rightarrow> u32 \<Rightarrow> nat \<Rightarrow> u32" where
  "pt s d n = (if n < NVPN \<and> bit (pde s d (n div 1024)) 0
     then ld32 (mem s (frm (ptab_of (pde s d (n div 1024))))) (4 * (n mod 1024)) else 0)"

definition pte_addr :: "'a vm_scheme \<Rightarrow> u32 \<Rightarrow> nat \<Rightarrow> u32" where
  "pte_addr s d n = ptab_of (pde s d (n div 1024)) + 4 * of_nat (n mod 1024)"

lemma div1024: "n < NVPN \<Longrightarrow> n div 1024 < 1024"
  by (simp add: less_mult_imp_div_less)

lemma frm_d_owned [simp]: "frm d \<in> owned s d"
  by (simp add: owned_def)

lemma ptab_owned: "i < 1024 \<Longrightarrow> bit (pde s d i) 0 \<Longrightarrow> frm (ptab_of (pde s d i)) \<in> owned s d"
  by (auto simp: owned_def)

lemma pde_cong: "mem t (frm d) = mem s (frm d) \<Longrightarrow> pde t d = pde s d"
  by (rule ext) (simp add: pde_def)

lemma pt_cong:
  assumes "\<And>f. f \<in> owned s d \<Longrightarrow> mem t f = mem s f"
  shows "pde t d = pde s d" "pt t d = pt s d" "owned t d = owned s d" "pgdir_wf t d = pgdir_wf s d"
    "pte_addr t d = pte_addr s d"
proof -
  show *: "pde t d = pde s d" using assms by (intro pde_cong) simp
  have "mem t (frm (ptab_of (pde s d (n div 1024)))) = mem s (frm (ptab_of (pde s d (n div 1024))))"
    if "n < NVPN" "bit (pde s d (n div 1024)) 0" for n
    using assms ptab_owned [OF div1024 [OF that(1)] that(2)] by simp
  then show "pt t d = pt s d" by (intro ext) (auto simp: pt_def *)
  show "owned t d = owned s d" "pgdir_wf t d = pgdir_wf s d" "pte_addr t d = pte_addr s d"
    by (auto simp: owned_def pgdir_wf_def pte_addr_def * fun_eq_iff)
qed

lemma wf_kpg: "pgdir_wf s d \<Longrightarrow> kpg d"
  by (simp add: pgdir_wf_def)

lemma wf_ptab: "pgdir_wf s d \<Longrightarrow> n < NVPN \<Longrightarrow> bit (pde s d (n div 1024)) 0 \<Longrightarrow> kpg (ptab_of (pde s d (n div 1024)))"
  using div1024 by (simp add: pgdir_wf_def)

lemma kload_pde: "pgdir_wf s d \<Longrightarrow> kload (d + 4 * PDX va) s = Ok (pde s d (pfn va div 1024))"
  using kload_word [OF wf_kpg div1024 [OF pfn_bound]] by (simp add: PDX_nat pde_def)

lemma walk_noalloc:
  "pgdir_wf s d \<Longrightarrow> walkpgdir d va False s
     = Ok (if bit (pde s d (pfn va div 1024)) 0 then pte_addr s d (pfn va) else 0, s)"
  by (simp add: walkpgdir_def kload_pde pte_addr_def ptab_of_def PTX_nat)

lemma walk0:
  "pgdir_wf s d \<Longrightarrow> walkpgdir0 d va s
     = Ok (if bit (pde s d (pfn va div 1024)) 0 then pte_addr s d (pfn va) else 0)"
  by (simp add: walkpgdir0_def kload_pde pte_addr_def ptab_of_def PTX_nat)

lemma walk_present:
  "pgdir_wf s d \<Longrightarrow> bit (pde s d (pfn va div 1024)) 0 \<Longrightarrow> walkpgdir d va alloc s = Ok (pte_addr s d (pfn va), s)"
  by (simp add: walkpgdir_def kload_pde pte_addr_def ptab_of_def PTX_nat)

lemma kload_pte:
  "pgdir_wf s d \<Longrightarrow> n < NVPN \<Longrightarrow> bit (pde s d (n div 1024)) 0 \<Longrightarrow> kload (pte_addr s d n) s = Ok (pt s d n)"
  using kload_word [OF wf_ptab, of s d n "n mod 1024" s] by (simp add: pte_addr_def pt_def)

lemma pte_addr_nonzero:
  "pgdir_wf s d \<Longrightarrow> n < NVPN \<Longrightarrow> bit (pde s d (n div 1024)) 0 \<Longrightarrow> pte_addr s d n \<noteq> 0"
  using page_word(1) [OF wf_ptab, of s d n "n mod 1024"] by (auto simp: pte_addr_def kptr_def V2P_def)

lemma pt_present: "bit (pt s d n) 0 \<Longrightarrow> n < NVPN \<and> bit (pde s d (n div 1024)) 0"
  by (auto simp: pt_def split: if_splits)

text \<open>A store through the address of an entry changes that entry alone.\<close>

lemma kstore_pte:
  assumes wf: "pgdir_wf s d" and n: "n < NVPN" and p: "bit (pde s d (n div 1024)) 0"
  obtains s' where "kstore (pte_addr s d n) v s = Ok s'" "mem_frame s s'" "pgdir_wf s' d"
    "owned s' d = owned s d" "pde s' d = pde s d" "pt s' d = (pt s d)(n := v)"
    "\<forall>f. f \<notin> owned s d - {frm d} \<longrightarrow> mem s' f = mem s f"
    "freelist s' = freelist s" "num_free_pages s' = num_free_pages s" "page_to_refcnt s' = page_to_refcnt s"
proof -
  let ?T = "ptab_of (pde s d (n div 1024))"
  let ?s' = "s\<lparr>mem := (mem s)(frm ?T := st32 (mem s (frm ?T)) (4 * (n mod 1024)) v)\<rparr>"
  have T: "kpg ?T" "frm ?T \<noteq> frm d" using wf n p div1024 by (auto simp: pgdir_wf_def)
  have ok: "kstore (pte_addr s d n) v s = Ok ?s'"
    using kstore_word [OF T(1), of "n mod 1024" v s] by (simp add: pte_addr_def)
  have pde: "pde ?s' d = pde s d" using T by (intro pde_cong) simp
  have wf': "pgdir_wf ?s' d" and ow: "owned ?s' d = owned s d" using wf by (simp_all add: pgdir_wf_def owned_def pde)
  have "pt ?s' d m = ((pt s d)(n := v)) m" for m
  proof (cases "m < NVPN \<and> bit (pde s d (m div 1024)) 0")
    case True
    have "frm (ptab_of (pde s d (m div 1024))) = frm ?T \<longleftrightarrow> m div 1024 = n div 1024"
      using wf p n True div1024 unfolding pgdir_wf_def by metis
    moreover have "m = n" if "m div 1024 = n div 1024" "m mod 1024 = n mod 1024"
      using that by (metis div_mult_mod_eq)
    ultimately show ?thesis using True by (auto simp: pt_def pde byte_simps)
  qed (use n p in \<open>auto simp: pt_def pde\<close>)
  then have pt': "pt ?s' d = (pt s d)(n := v)" by blast
  have "frm ?T \<in> owned s d - {frm d}" using ptab_owned [OF div1024 [OF n] p] T by simp
  then show thesis by (intro that [OF ok _ wf' ow pde pt']) auto
qed

section \<open>Mapping\<close>

text \<open>A directory beside a free list: no free page is the directory or one of its page tables.\<close>

definition space :: "'a vm_scheme \<Rightarrow> u32 \<Rightarrow> u32 list \<Rightarrow> bool" where
  "space s d fs \<longleftrightarrow> pgdir_wf s d \<and> free_pages s fs \<and> frm ` set fs \<inter> owned s d = {}"

text \<open>
  \<open>grown s d us s'\<close>: the directory took the pages \<open>us\<close> for page tables. Each has one reference, and no
  frame outside the directory changed.
\<close>

definition grown :: "'a vm_scheme \<Rightarrow> u32 \<Rightarrow> u32 list \<Rightarrow> 'a vm_scheme \<Rightarrow> bool" where
  "grown s d us t \<longleftrightarrow> mem_frame s t \<and> owned t d = owned s d \<union> frm ` set us \<and>
     page_to_refcnt t = (\<lambda>f. if f \<in> frm ` set us then 1 else page_to_refcnt s f) \<and>
     (\<forall>f. f \<notin> owned t d \<longrightarrow> mem t f = mem s f)"

lemma grown_refl [simp]: "grown s d [] s"
  by (simp add: grown_def)

lemma grown_trans: "grown s d us t \<Longrightarrow> grown t d vs u \<Longrightarrow> grown s d (us @ vs) u"
  unfolding grown_def by (auto intro: mem_frame_trans simp: fun_eq_iff)

lemma grownI:
  assumes "mem_frame s t" "owned t d = owned s d" "page_to_refcnt t = page_to_refcnt s"
    "\<And>f. f \<notin> owned s d - {frm d} \<Longrightarrow> mem t f = mem s f"
  shows "grown s d [] t"
  using assms by (auto simp: grown_def)

lemma spaceD: "space s d fs \<Longrightarrow> pgdir_wf s d" "space s d fs \<Longrightarrow> free_pages s fs"
  by (simp_all add: space_def)

lemma free_frms: "free_pages s (us @ fs) \<Longrightarrow> frm ` set us \<inter> frm ` set fs = {}"
  using frm_eq_iff by (auto simp: free_pages_def page_ok_def)

lemma PTE_new_table:
  assumes "kpg p"
  shows "bit (V2P p OR PTE_P OR PTE_W OR PTE_U) 0" "ptab_of (V2P p OR PTE_P OR PTE_W OR PTE_U) = p"
proof -
  have a: "pg_aligned (V2P p)" using assms by (simp add: kpg_def)
  show "bit (V2P p OR PTE_P OR PTE_W OR PTE_U) 0" by (simp add: bit_or_iff bit_flags)
  have "PTE_ADDR (V2P p OR (PTE_P OR PTE_W OR PTE_U)) = V2P p"
    using a by (intro PTE_ADDR_or flags_or) auto
  then show "ptab_of (V2P p OR PTE_P OR PTE_W OR PTE_U) = p"
    by (simp add: ptab_of_def or.assoc)
qed

text \<open>Installing a page table of zeros leaves the entries as they were, now with a place for each.\<close>

lemma new_table:
  assumes wf: "pgdir_wf s d" and p: "kpg p" "frm p \<notin> owned s d" and i: "i < 1024"
    and np: "\<not> bit (pde s d i) 0"
    and mem': "mem t = (mem s)(frm p := memset (mem s (frm p)) 0 0 4096,
      frm d := st32 (mem s (frm d)) (4 * i) (V2P p OR PTE_P OR PTE_W OR PTE_U))"
  shows "pde t d = (\<lambda>j. if j = i then V2P p OR PTE_P OR PTE_W OR PTE_U else pde s d j)" "pgdir_wf t d"
    "owned t d = insert (frm p) (owned s d)" "pt t d = pt s d"
proof -
  let ?e = "V2P p OR PTE_P OR PTE_W OR PTE_U"
  show pde: "pde t d = (\<lambda>j. if j = i then ?e else pde s d j)"
    by (rule ext) (simp add: pde_def mem' byte_simps)
  note e = PTE_new_table [OF p(1)]
  have pd: "frm p \<noteq> frm d" using p(2) by (auto simp: owned_def)
  have pn: "frm (ptab_of (pde s d j)) \<noteq> frm p" if "j < 1024" "bit (pde s d j) 0" for j
    using ptab_owned [OF that] p by auto
  show wf': "pgdir_wf t d"
    using wf pn e p pd unfolding pgdir_wf_def by (simp add: pde) metis
  show "owned t d = insert (frm p) (owned s d)"
  proof
    show "owned t d \<subseteq> insert (frm p) (owned s d)" using e by (auto simp: owned_def pde split: if_splits)
    have "frm (ptab_of (pde s d j)) \<in> owned t d" if "j < 1024" "bit (pde s d j) 0" for j
      using ptab_owned [of j t d] that np by (cases "j = i") (auto simp: pde)
    then have "owned s d \<subseteq> owned t d" by (auto simp: owned_def [of s d])
    then show "insert (frm p) (owned s d) \<subseteq> owned t d" using ptab_owned [OF i, of t d] e by (simp add: pde)
  qed
  have z: "ld32 (memset (mem s (frm p)) 0 0 4096) (4 * (m mod 1024)) = 0" for m
    by (simp add: memset_eq_fill ld32_fill0)
  have "pt t d m = pt s d m" for m
  proof (cases "m div 1024 = i")
    case True then show ?thesis using e np pd z by (simp add: pt_def pde mem')
  next
    case False
    have "frm (ptab_of (pde s d (m div 1024))) \<noteq> frm p" "frm (ptab_of (pde s d (m div 1024))) \<noteq> frm d"
      if "m < NVPN" "bit (pde s d (m div 1024)) 0"
      using that pn div1024 wf by (auto simp: pgdir_wf_def)
    then show ?thesis using False by (auto simp: pt_def pde mem')
  qed
  then show "pt t d = pt s d" by blast
qed

lemma walk_new_table:
  assumes sp: "space s d (p # fs)" and np: "\<not> bit (pde s d (pfn va div 1024)) 0"
  obtains s' where "walkpgdir d va True s = Ok (pte_addr s' d (pfn va), s')" "space s' d fs" "grown s d [p] s'"
    "\<forall>j. bit (pde s' d j) 0 \<longleftrightarrow> bit (pde s d j) 0 \<or> j = pfn va div 1024" "pt s' d = pt s d"
proof -
  let ?i = "pfn va div 1024" and ?e = "V2P p OR PTE_P OR PTE_W OR PTE_U"
  have wf: "pgdir_wf s d" and fp: "free_pages s (p # fs)" and dj: "frm p \<notin> owned s d" "frm ` set fs \<inter> owned s d = {}"
    using sp by (auto simp: space_def)
  have p: "kpg p" using fp by (simp add: free_pages_def page_ok_def)
  have i: "?i < 1024" by (rule div1024 [OF pfn_bound])
  have pd: "frm p \<noteq> frm d" using dj by (auto simp: owned_def)
  have pf: "frm p \<notin> frm ` set fs" using free_frms [of s "[p]" fs] fp by simp
  from kalloc_free [OF fp] obtain s1 where s1: "kalloc s = Ok (p, s1)" "free_pages s1 fs" "mem_frame s s1"
    "mem s1 = mem s" "page_to_refcnt s1 = (page_to_refcnt s)(frm p := 1)" .
  define s' where "s' = s1\<lparr>mem := (mem s)(frm p := memset (mem s (frm p)) 0 0 4096,
      frm d := st32 (mem s (frm d)) (4 * ?i) ?e)\<rparr>"
  have ok: "walkpgdir d va True s = Ok (p + 4 * PTX va, s')"
    using np pd kpg_nonzero [OF p] kload_pde [OF wf, of va]
    by (simp add: kstore_word [OF wf_kpg [OF wf] i] walkpgdir_def s1 kpage_upd_page [OF p] PDX_nat s'_def
        fun_upd_twist [OF pd])
  have mem': "mem s' = (mem s)(frm p := memset (mem s (frm p)) 0 0 4096, frm d := st32 (mem s (frm d)) (4 * ?i) ?e)"
    by (simp add: s'_def)
  note n = new_table [OF wf p dj(1) i np mem'] and e = PTE_new_table [OF p]
  have fr: "mem_frame s s'" using s1(3) mem_frame_upd(1) unfolding s'_def by (rule mem_frame_trans)
  have "frm q \<noteq> frm d \<and> frm q \<noteq> frm p" if "q \<in> set fs" for q
    using dj(2) imageI [OF that, of frm] pf frm_d_owned [of d s] by (metis IntI empty_iff)
  then have fp': "free_pages s' fs"
    using s1 by (intro free_pages_mem [OF s1(2)]) (auto simp: s'_def)
  have "space s' d fs" using n fp' dj pf by (auto simp: space_def)
  moreover have "grown s d [p] s'" using fr n(3) s1(5) by (auto simp: grown_def s'_def)
  ultimately show thesis using ok e n by (intro that [of s']) (auto simp: pte_addr_def PTX_nat)
qed

text \<open>The walk of mappages, with or without a new table.\<close>

lemma walk_alloc:
  assumes sp: "space s d fs" and av: "fs \<noteq> [] \<or> bit (pde s d (pfn va div 1024)) 0"
  obtains s' us fs' where "walkpgdir d va True s = Ok (pte_addr s' d (pfn va), s')" "fs = us @ fs'" "length us = (if bit (pde s d (pfn va div 1024)) 0 then 0 else 1)"
    "space s' d fs'" "grown s d us s'" "\<forall>j. bit (pde s' d j) 0 \<longleftrightarrow> bit (pde s d j) 0 \<or> j = pfn va div 1024" "pt s' d = pt s d"
proof (cases "bit (pde s d (pfn va div 1024)) 0")
  case True
  show thesis
    by (rule that [of s "[]" fs]) (use True sp walk_present [OF spaceD(1) [OF sp] True] in auto)
next
  case False
  then obtain p fs' where fs: "fs = p # fs'" using av by (cases fs) auto
  from walk_new_table [OF sp [unfolded fs] False] obtain s' where
    "walkpgdir d va True s = Ok (pte_addr s' d (pfn va), s')" "space s' d fs'" "grown s d [p] s'"
    "\<forall>j. bit (pde s' d j) 0 \<longleftrightarrow> bit (pde s d j) 0 \<or> j = pfn va div 1024" "pt s' d = pt s d" .
  then show thesis by (intro that [of s' "[p]" fs']) (simp_all add: fs False)
qed

lemma map_page_spec:
  assumes sp: "space s d fs" and av: "fs \<noteq> [] \<or> bit (pde s d (pfn va div 1024)) 0"
    and un: "\<not> bit (pt s d (pfn va)) 0"
  obtains s' us fs' where "map_page d va pa perm s = Ok (0, s')" "fs = us @ fs'" "length us = (if bit (pde s d (pfn va div 1024)) 0 then 0 else 1)"
    "space s' d fs'" "grown s d us s'" "\<forall>j. bit (pde s' d j) 0 \<longleftrightarrow> bit (pde s d j) 0 \<or> j = pfn va div 1024"
    "pt s' d = (pt s d)(pfn va := pa OR perm OR PTE_P)"
proof -
  from walk_alloc [OF sp av] obtain s1 us fs' where s1: "walkpgdir d va True s = Ok (pte_addr s1 d (pfn va), s1)"
    "fs = us @ fs'" "length us = (if bit (pde s d (pfn va div 1024)) 0 then 0 else 1)" "space s1 d fs'" "grown s d us s1"
    "\<forall>j. bit (pde s1 d j) 0 \<longleftrightarrow> bit (pde s d j) 0 \<or> j = pfn va div 1024" "pt s1 d = pt s d" .
  have pr: "bit (pde s1 d (pfn va div 1024)) 0" using s1(6) by simp
  have wf: "pgdir_wf s1 d" by (rule spaceD [OF s1(4)])
  from kstore_pte [OF wf pfn_bound pr, where v = "pa OR perm OR PTE_P"] obtain s' where s':
    "kstore (pte_addr s1 d (pfn va)) (pa OR perm OR PTE_P) s1 = Ok s'" "mem_frame s1 s'" "pgdir_wf s' d"
    "owned s' d = owned s1 d" "pde s' d = pde s1 d" "pt s' d = (pt s1 d)(pfn va := pa OR perm OR PTE_P)"
    "\<forall>f. f \<notin> owned s1 d - {frm d} \<longrightarrow> mem s' f = mem s1 f"
    "freelist s' = freelist s1" "num_free_pages s' = num_free_pages s1" "page_to_refcnt s' = page_to_refcnt s1" .
  have ok: "map_page d va pa perm s = Ok (0, s')"
    using s1 s' un pte_addr_nonzero [OF wf pfn_bound pr] kload_pte [OF wf pfn_bound pr]
    by (simp add: map_page_def)
  have "frm q \<notin> owned s1 d" if "q \<in> set fs'" for q using s1(4) that by (auto simp: space_def)
  then have "free_pages s' fs'" using s' by (intro free_pages_mem [OF spaceD(2) [OF s1(4)]]) auto
  then have sp': "space s' d fs'" using s1(4) s' by (simp add: space_def)
  have "grown s1 d [] s'" using s' by (intro grownI) auto
  from grown_trans [OF s1(5) this] have "grown s d us s'" by simp
  with s1 s' ok sp' show thesis by (intro that [of s' us fs']) auto
qed

section \<open>Runs of pages\<close>

text \<open>The directory entries that a set of page numbers needs and that are not there yet.\<close>

definition missing :: "'a vm_scheme \<Rightarrow> u32 \<Rightarrow> nat set \<Rightarrow> nat set" where
  "missing s d N = {i \<in> (\<lambda>n. n div 1024) ` N. \<not> bit (pde s d i) 0}"

lemma finite_missing [simp]: "finite N \<Longrightarrow> finite (missing s d N)"
  by (simp add: missing_def)

lemma card_missing_insert:
  assumes "finite M"
  shows "card (missing s d (insert k M)) =
    (if bit (pde s d (k div 1024)) 0 then 0 else 1) + card (missing s d M - {k div 1024})"
proof (cases "bit (pde s d (k div 1024)) 0")
  case True
  then have "missing s d (insert k M) = missing s d M - {k div 1024}" by (auto simp: missing_def)
  with True show ?thesis by simp
next
  case False
  then have "missing s d (insert k M) = insert (k div 1024) (missing s d M - {k div 1024})"
    by (auto simp: missing_def)
  moreover have "card (insert (k div 1024) (missing s d M - {k div 1024})) = Suc (card (missing s d M - {k div 1024}))"
    using assms by (intro card_insert_disjoint) auto
  ultimately show ?thesis using False by simp
qed

lemma pfn_next: "Suc (pfn a) < NVPN \<Longrightarrow> pfn (a + PGSIZE) = Suc (pfn a)"
proof -
  assume "Suc (pfn a) < NVPN"
  then have "unat a + 4096 < 4294967296"
    by (simp add: pfn_div)
  then have "unat (a + PGSIZE) = unat a + 4096" by (simp add: unat_word_ariths)
  then show ?thesis by (simp add: pfn_div)
qed

lemma map_loop_spec:
  assumes "space s d fs" and "pfn a + n < NVPN" and "\<forall>m \<in> {pfn a..pfn a + n}. \<not> bit (pt s d m) 0"
    and "card (missing s d {pfn a..pfn a + n}) \<le> length fs"
  shows "\<exists>s' us fs'. map_loop d n a pa perm s = Ok (0, s') \<and> fs = us @ fs' \<and>
    length us = card (missing s d {pfn a..pfn a + n}) \<and> space s' d fs' \<and> grown s d us s' \<and>
    pt s' d = (\<lambda>m. if m \<in> {pfn a..pfn a + n} then (pa + of_nat (m - pfn a) * PGSIZE) OR perm OR PTE_P else pt s d m) \<and>
    (\<forall>j. bit (pde s' d j) 0 \<longleftrightarrow> bit (pde s d j) 0 \<or> j \<in> (\<lambda>m. m div 1024) ` {pfn a..pfn a + n})"
  using assms
proof (induction n arbitrary: s a pa fs)
  case 0
  have m: "missing s d {pfn a..pfn a + 0} = (if bit (pde s d (pfn a div 1024)) 0 then {} else {pfn a div 1024})"
    by (auto simp: missing_def)
  then have av: "fs \<noteq> [] \<or> bit (pde s d (pfn a div 1024)) 0" and un: "\<not> bit (pt s d (pfn a)) 0"
    using 0 by (auto split: if_splits)
  from map_page_spec [OF 0(1) av un, of pa perm] obtain s' us fs' where
    "map_page d a pa perm s = Ok (0, s')" "fs = us @ fs'"
    "length us = (if bit (pde s d (pfn a div 1024)) 0 then 0 else 1)"
    "space s' d fs'" "grown s d us s'"
    "\<forall>j. bit (pde s' d j) 0 \<longleftrightarrow> bit (pde s d j) 0 \<or> j = pfn a div 1024"
    "pt s' d = (pt s d)(pfn a := pa OR perm OR PTE_P)" .
  then show ?case unfolding m
    by (intro exI [of _ s'] exI [of _ us] exI [of _ fs']) (auto simp: fun_eq_iff)
next
  case (Suc n)
  let ?N = "{pfn a..pfn a + Suc n}" and ?a = "a + PGSIZE" and ?i = "pfn a div 1024"
  let ?M = "{pfn ?a..pfn ?a + n}"
  have a: "pfn ?a = Suc (pfn a)" using Suc.prems(2) by (intro pfn_next) simp
  have N: "?N = insert (pfn a) ?M" "pfn a \<notin> ?M" by (auto simp: a)
  have c: "card (missing s d ?N) = (if bit (pde s d ?i) 0 then 0 else 1) + card (missing s d ?M - {?i})"
    unfolding N by (rule card_missing_insert) simp
  have av: "fs \<noteq> [] \<or> bit (pde s d ?i) 0" using Suc.prems(4) c by (auto split: if_splits)
  from map_page_spec [OF Suc.prems(1) av, of pa perm] Suc.prems(3) obtain s1 us fs1 where s1:
    "map_page d a pa perm s = Ok (0, s1)" "fs = us @ fs1" "length us = (if bit (pde s d ?i) 0 then 0 else 1)"
    "space s1 d fs1" "grown s d us s1" "\<forall>j. bit (pde s1 d j) 0 \<longleftrightarrow> bit (pde s d j) 0 \<or> j = ?i"
    "pt s1 d = (pt s d)(pfn a := pa OR perm OR PTE_P)" by auto
  have m1: "missing s1 d ?M = missing s d ?M - {?i}" using s1(6) by (auto simp: missing_def)
  have "pfn ?a + n < NVPN" "\<forall>m \<in> ?M. \<not> bit (pt s1 d m) 0" "card (missing s1 d ?M) \<le> length fs1"
    using Suc.prems(2-4) s1 c m1 a N by auto
  from Suc.IH [OF s1(4) this, of "pa + PGSIZE"] obtain s' vs fs' where s':
    "map_loop d n ?a (pa + PGSIZE) perm s1 = Ok (0, s')" "fs1 = vs @ fs'" "length vs = card (missing s1 d ?M)"
    "space s' d fs'" "grown s1 d vs s'"
    "pt s' d = (\<lambda>m. if m \<in> ?M then (pa + PGSIZE + of_nat (m - pfn ?a) * PGSIZE) OR perm OR PTE_P else pt s1 d m)"
    "\<forall>j. bit (pde s' d j) 0 \<longleftrightarrow> bit (pde s1 d j) 0 \<or> j \<in> (\<lambda>m. m div 1024) ` ?M" by blast
  have "pa + PGSIZE + of_nat (m - pfn ?a) * PGSIZE = pa + of_nat (m - pfn a) * PGSIZE" if "m \<in> ?M" for m
  proof -
    have "m - pfn a = Suc (m - pfn ?a)" using that a by auto
    then show ?thesis by (simp add: algebra_simps)
  qed
  then have "pt s' d = (\<lambda>m. if m \<in> ?N then (pa + of_nat (m - pfn a) * PGSIZE) OR perm OR PTE_P else pt s d m)"
    using s'(6) s1(7) N a by (auto simp: fun_eq_iff)
  moreover have "\<forall>j. bit (pde s' d j) 0 \<longleftrightarrow> bit (pde s d j) 0 \<or> j \<in> (\<lambda>m. m div 1024) ` ?N"
    using s'(7) s1(6) N by auto
  moreover have "grown s d (us @ vs) s'" using s1(5) s'(5) by (rule grown_trans)
  moreover have "map_loop d (Suc n) a pa perm s = Ok (0, s')" using s1 s' by simp
  ultimately show ?case using s1(2,3) s'(2-4) c m1
    by (intro exI [of _ s'] exI [of _ "us @ vs"] exI [of _ fs']) simp
qed

lemma PGROUNDDOWN_eq: "PGROUNDDOWN x = PTE_ADDR x"
  by (simp add: PGROUNDDOWN_def PTE_ADDR_def)

lemma unat_PTE_ADDR: "unat (PTE_ADDR x) = 4096 * pfn x"
  using pfn_mult [of "PTE_ADDR x"] by simp

lemma PTE_ADDR_aligned: "pg_aligned x \<Longrightarrow> PTE_ADDR x = x"
  by (metis pfn_mult unat_PTE_ADDR word_unat_eq_iff)

lemma unat_of_nat_small: "m < 4294967296 \<Longrightarrow> unat (of_nat m :: u32) = m"
  by (simp add: unat_of_nat)

lemma mappages_run:
  assumes al: "pg_aligned va" and n: "pfn va + n < NVPN" and sz: "unat sz = 4096 * Suc n"
  shows "mappages d va sz pa perm s = map_loop d n va pa perm s"
proof -
  let ?l = "va + sz - 1"
  have "1 \<le> unat va + unat sz" using sz by simp
  then have "va + sz - 1 = of_nat (unat va + unat sz - 1)"
    by (simp only: of_nat_diff of_nat_add of_nat_1 of_nat_unat ucast_id)
  moreover have "unat va + unat sz - 1 < 4294967296" using n sz pfn_mult [OF al] by simp
  ultimately have l: "unat ?l = unat va + unat sz - 1" by (metis unat_of_nat_small)
  then have "unat ?l = 4095 + (pfn va + n) * 4096" using sz pfn_mult [OF al] by simp
  then have p: "pfn ?l = pfn va + n" unfolding pfn_div by (simp only: div_mult_self1)
  have "unat (PTE_ADDR ?l - va) = unat (PTE_ADDR ?l) - unat va"
    using p pfn_mult [OF al] unat_PTE_ADDR [of ?l] by (intro unat_sub) (simp add: word_le_nat_alt)
  also have "\<dots> = 4096 * n" using p pfn_mult [OF al] unat_PTE_ADDR [of ?l] by simp
  finally have "pfn (PTE_ADDR ?l - va) = n" by (simp add: pfn_div)
  then show ?thesis by (simp add: mappages_def Let_def PGROUNDDOWN_eq PTE_ADDR_aligned [OF al])
qed

lemma mappages_one: "pg_aligned va \<Longrightarrow> mappages d va PGSIZE pa perm s = map_page d va pa perm s"
  using mappages_run [of va 0 PGSIZE] pfn_bound [of va] by simp

section \<open>The kernel part\<close>

text \<open>The entries of a kernel page table, as a function of the linker symbol data.\<close>

definition kvm_pt :: "u32 \<Rightarrow> nat \<Rightarrow> u32" where
  "kvm_pt data m =
     (if m \<in> {0x80000..<0x80100} then of_nat (m - 0x80000) * PGSIZE OR PTE_W OR PTE_P
      else if m \<in> {0x80100..<pfn data} then of_nat (m - 0x80000) * PGSIZE OR PTE_P
      else if m \<in> {pfn data..<0x80400} then of_nat (m - 0x80000) * PGSIZE OR PTE_W OR PTE_P
      else if m \<in> {0xFE000..<0x100000} then of_nat m * PGSIZE OR PTE_W OR PTE_P
      else 0)"

definition layout_ok :: "'a vm_scheme \<Rightarrow> bool" where
  "layout_ok s \<longleftrightarrow> pg_aligned (kdata s) \<and> KERNLINK < kdata s \<and> kdata s < P2V PHYSTOP"

lemma map_run_spec:
  assumes sp: "space s d fs" and al: "pg_aligned va" and n: "pfn va + n < NVPN" and sz: "unat sz = 4096 * Suc n"
    and un: "\<forall>m \<in> {pfn va..pfn va + n}. \<not> bit (pt s d m) 0"
    and ms: "missing s d {pfn va..pfn va + n} \<subseteq> I" "finite I" "card I \<le> length fs"
  shows "\<exists>s' us fs'. mappages d va sz pa perm s = Ok (0, s') \<and> fs = us @ fs' \<and> length us \<le> card I \<and>
    space s' d fs' \<and> grown s d us s' \<and>
    pt s' d = (\<lambda>m. if m \<in> {pfn va..pfn va + n} then (pa + of_nat (m - pfn va) * PGSIZE) OR perm OR PTE_P else pt s d m) \<and>
    (\<forall>j. bit (pde s' d j) 0 \<longleftrightarrow> bit (pde s d j) 0 \<or> j \<in> (\<lambda>m. m div 1024) ` {pfn va..pfn va + n})"
proof -
  have c: "card (missing s d {pfn va..pfn va + n}) \<le> card I" using ms by (simp add: card_mono)
  then have "card (missing s d {pfn va..pfn va + n}) \<le> length fs" using ms by simp
  from map_loop_spec [OF sp n un this, of pa perm] show ?thesis
    unfolding mappages_run [OF al n sz]
    by (elim exE conjE, intro exI conjI) (assumption | simp add: c)+
qed

text \<open>The directory in the making: zeroed, then filled by the four runs of kmap.\<close>

lemma zero_dir:
  assumes fp: "free_pages s (d # fs)"
  obtains s1 s' where "kalloc s = Ok (d, s1)"
    "kpage_upd d (\<lambda>b. memset b 0 0 (unat PGSIZE)) s1 = Ok s'" "mem_frame s s'" "free_pages s' fs"
    "space s' d fs" "owned s' d = {frm d}" "pt s' d = (\<lambda>_. 0)" "\<forall>j < 1024. \<not> bit (pde s' d j) 0"
    "\<forall>f. f \<noteq> frm d \<longrightarrow> mem s' f = mem s f" "page_to_refcnt s' = (page_to_refcnt s)(frm d := 1)"
proof -
  have d: "kpg d" using fp by (simp add: free_pages_def page_ok_def)
  have df: "frm d \<notin> frm ` set fs" using free_frms [of s "[d]" fs] fp by simp
  from kalloc_free [OF fp] obtain s1 where s1: "kalloc s = Ok (d, s1)" "free_pages s1 fs" "mem_frame s s1"
    "mem s1 = mem s" "page_to_refcnt s1 = (page_to_refcnt s)(frm d := 1)" .
  define s' where "s' = s1\<lparr>mem := (mem s1)(frm d := memset (mem s1 (frm d)) 0 0 4096)\<rparr>"
  have ok: "kpage_upd d (\<lambda>b. memset b 0 0 (unat PGSIZE)) s1 = Ok s'" by (simp add: kpage_upd_page [OF d] s'_def)
  have fr: "mem_frame s s'" using s1(3) mem_frame_upd(1) unfolding s'_def by (rule mem_frame_trans)
  have sel: "mem s' = (mem s1)(frm d := memset (mem s1 (frm d)) 0 0 4096)" "freelist s' = freelist s1"
    "num_free_pages s' = num_free_pages s1" "page_to_refcnt s' = page_to_refcnt s1" "mem_frame s1 s'"
    by (simp_all add: s'_def)
  have z: "pde s' d j = 0" if "j < 1024" for j using that by (simp add: pde_def sel memset_eq_fill ld32_fill0)
  then have wf: "pgdir_wf s' d" and ow: "owned s' d = {frm d}" using d by (auto simp: pgdir_wf_def owned_def)
  have "pt s' d n = 0" for n using z [OF div1024, of n] by (cases "n < NVPN") (auto simp: pt_def)
  then have pt0: "pt s' d = (\<lambda>_. 0)" by blast
  have "\<forall>p \<in> set fs. frm p \<noteq> frm d" using df by (metis imageI)
  then have fp': "free_pages s' fs" using sel by (intro free_pages_mem [OF s1(2)]) auto
  then have "space s' d fs" using wf ow df by (simp add: space_def)
  with z show thesis by (intro that [OF s1(1) ok fr fp' _ ow pt0]) (auto simp: sel s1)
qed

lemma aligned_of_nat: "pg_aligned x \<Longrightarrow> x = of_nat (pfn x) * PGSIZE"
proof -
  assume "pg_aligned x"
  then have "of_nat (unat x) = (of_nat (4096 * pfn x) :: u32)" by (simp only: pfn_mult)
  then show ?thesis by (simp only: of_nat_unat ucast_id of_nat_mult of_nat_numeral mult.commute)
qed

lemma page_add: "c \<le> b \<Longrightarrow> b \<le> m \<Longrightarrow> of_nat (b - c) * PGSIZE + of_nat (m - b) * PGSIZE = of_nat (m - c) * PGSIZE"
proof -
  assume "c \<le> b" "b \<le> m"
  then have "m - c = (b - c) + (m - b)" by simp
  then show ?thesis by (simp only: of_nat_add distrib_right)
qed

lemma V2P_page: "pg_aligned va \<Longrightarrow> 0x80000 \<le> pfn va \<Longrightarrow> V2P va = of_nat (pfn va - 0x80000) * PGSIZE"
proof -
  assume a: "pg_aligned va" and le: "0x80000 \<le> pfn va"
  have "V2P va = of_nat (pfn va) * PGSIZE - of_nat 0x80000 * PGSIZE"
    using aligned_of_nat [OF a] by (simp add: V2P_def)
  also have "\<dots> = of_nat (pfn va - 0x80000) * PGSIZE"
    using le by (simp only: of_nat_diff left_diff_distrib)
  finally show ?thesis .
qed

lemma setupkvm_run1:
  assumes sp: "space s d fs" and z: "pt s d = (\<lambda>_. 0)" and fs: "1 \<le> length fs"
  shows "\<exists>s' us fs'. mappages d KERNBASE (EXTMEM - 0) 0 PTE_W s = Ok (0, s') \<and> fs = us @ fs' \<and> length us \<le> 1 \<and>
    space s' d fs' \<and> grown s d us s' \<and> bit (pde s' d 512) 0 \<and>
    pt s' d = (\<lambda>m. if m \<in> {0x80000..<0x80100} then of_nat (m - 0x80000) * PGSIZE OR PTE_W OR PTE_P else 0)"
proof -
  have p: "pfn KERNBASE = 0x80000" by (simp add: pfn_div)
  have "missing s d {pfn KERNBASE..pfn KERNBASE + 255} \<subseteq> {512}"
    unfolding p by (auto simp: missing_def)
  from map_run_spec [OF sp _ _ _ _ this, of EXTMEM 0 PTE_W] obtain s' us fs' where s':
    "mappages d KERNBASE EXTMEM 0 PTE_W s = Ok (0, s')" "fs = us @ fs'" "length us \<le> 1" "space s' d fs'"
    "grown s d us s'"
    "pt s' d = (\<lambda>m. if m \<in> {pfn KERNBASE..pfn KERNBASE + 255}
       then (0 + of_nat (m - pfn KERNBASE) * PGSIZE) OR PTE_W OR PTE_P else pt s d m)"
    "\<forall>j. bit (pde s' d j) 0 \<longleftrightarrow> bit (pde s d j) 0 \<or> j \<in> (\<lambda>m. m div 1024) ` {pfn KERNBASE..pfn KERNBASE + 255}"
    using fs z p by (auto simp: pg_aligned_unat)
  have "512 = (0x80000 :: nat) div 1024" by simp
  then have "512 \<in> (\<lambda>m. m div 1024) ` {pfn KERNBASE..pfn KERNBASE + 255}" unfolding p by (rule image_eqI) simp
  then have "bit (pde s' d 512) 0" using s'(7) by simp
  moreover have "pt s' d = (\<lambda>m. if m \<in> {0x80000..<0x80100} then of_nat (m - 0x80000) * PGSIZE OR PTE_W OR PTE_P else 0)"
    unfolding s'(6) p z by (auto simp: fun_eq_iff)
  ultimately show ?thesis using s'(1-5) by auto
qed

text \<open>A run inside the directory entry 512, which the first run has filled.\<close>

lemma setupkvm_run2:
  assumes sp: "space s d fs" and pd: "bit (pde s d 512) 0" and al: "pg_aligned va" "pg_aligned ve"
    and r: "0x80000 \<le> pfn va" "pfn va < pfn ve" "pfn ve \<le> 0x80400"
    and un: "\<forall>m \<in> {pfn va..<pfn ve}. \<not> bit (pt s d m) 0"
  shows "\<exists>s'. mappages d va (V2P ve - V2P va) (V2P va) perm s = Ok (0, s') \<and> space s' d fs \<and> grown s d [] s' \<and>
    (\<forall>j. bit (pde s d j) 0 \<longrightarrow> bit (pde s' d j) 0) \<and>
    pt s' d = (\<lambda>m. if m \<in> {pfn va..<pfn ve} then of_nat (m - 0x80000) * PGSIZE OR perm OR PTE_P else pt s d m)"
proof -
  define n where "n = pfn ve - pfn va - 1"
  have n: "pfn va + n < NVPN" "{pfn va..pfn va + n} = {pfn va..<pfn ve}" using r by (auto simp: n_def)
  have "V2P ve - V2P va = ve - va" by (simp add: V2P_def)
  moreover have "unat (ve - va) = unat ve - unat va"
    using r pfn_mult [OF al(1)] pfn_mult [OF al(2)] by (intro unat_sub) (simp add: word_le_nat_alt)
  ultimately have sz: "unat (V2P ve - V2P va) = 4096 * Suc n"
    using r pfn_mult [OF al(1)] pfn_mult [OF al(2)] by (simp add: n_def)
  have "m div 1024 = 512" if "m \<in> {pfn va..<pfn ve}" for m using that r by auto
  then have ms: "missing s d {pfn va..pfn va + n} \<subseteq> {}" unfolding n(2) using pd by (auto simp: missing_def)
  from map_run_spec [OF sp al(1) n(1) sz _ ms, of "V2P va" perm] un n(2) obtain s' us fs' where s':
    "mappages d va (V2P ve - V2P va) (V2P va) perm s = Ok (0, s')" "fs = us @ fs'" "us = []" "space s' d fs'"
    "grown s d us s'"
    "pt s' d = (\<lambda>m. if m \<in> {pfn va..<pfn ve} then (V2P va + of_nat (m - pfn va) * PGSIZE) OR perm OR PTE_P else pt s d m)"
    "\<forall>j. bit (pde s' d j) 0 \<longleftrightarrow> bit (pde s d j) 0 \<or> j \<in> (\<lambda>m. m div 1024) ` {pfn va..pfn va + n}"
    by auto
  have "pt s' d = (\<lambda>m. if m \<in> {pfn va..<pfn ve} then of_nat (m - 0x80000) * PGSIZE OR perm OR PTE_P else pt s d m)"
    unfolding s'(6) V2P_page [OF al(1) r(1)] using page_add [OF r(1)] by (auto simp: fun_eq_iff)
  with s' show ?thesis by auto
qed

lemma setupkvm_run3:
  assumes sp: "space s d fs" and fs: "8 \<le> length fs" and un: "\<forall>m \<in> {0xFE000..<0x100000}. \<not> bit (pt s d m) 0"
  shows "\<exists>s' us fs'. mappages d DEVSPACE (0 - DEVSPACE) DEVSPACE PTE_W s = Ok (0, s') \<and> fs = us @ fs' \<and> length us \<le> 8 \<and>
    space s' d fs' \<and> grown s d us s' \<and>
    pt s' d = (\<lambda>m. if m \<in> {0xFE000..<0x100000} then of_nat m * PGSIZE OR PTE_W OR PTE_P else pt s d m)"
proof -
  have p: "pfn DEVSPACE = 0xFE000" by (simp add: pfn_div)
  have N: "{pfn DEVSPACE..pfn DEVSPACE + 8191} = {0xFE000..<0x100000}" unfolding p by auto
  have ms: "missing s d {pfn DEVSPACE..pfn DEVSPACE + 8191} \<subseteq> {1016..<1024}"
    unfolding N by (auto simp: missing_def)
  from map_run_spec [OF sp _ _ _ _ ms, of "0 - DEVSPACE" DEVSPACE PTE_W] obtain s' us fs' where s':
    "mappages d DEVSPACE (0 - DEVSPACE) DEVSPACE PTE_W s = Ok (0, s')" "fs = us @ fs'" "length us \<le> 8" "space s' d fs'"
    "grown s d us s'"
    "pt s' d = (\<lambda>m. if m \<in> {pfn DEVSPACE..pfn DEVSPACE + 8191}
       then (DEVSPACE + of_nat (m - pfn DEVSPACE) * PGSIZE) OR PTE_W OR PTE_P else pt s d m)"
    using fs un p by (auto simp: pg_aligned_unat)
  have "DEVSPACE + of_nat (m - 0xFE000) * PGSIZE = of_nat m * PGSIZE" if "m \<in> {0xFE000..<0x100000}" for m
    using page_add [of 0 "0xFE000" m] that by simp
  then have "pt s' d = (\<lambda>m. if m \<in> {0xFE000..<0x100000} then of_nat m * PGSIZE OR PTE_W OR PTE_P else pt s d m)"
    unfolding s'(6) N p by (simp add: fun_eq_iff)
  then show ?thesis using s'(1-5) by auto
qed

lemma setupkvm_loop_spec:
  assumes sp: "space s d fs" and z: "pt s d = (\<lambda>_. 0)" and n: "9 \<le> length fs" and lay: "layout_ok s"
  obtains s' us fs' where "setupkvm_loop d (kmap s) s = Ok (d, s')" "fs = us @ fs'" "length us \<le> 9" "space s' d fs'"
    "grown s d us s'" "pt s' d = kvm_pt (kdata s)"
proof -
  let ?D = "kdata s"
  have al: "pg_aligned ?D" "pg_aligned KERNLINK" "pg_aligned (P2V PHYSTOP)" using lay
    by (auto simp: layout_ok_def pg_aligned_unat P2V_def)
  have "unat KERNLINK < unat ?D" "unat ?D < unat (P2V PHYSTOP)" using lay
    by (auto simp: layout_ok_def word_less_nat_alt)
  then have D: "0x80100 < pfn ?D" "pfn ?D < 0x80400" using pfn_mult [OF al(1)] by (auto simp: P2V_def)
  have K: "pfn KERNLINK = 0x80100" "pfn (P2V PHYSTOP) = 0x80400" by (simp_all add: pfn_div P2V_def)
  from setupkvm_run1 [OF sp z] n obtain s1 us fs1 where s1:
    "mappages d KERNBASE (EXTMEM - 0) 0 PTE_W s = Ok (0, s1)" "fs = us @ fs1" "length us \<le> 1"
    "space s1 d fs1" "grown s d us s1" "bit (pde s1 d 512) 0"
    "pt s1 d = (\<lambda>m. if m \<in> {0x80000..<0x80100} then of_nat (m - 0x80000) * PGSIZE OR PTE_W OR PTE_P else 0)"
    by auto
  from setupkvm_run2 [OF s1(4,6) al(2,1), of 0] D K s1(7) obtain s2 where s2:
    "mappages d KERNLINK (V2P ?D - V2P KERNLINK) (V2P KERNLINK) 0 s1 = Ok (0, s2)" "space s2 d fs1"
    "grown s1 d [] s2" "\<forall>j. bit (pde s1 d j) 0 \<longrightarrow> bit (pde s2 d j) 0"
    "pt s2 d = (\<lambda>m. if m \<in> {0x80100..<pfn ?D} then of_nat (m - 0x80000) * PGSIZE OR 0 OR PTE_P else pt s1 d m)"
    by auto
  from setupkvm_run2 [OF s2(2) _ al(1,3), of PTE_W] D K s1(6,7) s2(4,5) obtain s3 where s3:
    "mappages d ?D (V2P (P2V PHYSTOP) - V2P ?D) (V2P ?D) PTE_W s2 = Ok (0, s3)" "space s3 d fs1" "grown s2 d [] s3"
    "pt s3 d = (\<lambda>m. if m \<in> {pfn ?D..<0x80400} then of_nat (m - 0x80000) * PGSIZE OR PTE_W OR PTE_P else pt s2 d m)"
    by auto
  from setupkvm_run3 [OF s3(2)] n s1(2,3,7) s2(5) s3(4) D obtain s4 vs fs' where s4:
    "mappages d DEVSPACE (0 - DEVSPACE) DEVSPACE PTE_W s3 = Ok (0, s4)" "fs1 = vs @ fs'" "length vs \<le> 8"
    "space s4 d fs'" "grown s3 d vs s4"
    "pt s4 d = (\<lambda>m. if m \<in> {0xFE000..<0x100000} then of_nat m * PGSIZE OR PTE_W OR PTE_P else pt s3 d m)"
    by auto
  have pt4: "pt s4 d = kvm_pt ?D"
    using D by (auto simp: s4(6) s3(4) s2(5) s1(7) kvm_pt_def fun_eq_iff)
  have g: "grown s d (us @ vs) s4"
    using grown_trans [OF grown_trans [OF grown_trans [OF s1(5) s2(3)] s3(3)] s4(5)] by simp
  have "setupkvm_loop d (kmap s) s = Ok (d, s4)"
    using s1(1) s2(1) s3(1) [unfolded V2P_P2V] s4(1) by (simp add: kmap_def)
  then show thesis using s1(2,3) s4(2,3,4) pt4 g by (intro that [of s4 "us @ vs" fs']) auto
qed

text \<open>
  setupkvm builds, from ten free pages at most, a directory that maps exactly what kmap says.
\<close>

lemma setupkvm_spec:
  assumes fp: "free_pages s fs" and n: "10 \<le> length fs" and lay: "layout_ok s"
  obtains d s' us fs' where "setupkvm s = Ok (d, s')" "fs = d # us @ fs'" "length us \<le> 9" "space s' d fs'"
    "owned s' d = frm ` set (d # us)" "pt s' d = kvm_pt (kdata s)" "mem_frame s s'"
    "page_to_refcnt s' = (\<lambda>f. if f \<in> frm ` set (d # us) then 1 else page_to_refcnt s f)"
    "\<forall>f. f \<notin> owned s' d \<longrightarrow> mem s' f = mem s f"
proof -
  from n obtain d fs0 where fs: "fs = d # fs0" by (cases fs) auto
  from zero_dir [OF fp [unfolded fs]] obtain sa s0 where s0: "kalloc s = Ok (d, sa)"
    "kpage_upd d (\<lambda>b. memset b 0 0 (unat PGSIZE)) sa = Ok s0" "mem_frame s s0" "space s0 d fs0"
    "owned s0 d = {frm d}" "pt s0 d = (\<lambda>_. 0)" "\<forall>f. f \<noteq> frm d \<longrightarrow> mem s0 f = mem s f"
    "page_to_refcnt s0 = (page_to_refcnt s)(frm d := 1)" by metis
  have d0: "kdata s0 = kdata s" by (rule mem_frame_sel [OF s0(3)])
  have "9 \<le> length fs0" "layout_ok s0" using n fs lay by (auto simp: layout_ok_def d0)
  from setupkvm_loop_spec [OF s0(4,6) this] obtain s' us fs' where s':
    "setupkvm_loop d (kmap s0) s0 = Ok (d, s')" "fs0 = us @ fs'" "length us \<le> 9" "space s' d fs'"
    "grown s0 d us s'" "pt s' d = kvm_pt (kdata s0)" .
  have nz: "d \<noteq> 0" using wf_kpg [OF spaceD(1) [OF s0(4)]] by (rule kpg_nonzero)
  have "\<not> P2V PHYSTOP > DEVSPACE" by (simp add: P2V_def)
  then have ok: "setupkvm s = Ok (d, s')" using s0(1,2) nz s'(1) by (simp add: setupkvm_def)
  show thesis
    by (rule that [OF ok, of us fs'])
      (use fs s' s0 d0 in \<open>auto simp: grown_def intro: mem_frame_trans\<close>)
qed

end
