(* ===== verification/CowFork.thy ===== *)
theory CowFork
  imports PageTable
begin

text \<open>
  The copy of an address space that fork makes (copyuvm_cow of vm.c): parent and child end with the same
  frames, read-only on both sides, and every frame has one more reference for every page that maps it.
\<close>

unbundle bit_operations_syntax

section \<open>Two directories side by side\<close>

text \<open>States that differ at most in the process table, in %cr3 and in memory.\<close>

definition vm_frame :: "'a vm_scheme \<Rightarrow> 'a vm_scheme \<Rightarrow> bool" where
  "vm_frame s t \<longleftrightarrow> (\<exists>tab c m f n r. t = s\<lparr>ptable := tab, cr3 := c, mem := m, freelist := f, num_free_pages := n,
     page_to_refcnt := r\<rparr>)"

lemma vm_frame_trans [trans]: "vm_frame s t \<Longrightarrow> vm_frame t u \<Longrightarrow> vm_frame s u"
  unfolding vm_frame_def by (elim exE) (simp, blast)

lemma vm_frameI:
  assumes "curproc t = curproc s" "nextpid t = nextpid s" "initproc t = initproc s"
    "bufs t = bufs s" "lru t = lru s" "idequeue t = idequeue s" "havedisk1 t = havedisk1 s" "ide_err t = ide_err s" "disk t = disk s"
    "use_lock t = use_lock s" "swap_slots t = swap_slots s" "kpgdir t = kpgdir s"
    "kend t = kend s" "kdata t = kdata s" "cpu_gdt t = cpu_gdt s" "ts_ss0 t = ts_ss0 s" "ts_esp0 t = ts_esp0 s"
    "ts_iomb t = ts_iomb s" "ts_addr t = ts_addr s" "vm.more t = vm.more s"
  shows "vm_frame s t"
  unfolding vm_frame_def
  by (rule exI [of _ "ptable t"], rule exI [of _ "cr3 t"], rule exI [of _ "mem t"], rule exI [of _ "freelist t"],
      rule exI [of _ "num_free_pages t"], rule exI [of _ "page_to_refcnt t"], rule vm.equality)
    (simp_all add: assms)

lemma vm_frame_sel:
  assumes "vm_frame s t"
  shows "curproc t = curproc s" "nextpid t = nextpid s" "initproc t = initproc s"
    "bufs t = bufs s" "lru t = lru s" "idequeue t = idequeue s" "havedisk1 t = havedisk1 s" "ide_err t = ide_err s" "disk t = disk s"
    "use_lock t = use_lock s" "swap_slots t = swap_slots s" "kpgdir t = kpgdir s"
    "kend t = kend s" "kdata t = kdata s" "cpu_gdt t = cpu_gdt s" "vm.more t = vm.more s"
  using assms by (auto simp: vm_frame_def)

lemma mem_frame_vm: "mem_frame s t \<Longrightarrow> vm_frame s t"
  unfolding mem_frame_def by (elim exE) (rule vm_frameI, simp_all)

lemma vm_frame_upd_proc [simp]: "vm_frame s (upd_proc i f s)"
  by (rule vm_frameI) (simp_all add: upd_proc_def)

lemma vm_frame_lcr3 [simp]: "vm_frame s (lcr3 pa s)"
  by (rule vm_frameI) (simp_all add: lcr3_def)

lemma vm_frame_refl [simp]: "vm_frame s s"
  by (rule vm_frameI) simp_all

lemma vm_frame_refcnt [simp]: "vm_frame s (s\<lparr>page_to_refcnt := r\<rparr>)"
  by (rule vm_frameI) simp_all

lemma free_pages_cong:
  assumes "free_pages s fs" "\<And>p. p \<in> set fs \<Longrightarrow> mem t (frm p) = mem s (frm p)" "kend t = kend s"
    "freelist t = freelist s" "num_free_pages t = num_free_pages s"
  shows "free_pages t fs"
  using assms chain_cong [of fs "mem t" "mem s"] by (auto simp: free_pages_def page_ok_def)

lemma space_cong:
  assumes sp: "space s d fs" and m: "\<And>f. f \<in> owned s d \<union> frm ` set fs \<Longrightarrow> mem t f = mem s f"
    and "kend t = kend s" "freelist t = freelist s" "num_free_pages t = num_free_pages s"
  shows "space t d fs" "owned t d = owned s d" "pt t d = pt s d" "pde t d = pde s d" "pte_addr t d = pte_addr s d"
proof -
  have c: "\<And>f. f \<in> owned s d \<Longrightarrow> mem t f = mem s f" using m by blast
  note pc = pt_cong [OF c]
  show "owned t d = owned s d" "pt t d = pt s d" "pde t d = pde s d" "pte_addr t d = pte_addr s d" by (rule pc; assumption)+
  have "free_pages t fs" using assms by (intro free_pages_cong [of s fs t]) (auto simp: space_def)
  moreover have "pgdir_wf t d" "owned t d = owned s d" using pc sp by (auto simp: space_def)
  ultimately show "space t d fs" using sp by (simp add: space_def)
qed

definition two_spaces :: "'a vm_scheme \<Rightarrow> u32 \<Rightarrow> u32 \<Rightarrow> u32 list \<Rightarrow> bool" where
  "two_spaces s p d fs \<longleftrightarrow> space s p fs \<and> space s d fs \<and> owned s p \<inter> owned s d = {}"

text \<open>A directory that grows leaves one beside it alone.\<close>

lemma grown_other:
  assumes g: "grown s d us t" and sp: "space s p (us @ fs)" and dj: "owned s p \<inter> owned s d = {}"
  shows "owned t p = owned s p" "pt t p = pt s p" "pgdir_wf t p" "pde t p = pde s p" "pte_addr t p = pte_addr s p"
    "owned t p \<inter> owned t d = {}"
proof -
  have o: "owned t d = owned s d \<union> frm ` set us" using g by (simp add: grown_def)
  then have n: "f \<notin> owned t d" if "f \<in> owned s p" for f using that sp dj by (auto simp: space_def)
  then have "mem t f = mem s f" if "f \<in> owned s p" for f using that g by (auto simp: grown_def)
  note pc = pt_cong [OF this]
  show *: "owned t p = owned s p" and "pt t p = pt s p" "pde t p = pde s p" "pte_addr t p = pte_addr s p"
    by (rule pc; assumption)+
  show "pgdir_wf t p" using pc(4) sp by (simp add: space_def)
  show "owned t p \<inter> owned t d = {}" using n * by blast
qed

section \<open>Copy-on-write fork of an address space\<close>

lemma pte_readonly: "bit x 0 \<Longrightarrow> PTE_ADDR x OR (PTE_FLAGS x AND NOT PTE_W) OR PTE_P = x AND NOT PTE_W"
  by (rule bit_word_eqI)
    (auto simp: PTE_ADDR_def PTE_FLAGS_def mask12 bit_simps bit_flags)

lemma pfn_of_nat: "k < NVPN \<Longrightarrow> pfn (of_nat k * PGSIZE) = k"
proof -
  assume "k < NVPN"
  then have "unat (of_nat (k * 4096) :: u32) = k * 4096" by (intro unat_of_nat_small) simp
  then show ?thesis by (simp add: pfn_div)
qed

lemma aligned_page [simp]: "pg_aligned (of_nat k * PGSIZE)"
proof -
  have "unat (of_nat k * PGSIZE :: u32) = (k * 4096) mod 2 ^ 32"
    by (simp add: unat_word_ariths unat_of_nat mod_mult_left_eq)
  then have "unat (of_nat k * PGSIZE :: u32) mod 4096 = (k * 4096) mod 2 ^ 32 mod 4096" by simp
  also have "\<dots> = k * 4096 mod 4096" by (rule mod_mod_cancel) simp
  finally show ?thesis by (simp add: pg_aligned_unat)
qed

text \<open>A store into the first directory, a mapping in the second.\<close>

lemma ts_store:
  assumes ts: "two_spaces s p d fs" and k: "k < NVPN" and pr: "bit (pde s p (k div 1024)) 0"
  obtains s' where "kstore (pte_addr s p k) v s = Ok s'" "mem_frame s s'" "two_spaces s' p d fs"
    "pt s' p = (pt s p)(k := v)" "pt s' d = pt s d" "owned s' p = owned s p" "owned s' d = owned s d"
    "pde s' p = pde s p" "pde s' d = pde s d" "page_to_refcnt s' = page_to_refcnt s"
    "\<forall>f. f \<notin> owned s p \<longrightarrow> mem s' f = mem s f"
proof -
  have sp: "space s p fs" "space s d fs" and dj: "owned s p \<inter> owned s d = {}" using ts by (auto simp: two_spaces_def)
  from kstore_pte [OF spaceD(1) [OF sp(1)] k pr, where v = v] obtain s' where s':
    "kstore (pte_addr s p k) v s = Ok s'" "mem_frame s s'" "pgdir_wf s' p"
    "owned s' p = owned s p" "pde s' p = pde s p" "pt s' p = (pt s p)(k := v)"
    "\<forall>f. f \<notin> owned s p - {frm p} \<longrightarrow> mem s' f = mem s f"
    "freelist s' = freelist s" "num_free_pages s' = num_free_pages s" "page_to_refcnt s' = page_to_refcnt s" .
  have ke: "kend s' = kend s" by (rule mem_frame_sel [OF s'(2)])
  have m: "mem s' f = mem s f" if "f \<in> owned s d \<union> frm ` set fs" for f
    using that s'(7) dj sp by (auto simp: space_def)
  note d = space_cong [OF sp(2) m ke s'(8,9)]
  have "free_pages s' fs" using m ke s'(8,9) spaceD(2) [OF sp(2)] by (intro free_pages_cong [of s fs s']) auto
  then have "space s' p fs" using s'(3,4) sp(1) by (simp add: space_def)
  then have "two_spaces s' p d fs" using d dj s'(4) by (simp add: two_spaces_def)
  with s' d show thesis by (intro that [of s']) auto
qed

lemma ts_map:
  assumes ts: "two_spaces s p d fs" and av: "fs \<noteq> [] \<or> bit (pde s d (pfn va div 1024)) 0"
    and un: "\<not> bit (pt s d (pfn va)) 0"
  obtains s' us fs' where "map_page d va pa perm s = Ok (0, s')" "fs = us @ fs'"
    "length us = (if bit (pde s d (pfn va div 1024)) 0 then 0 else 1)" "two_spaces s' p d fs'" "mem_frame s s'"
    "pt s' p = pt s p" "pt s' d = (pt s d)(pfn va := pa OR perm OR PTE_P)"
    "owned s' p = owned s p" "owned s' d = owned s d \<union> frm ` set us"
    "\<forall>j. bit (pde s' d j) 0 \<longleftrightarrow> bit (pde s d j) 0 \<or> j = pfn va div 1024"
    "page_to_refcnt s' = (\<lambda>f. if f \<in> frm ` set us then 1 else page_to_refcnt s f)"
    "\<forall>f. f \<notin> owned s' d \<longrightarrow> mem s' f = mem s f"
proof -
  have sp: "space s p fs" "space s d fs" and dj: "owned s p \<inter> owned s d = {}" using ts by (auto simp: two_spaces_def)
  from map_page_spec [OF sp(2) av un, of pa perm] obtain s' us fs' where s':
    "map_page d va pa perm s = Ok (0, s')" "fs = us @ fs'"
    "length us = (if bit (pde s d (pfn va div 1024)) 0 then 0 else 1)"
    "space s' d fs'" "grown s d us s'" "\<forall>j. bit (pde s' d j) 0 \<longleftrightarrow> bit (pde s d j) 0 \<or> j = pfn va div 1024"
    "pt s' d = (pt s d)(pfn va := pa OR perm OR PTE_P)" .
  note o = grown_other [OF s'(5) sp(1) [unfolded s'(2)] dj]
  have "space s' p fs'" using o s'(4) sp(1) s'(2) by (auto simp: space_def)
  then have "two_spaces s' p d fs'" using s'(4) o by (simp add: two_spaces_def)
  then show thesis using s' o by (intro that [of s' us fs']) (auto simp: grown_def)
qed

lemma two_spaces_cong:
  assumes ts: "two_spaces s p d fs" and "mem t = mem s" "kend t = kend s" "freelist t = freelist s"
    "num_free_pages t = num_free_pages s"
  shows "two_spaces t p d fs" "pt t p = pt s p" "pt t d = pt s d" "pde t p = pde s p" "pde t d = pde s d"
    "owned t p = owned s p" "owned t d = owned s d" "pte_addr t p = pte_addr s p"
proof -
  have sp: "space s p fs" "space s d fs" and dj: "owned s p \<inter> owned s d = {}" using ts by (auto simp: two_spaces_def)
  have m: "\<And>f. mem t f = mem s f" using assms(2) by simp
  note p = space_cong [OF sp(1) m assms(3-5)] and d = space_cong [OF sp(2) m assms(3-5)]
  show "two_spaces t p d fs" using p(1,2) d(1,2) dj by (simp add: two_spaces_def)
  show "pt t p = pt s p" "pt t d = pt s d" "pde t p = pde s p" "pde t d = pde s d"
    "owned t p = owned s p" "owned t d = owned s d" "pte_addr t p = pte_addr s p" using p d by auto
qed

text \<open>The references that the copied pages add to a frame.\<close>

definition refs :: "(nat \<Rightarrow> u32) \<Rightarrow> nat set \<Rightarrow> nat \<Rightarrow> int" where
  "refs tab N f = int (card {n \<in> N. pfn (tab n) = f})"

lemma refs_insert: "finite N \<Longrightarrow> n \<notin> N \<Longrightarrow> refs tab (insert n N) f = (if pfn (tab n) = f then 1 else 0) + refs tab N f"
proof -
  assume "finite N" "n \<notin> N"
  moreover have "{m \<in> insert n N. pfn (tab m) = f} = (if pfn (tab n) = f then insert n {m \<in> N. pfn (tab m) = f} else {m \<in> N. pfn (tab m) = f})"
    by auto
  ultimately show ?thesis by (simp add: refs_def)
qed

lemma refs_cong: "(\<And>n. n \<in> N \<Longrightarrow> pfn (t n) = pfn (u n)) \<Longrightarrow> refs t N f = refs u N f"
  unfolding refs_def by (intro arg_cong [of _ _ int] arg_cong [of _ _ card]) auto

text \<open>
  What a run of copied pages leaves: both tables hold the old entries without the write bit, every frame
  has one more reference per page that maps it, and frames outside the two tables are as they were.
\<close>

definition cow_copied :: "'a vm_scheme \<Rightarrow> u32 \<Rightarrow> u32 \<Rightarrow> nat \<Rightarrow> nat set \<Rightarrow> u32 list \<Rightarrow> 'a vm_scheme \<Rightarrow> bool" where
  "cow_copied s p d np N us t \<longleftrightarrow> vm_frame s t \<and>
     pt t p = (\<lambda>n. if n \<in> N then pt s p n AND NOT PTE_W else pt s p n) \<and>
     pt t d = (\<lambda>n. if n \<in> N then pt s p n AND NOT PTE_W else pt s d n) \<and>
     owned t p = owned s p \<and> owned t d = owned s d \<union> frm ` set us \<and>
     page_to_refcnt t = (\<lambda>f. if f \<in> frm ` set us then 1 else page_to_refcnt s f + refs (pt s p) N f) \<and>
     (\<forall>f. f \<notin> owned s p \<union> owned t d \<longrightarrow> mem t f = mem s f) \<and>
     ptable t = (ptable s)(np := (ptable s np)\<lparr>p_rss := p_rss (ptable s np) + of_nat (card N) * PGSIZE\<rparr>)"

lemma refs_none: "\<forall>n \<in> N. pfn (tab n) \<noteq> f \<Longrightarrow> refs tab N f = 0"
proof -
  assume "\<forall>n \<in> N. pfn (tab n) \<noteq> f"
  then have "{n \<in> N. pfn (tab n) = f} = {}" by blast
  then show ?thesis by (simp only: refs_def card.empty of_nat_0)
qed

lemma cow_copied_trans:
  assumes c1: "cow_copied s p d np {a} us s1" and c2: "cow_copied s1 p d np M vs s2"
    and M: "finite M" "a \<notin> M" "\<forall>n \<in> M. pfn (pt s p n) \<notin> frm ` set us"
  shows "cow_copied s p d np (insert a M) (us @ vs) s2"
proof -
  have o: "owned s2 d = owned s d \<union> frm ` set (us @ vs)" "owned s2 p = owned s p"
    using c1 c2 by (auto simp: cow_copied_def)
  have p1: "pt s1 p = (\<lambda>n. if n \<in> {a} then pt s p n AND NOT PTE_W else pt s p n)" using c1 by (simp add: cow_copied_def)
  have r: "refs (pt s1 p) M f = refs (pt s p) M f" for f using M(2) by (intro refs_cong) (auto simp: p1)
  have z: "refs (pt s p) M f = 0" if "f \<in> frm ` set us" for f using M(3) that by (intro refs_none) auto
  have "refs (pt s p) {a} f = (if pfn (pt s p a) = f then 1 else 0)" for f
    using refs_insert [of "{}" a "pt s p" f] by (simp add: refs_def)
  then have "page_to_refcnt s2 = (\<lambda>f. if f \<in> frm ` set (us @ vs) then 1
      else page_to_refcnt s f + refs (pt s p) (insert a M) f)"
    using c1 c2 z by (auto simp: cow_copied_def fun_eq_iff r refs_insert [OF M(1,2)])
  moreover have "ptable s2 = (ptable s)(np := (ptable s np)\<lparr>p_rss := p_rss (ptable s np) + of_nat (card (insert a M)) * PGSIZE\<rparr>)"
    using c1 c2 M by (simp add: cow_copied_def algebra_simps)
  moreover have "\<forall>f. f \<notin> owned s p \<union> owned s2 d \<longrightarrow> mem s2 f = mem s f"
    using c1 c2 o by (auto simp: cow_copied_def)
  moreover have "vm_frame s s2" using c1 c2 unfolding cow_copied_def by (blast intro: vm_frame_trans)
  moreover have "pt s2 p = (\<lambda>n. if n \<in> insert a M then pt s p n AND NOT PTE_W else pt s p n)"
    "pt s2 d = (\<lambda>n. if n \<in> insert a M then pt s p n AND NOT PTE_W else pt s d n)"
    using c1 c2 M by (auto simp: cow_copied_def fun_eq_iff)
  ultimately show ?thesis using o by (simp add: cow_copied_def)
qed

text \<open>One page of the copy: shared, read-only on both sides, one more reference.\<close>

lemma cow_step:
  assumes ts: "two_spaces s p d fs" and k: "k < NVPN" and x: "bit (pt s p k) 0" "pfn (pt s p k) < NFRAME"
    and nf: "pfn (pt s p k) \<notin> frm ` set fs"
    and un: "\<not> bit (pt s d k) 0" and av: "fs \<noteq> [] \<or> bit (pde s d (k div 1024)) 0"
  obtains s' us fs' where
    "copyuvm_cow_loop p d np (of_nat k * PGSIZE # is) s = copyuvm_cow_loop p d np is s'" "fs = us @ fs'"
    "length us = (if bit (pde s d (k div 1024)) 0 then 0 else 1)" "two_spaces s' p d fs'"
    "\<forall>j. bit (pde s' d j) 0 \<longleftrightarrow> bit (pde s d j) 0 \<or> j = k div 1024" "cow_copied s p d np {k} us s'"
proof -
  let ?va = "of_nat k * PGSIZE :: u32" and ?x = "pt s p k"
  have va: "pfn ?va = k" by (rule pfn_of_nat [OF k])
  define s1 where "s1 = upd_proc np (\<lambda>q. q\<lparr>p_rss := p_rss q + PGSIZE\<rparr>) s"
  have sel1: "mem s1 = mem s" "kend s1 = kend s" "freelist s1 = freelist s" "num_free_pages s1 = num_free_pages s"
    "page_to_refcnt s1 = page_to_refcnt s"
    "ptable s1 = (ptable s)(np := (ptable s np)\<lparr>p_rss := p_rss (ptable s np) + PGSIZE\<rparr>)" "vm_frame s s1"
    by (simp_all add: s1_def) (simp add: upd_proc_def)
  note t1 = two_spaces_cong [OF ts sel1(1-4)]
  have pr: "bit (pde s1 p (k div 1024)) 0" using pt_present [OF x(1)] t1 by simp
  have wf1: "pgdir_wf s1 p" using t1(1) by (simp add: two_spaces_def space_def)
  from ts_store [OF t1(1) k pr, where v = "?x AND NOT PTE_W"] obtain s2 where s2:
    "kstore (pte_addr s1 p k) (?x AND NOT PTE_W) s1 = Ok s2" "mem_frame s1 s2" "two_spaces s2 p d fs"
    "pt s2 p = (pt s1 p)(k := ?x AND NOT PTE_W)" "pt s2 d = pt s1 d" "owned s2 p = owned s1 p" "owned s2 d = owned s1 d"
    "pde s2 d = pde s1 d" "page_to_refcnt s2 = page_to_refcnt s1" "\<forall>f. f \<notin> owned s1 p \<longrightarrow> mem s2 f = mem s1 f" .
  from ts_map [OF s2(3), of ?va "PTE_ADDR ?x" "PTE_FLAGS ?x AND NOT PTE_W"] av un obtain s3 us fs' where s3:
    "map_page d ?va (PTE_ADDR ?x) (PTE_FLAGS ?x AND NOT PTE_W) s2 = Ok (0, s3)" "fs = us @ fs'"
    "length us = (if bit (pde s d (k div 1024)) 0 then 0 else 1)" "two_spaces s3 p d fs'" "mem_frame s2 s3"
    "pt s3 p = pt s2 p" "pt s3 d = (pt s2 d)(k := ?x AND NOT PTE_W)"
    "owned s3 p = owned s2 p" "owned s3 d = owned s2 d \<union> frm ` set us"
    "\<forall>j. bit (pde s3 d j) 0 \<longleftrightarrow> bit (pde s d j) 0 \<or> j = k div 1024"
    "page_to_refcnt s3 = (\<lambda>f. if f \<in> frm ` set us then 1 else page_to_refcnt s2 f)"
    "\<forall>f. f \<notin> owned s3 d \<longrightarrow> mem s3 f = mem s2 f"
    unfolding va s2(5,8) t1(3,5) pte_readonly [OF x(1)] by blast
  define s4 where "s4 = s3\<lparr>page_to_refcnt := (page_to_refcnt s3)(pfn ?x := page_to_refcnt s3 (pfn ?x) + 1)\<rparr>"
  have ok: "copyuvm_cow_loop p d np (?va # is) s = copyuvm_cow_loop p d np is s4"
    using x s2(1) s3(1) t1(2) pte_addr_nonzero [OF wf1 k pr] kload_pte [OF wf1 k pr] pr
    by (simp add: s1_def [symmetric] walk_noalloc [OF wf1] va mappages_one inc_refcnt_def s4_def)
  have sel4: "mem s4 = mem s3" "kend s4 = kend s3" "freelist s4 = freelist s3" "num_free_pages s4 = num_free_pages s3"
    "ptable s4 = ptable s3" "vm_frame s3 s4" by (simp_all add: s4_def)
  note t4 = two_spaces_cong [OF s3(4) sel4(1-4)]
  have "vm_frame s1 s4" using s2(2) s3(5) sel4(6) mem_frame_vm mem_frame_trans vm_frame_trans by metis
  with sel1(7) have fr: "vm_frame s s4" by (rule vm_frame_trans)
  have pt: "ptable s4 = ptable s1" using sel4(5) mem_frame_sel(1) [OF s3(5)] mem_frame_sel(1) [OF s2(2)] by simp
  have "refs (pt s p) {k} f = (if pfn ?x = f then 1 else 0)" for f
    using refs_insert [of "{}" k "pt s p" f] by (simp add: refs_def)
  then have "page_to_refcnt s4 = (\<lambda>f. if f \<in> frm ` set us then 1 else page_to_refcnt s f + refs (pt s p) {k} f)"
    using nf s3(2) by (auto simp: s4_def s3(11) s2(9) sel1(5) fun_eq_iff)
  then have "cow_copied s p d np {k} us s4"
    using fr t4 s3 s2 t1 sel1 sel4 pt by (auto simp: cow_copied_def fun_eq_iff)
  then show thesis using s3(10) t4(5) by (intro that [OF ok s3(2,3) t4(1)]) auto
qed

lemma cow_loop_spec:
  assumes "two_spaces s p d fs" "a + m \<le> NVPN" "\<forall>n \<in> {a..<a + m}. bit (pt s p n) 0 \<and> pfn (pt s p n) < NFRAME"
    "\<forall>n \<in> {a..<a + m}. pfn (pt s p n) \<notin> frm ` set fs" "\<forall>n \<in> {a..<a + m}. \<not> bit (pt s d n) 0"
    "card (missing s d {a..<a + m}) \<le> length fs"
  shows "\<exists>s' us fs'. copyuvm_cow_loop p d np (map (\<lambda>k. of_nat k * PGSIZE) [a..<a + m]) s = Ok (d, lcr3 (V2P p) s') \<and>
    fs = us @ fs' \<and> length us = card (missing s d {a..<a + m}) \<and> two_spaces s' p d fs' \<and>
    cow_copied s p d np {a..<a + m} us s'"
  using assms
proof (induction m arbitrary: s a fs)
  case 0
  show ?case by (rule exI [of _ s], rule exI [of _ "[]"]) (use 0 in \<open>simp add: cow_copied_def refs_def missing_def\<close>)
next
  case (Suc m)
  let ?M = "{Suc a..<Suc a + m}"
  have N: "{a..<a + Suc m} = insert a ?M" "a \<notin> ?M" "finite ?M" by auto
  have L: "[a..<a + Suc m] = a # [Suc a..<Suc a + m]" by (simp add: upt_conv_Cons)
  note cm = card_missing_insert [OF N(3), of s d a]
  have av: "fs \<noteq> [] \<or> bit (pde s d (a div 1024)) 0" using Suc.prems(6) unfolding N(1) cm by (auto split: if_splits)
  from cow_step [OF Suc.prems(1), of a np "map (\<lambda>k. of_nat k * PGSIZE) [Suc a..<Suc a + m]"] av Suc.prems(2-5)
  obtain s1 us fs1 where s1:
    "copyuvm_cow_loop p d np (map (\<lambda>k. of_nat k * PGSIZE) [a..<a + Suc m]) s
       = copyuvm_cow_loop p d np (map (\<lambda>k. of_nat k * PGSIZE) [Suc a..<Suc a + m]) s1" "fs = us @ fs1"
    "length us = (if bit (pde s d (a div 1024)) 0 then 0 else 1)" "two_spaces s1 p d fs1"
    "\<forall>j. bit (pde s1 d j) 0 \<longleftrightarrow> bit (pde s d j) 0 \<or> j = a div 1024" "cow_copied s p d np {a} us s1"
    unfolding L list.map by auto
  have m1: "missing s1 d ?M = missing s d ?M - {a div 1024}" using s1(5) by (auto simp: missing_def)
  have pM: "pt s1 p n = pt s p n" "pt s1 d n = pt s d n" if "n \<in> ?M" for n using that s1(6) by (auto simp: cow_copied_def)
  have "\<exists>s' vs fs'. copyuvm_cow_loop p d np (map (\<lambda>k. of_nat k * PGSIZE) [Suc a..<Suc a + m]) s1 = Ok (d, lcr3 (V2P p) s') \<and>
    fs1 = vs @ fs' \<and> length vs = card (missing s1 d ?M) \<and> two_spaces s' p d fs' \<and> cow_copied s1 p d np ?M vs s'"
    using Suc.prems s1(2,3) pM m1 cm N(1) by (intro Suc.IH [OF s1(4)]) auto
  then obtain s' vs fs' where s':
    "copyuvm_cow_loop p d np (map (\<lambda>k. of_nat k * PGSIZE) [Suc a..<Suc a + m]) s1 = Ok (d, lcr3 (V2P p) s')"
    "fs1 = vs @ fs'" "length vs = card (missing s1 d ?M)" "two_spaces s' p d fs'" "cow_copied s1 p d np ?M vs s'" by blast
  have "cow_copied s p d np (insert a ?M) (us @ vs) s'"
    using Suc.prems(4) s1(2) by (intro cow_copied_trans [OF s1(6) s'(5)]) auto
  then show ?case using s1(1-3) s'(1-4) m1 cm unfolding N(1)
    by (intro exI [of _ s'] exI [of _ "us @ vs"] exI [of _ fs']) simp
qed


definition npages :: "u32 \<Rightarrow> nat" where
  "npages sz = (unat sz + 4095) div 4096"

lemma page_range_0: "page_range 0 sz = map (\<lambda>k. of_nat k * PGSIZE) [0..<npages sz]"
  by (simp add: page_range_def npages_def)

lemma npages_user: "sz \<le> KERNBASE \<Longrightarrow> npages sz \<le> 0x80000"
proof -
  assume "sz \<le> KERNBASE"
  then have "unat sz + 4095 < 0x80001 * 4096" by (simp add: word_le_nat_alt)
  then have "npages sz < 0x80001" unfolding npages_def by (rule less_mult_imp_div_less)
  then show ?thesis by simp
qed

lemma kvm_pt_user: "n < 0x80000 \<Longrightarrow> 0x80100 \<le> pfn data \<Longrightarrow> kvm_pt data n = 0"
  by (auto simp: kvm_pt_def)

lemma layout_pfn: "layout_ok s \<Longrightarrow> 0x80100 \<le> pfn (kdata s)"
proof -
  assume "layout_ok s"
  then have "pg_aligned (kdata s)" "unat KERNLINK < unat (kdata s)"
    by (auto simp: layout_ok_def word_less_nat_alt)
  then show ?thesis using pfn_mult [of "kdata s"] by simp
qed

lemma card_tables: "card (missing s d {0..<m}) \<le> (m + 1023) div 1024"
proof -
  have "n div 1024 < (m + 1023) div 1024" if "n < m" for n
  proof -
    have "n div 1024 < Suc ((m - 1) div 1024)" using that by (simp add: div_le_mono less_Suc_eq_le)
    also have "Suc ((m - 1) div 1024) = (m - 1 + 1024) div 1024" by simp
    also have "\<dots> = (m + 1023) div 1024" using that by simp
    finally show ?thesis .
  qed
  then have "missing s d {0..<m} \<subseteq> {0..<(m + 1023) div 1024}" by (auto simp: missing_def)
  from card_mono [OF _ this] show ?thesis by simp
qed

text \<open>The pages of a process: present, in memory, and not on the free list.\<close>

definition user_pages :: "'a vm_scheme \<Rightarrow> u32 \<Rightarrow> nat \<Rightarrow> u32 list \<Rightarrow> bool" where
  "user_pages s p m fs \<longleftrightarrow> (\<forall>n < m. bit (pt s p n) 0 \<and> pfn (pt s p n) < NFRAME \<and> pfn (pt s p n) \<notin> frm ` set fs)"

lemma copyuvm_cow_spec:
  assumes sp: "space s p fs" and lay: "layout_ok s" and sz: "sz \<le> KERNBASE"
    and up: "user_pages s p (npages sz) fs" and en: "10 + (npages sz + 1023) div 1024 \<le> length fs"
  obtains d s' us fs' where "copyuvm_cow p sz np s = Ok (d, lcr3 (V2P p) s')" "d \<noteq> 0" "fs = d # us @ fs'"
    "two_spaces s' p d fs'" "owned s' p = owned s p" "owned s' d = frm ` set (d # us)"
    "pt s' p = (\<lambda>n. if n < npages sz then pt s p n AND NOT PTE_W else pt s p n)"
    "pt s' d = (\<lambda>n. if n < npages sz then pt s p n AND NOT PTE_W else kvm_pt (kdata s) n)"
    "page_to_refcnt s' = (\<lambda>f. if f \<in> frm ` set (d # us) then 1 else page_to_refcnt s f + refs (pt s p) {0..<npages sz} f)"
    "\<forall>f. f \<notin> owned s p \<union> owned s' d \<longrightarrow> mem s' f = mem s f" "vm_frame s s'"
    "ptable s' = (ptable s)(np := (ptable s np)\<lparr>p_rss := p_rss (ptable s np) + of_nat (npages sz) * PGSIZE\<rparr>)"
    "length us \<le> 9 + (npages sz + 1023) div 1024"
proof -
  let ?m = "npages sz"
  have wf: "pgdir_wf s p" and fp: "free_pages s fs" and dj: "frm ` set fs \<inter> owned s p = {}"
    using sp by (auto simp: space_def)
  have "10 \<le> length fs" using en by simp
  from setupkvm_spec [OF fp this lay] obtain d s1 us fs1 where s1: "setupkvm s = Ok (d, s1)" "fs = d # us @ fs1"
    "length us \<le> 9" "space s1 d fs1" "owned s1 d = frm ` set (d # us)" "pt s1 d = kvm_pt (kdata s)" "mem_frame s s1"
    "page_to_refcnt s1 = (\<lambda>f. if f \<in> frm ` set (d # us) then 1 else page_to_refcnt s f)"
    "\<forall>f. f \<notin> owned s1 d \<longrightarrow> mem s1 f = mem s f" .
  have "owned s1 d \<subseteq> frm ` set fs" using s1(2,5) by auto
  then have "mem s1 f = mem s f" if "f \<in> owned s p" for f using that dj s1(9) by blast
  note p1 = pt_cong [OF this]
  have ts1: "two_spaces s1 p d fs1"
    using wf p1(3,4) s1(2,4,5) dj by (auto simp: two_spaces_def space_def)
  have m: "?m \<le> 0x80000" by (rule npages_user [OF sz])
  have "\<forall>n \<in> {0..<0 + ?m}. \<not> bit (pt s1 d n) 0" using m kvm_pt_user [OF _ layout_pfn [OF lay]] by (simp add: s1(6))
  moreover have "card (missing s1 d {0..<0 + ?m}) \<le> length fs1" using card_tables [of s1 d ?m] en s1(2,3) by simp
  moreover have "\<forall>n \<in> {0..<0 + ?m}. bit (pt s1 p n) 0 \<and> pfn (pt s1 p n) < NFRAME"
    "\<forall>n \<in> {0..<0 + ?m}. pfn (pt s1 p n) \<notin> frm ` set fs1"
    using up s1(2) by (auto simp: user_pages_def p1(2))
  ultimately obtain s2 vs fs2 where s2:
    "copyuvm_cow_loop p d np (map (\<lambda>k. of_nat k * PGSIZE) [0..<0 + ?m]) s1 = Ok (d, lcr3 (V2P p) s2)" "fs1 = vs @ fs2"
    "two_spaces s2 p d fs2" "cow_copied s1 p d np {0..<0 + ?m} vs s2" "length vs \<le> (?m + 1023) div 1024"
    using card_tables [of s1 d ?m] cow_loop_spec [OF ts1, of 0 ?m np] m by auto
  have nz: "d \<noteq> 0" using wf_kpg [OF spaceD(1) [OF s1(4)]] by (rule kpg_nonzero)
  have ok: "copyuvm_cow p sz np s = Ok (d, lcr3 (V2P p) s2)"
    using s1(1) nz s2(1) by (simp add: copyuvm_cow_def page_range_0)
  have z: "refs (pt s p) {0..<?m} f = 0" if "f \<in> frm ` set (d # us)" for f
    using up that s1(2) by (intro refs_none) (auto simp: user_pages_def)
  have c: "vm_frame s1 s2" "pt s2 p = (\<lambda>n. if n \<in> {0..<?m} then pt s1 p n AND NOT PTE_W else pt s1 p n)"
    "pt s2 d = (\<lambda>n. if n \<in> {0..<?m} then pt s1 p n AND NOT PTE_W else pt s1 d n)"
    "owned s2 p = owned s1 p" "owned s2 d = owned s1 d \<union> frm ` set vs"
    "page_to_refcnt s2 = (\<lambda>f. if f \<in> frm ` set vs then 1 else page_to_refcnt s1 f + refs (pt s1 p) {0..<?m} f)"
    "\<forall>f. f \<notin> owned s1 p \<union> owned s2 d \<longrightarrow> mem s2 f = mem s1 f"
    "ptable s2 = (ptable s1)(np := (ptable s1 np)\<lparr>p_rss := p_rss (ptable s1 np) + of_nat ?m * PGSIZE\<rparr>)"
    using s2(4) by (auto simp: cow_copied_def)
  have q: "pt s1 p = pt s p" "owned s1 p = owned s p" by (rule p1; assumption)+
  have fs: "fs = d # (us @ vs) @ fs2" using s1(2) s2(2) by simp
  have o: "owned s2 d = frm ` set (d # us @ vs)" unfolding c(5) s1(5) by auto
  have rc: "page_to_refcnt s2 = (\<lambda>f. if f \<in> frm ` set (d # us @ vs) then 1
      else page_to_refcnt s f + refs (pt s p) {0..<?m} f)"
    unfolding c(6) s1(8) q using z by (auto simp: fun_eq_iff)
  have fr: "\<forall>f. f \<notin> owned s p \<union> owned s2 d \<longrightarrow> mem s2 f = mem s f"
    using c(5,7) s1(9) q by simp
  have vf: "vm_frame s s2" using mem_frame_vm [OF s1(7)] c(1) by (rule vm_frame_trans)
  have tab: "ptable s1 = ptable s" by (rule mem_frame_sel [OF s1(7)])
  show thesis
    by (rule that [OF ok nz fs s2(3) _ o _ _ rc fr vf]) (unfold c(2,3,4,8) q s1(6) tab, use s1(3) s2(5) in simp_all)
qed

end
