(* ===== verification/Pageswap.thy ===== *)
theory Pageswap
  imports Vm
begin

text \<open>
  Page faults (pageswap.c): copy on write, the grant of the last reference, and the return of a page
  from the swap area. \<open>va\<close> is the faulting address, read from %cr2.
\<close>

unbundle bit_operations_syntax

section \<open>Operations\<close>

definition cow_page :: "u32 \<Rightarrow> 'a vm_scheme \<Rightarrow> 'a vm_scheme res" where
  "cow_page pte s =
     bindR (kalloc s) (\<lambda>(copy_mem, s).
       if copy_mem = 0 then Err (Panic ''kalloc failing in cow_page'')
       else
         bindR (kload pte s) (\<lambda>x.
           if pfn x \<ge> NFRAME then Err OutOfBounds
           else
             let s = s\<lparr>page_to_refcnt := (page_to_refcnt s)(pfn x := page_to_refcnt s (pfn x) - 1)\<rparr>
             in bindR (kpage (P2V (PTE_ADDR x)) s) (\<lambda>src.
                bindR (kpage_upd copy_mem (\<lambda>b. blit b 0 src 0 (unat PGSIZE)) s) (\<lambda>s.
                bindR (kstore pte (V2P copy_mem OR PTE_FLAGS x OR PTE_W) s) (\<lambda>s.
                bindR (myproc s) (\<lambda>i. Ok (lcr3 (V2P (p_pgdir (ptable s i))) s)))))))"

text \<open>The branch of a present page: copy it when it is shared, make it writable when it is not.\<close>

definition fault_present :: "nat \<Rightarrow> u32 \<Rightarrow> u32 \<Rightarrow> 'a vm_scheme \<Rightarrow> 'a vm_scheme res" where
  "fault_present i pte x s =
     (if pfn x \<ge> NFRAME then Err OutOfBounds
      else if page_to_refcnt s (pfn x) > 1 then cow_page pte s
      else bindR (kstore pte (x OR PTE_W) s) (\<lambda>s. Ok (lcr3 (V2P (p_pgdir (ptable s i))) s)))"

text \<open>
  The branch of a page that is not present: read it back from its blocks. The reference count is stored
  at the index of the old entry, that is at the block number.
\<close>

definition fault_swapped :: "nat \<Rightarrow> u32 \<Rightarrow> 'a vm_scheme \<Rightarrow> 'a vm_scheme res" where
  "fault_swapped i pte s =
     bindR (kalloc s) (\<lambda>(pg, s).
       if pg = 0 then Err (Panic ''kalloc failing in pagefault'')
       else
         let s = upd_proc i (\<lambda>p. p\<lparr>p_rss := p_rss p + PGSIZE\<rparr>) s
         in bindR (kload pte s) (\<lambda>x.
            let bn = drop_bit PTXSHIFT x
            in bindR (kpage pg s) (\<lambda>dst.
               bindR (read_page_from_swap bn dst s) (\<lambda>(b, s).
               bindR (kpage_upd pg (\<lambda>_. b) s) (\<lambda>s.
                 let k = unat ((bn - SWAPBASE) div of_nat BPPAGE)
                 in if k \<ge> NPAGE \<or> pfn x \<ge> NFRAME then Err OutOfBounds
                    else
                      let s = s\<lparr>page_to_refcnt := (page_to_refcnt s)(pfn x := refcnt_to_disk (swap_slots s k))\<rparr>
                      in bindR (kstore pte (((V2P pg AND NOT 0xFFF) OR page_perm (swap_slots s k)) OR PTE_P) s) (\<lambda>s.
                           Ok (upd_slot k (\<lambda>h. h\<lparr>is_free := True\<rparr>) s)))))))"

definition handle_page_fault :: "u32 \<Rightarrow> 'a vm_scheme \<Rightarrow> 'a vm_scheme res" where
  "handle_page_fault va s =
     bindR (myproc s) (\<lambda>i.
     bindR (walkpgdir0 (p_pgdir (ptable s i)) va s) (\<lambda>pte.
     bindR (kload pte s) (\<lambda>x.
       if has x PTE_P then fault_present i pte x s else fault_swapped i pte s)))"

end
