(* ===== verification/Fault.thy ===== *)
theory Fault
  imports CowFork Pageswap
begin

text \<open>
  Page faults on present pages: the copy a write to a shared page makes, the grant of the last reference,
  and the isolation of the two sides of a fork that follows from them.
\<close>

unbundle bit_operations_syntax

section \<open>Faults on present pages\<close>

text \<open>
  The faulting process \<open>i\<close> with its directory \<open>p\<close>, beside a free list, and the entry \<open>x\<close> of the page
  that holds the faulting address: present, in memory, its frame neither free nor part of the directory.
\<close>

definition faulting :: "'a vm_scheme \<Rightarrow> nat \<Rightarrow> u32 \<Rightarrow> u32 list \<Rightarrow> u32 \<Rightarrow> bool" where
  "faulting s i p fs va \<longleftrightarrow> curproc s = Some i \<and> p_pgdir (ptable s i) = p \<and> space s p fs \<and>
     bit (pt s p (pfn va)) 0 \<and> pfn (pt s p (pfn va)) < NFRAME \<and>
     pfn (pt s p (pfn va)) \<notin> frm ` set fs \<union> owned s p"

lemma kpg_pte: "pfn x < NFRAME \<Longrightarrow> kpg (P2V (PTE_ADDR x))"
proof -
  assume "pfn x < NFRAME"
  then have "unat (PTE_ADDR x) < 4194304" by (simp add: unat_PTE_ADDR)
  then show ?thesis by (simp add: kpg_P2V_iff word_less_nat_alt)
qed

lemma mem_frame_upd2: "mem_frame s (s\<lparr>page_to_refcnt := r, mem := m\<rparr>)"
  by (rule mem_frame_trans [OF mem_frame_upd(2) mem_frame_upd(1)])

lemma kload_mem: "mem t = mem s \<Longrightarrow> kload p t = kload p s"
  by (simp add: kload_def)

lemma handle_present:
  assumes "faulting s i p fs va"
  shows "handle_page_fault va s = fault_present i (pte_addr s p (pfn va)) (pt s p (pfn va)) s"
proof -
  have wf: "pgdir_wf s p" and pr: "bit (pt s p (pfn va)) 0" and c: "curproc s = Some i" "p_pgdir (ptable s i) = p"
    using assms by (auto simp: faulting_def space_def)
  have pd: "bit (pde s p (pfn va div 1024)) 0" using pt_present [OF pr] by simp
  show ?thesis using pr pd c kload_pte [OF wf pfn_bound pd]
    by (simp add: handle_page_fault_def myproc_def walk0 [OF wf])
qed

text \<open>The last reference: the page becomes writable in place.\<close>

lemma fault_sole:
  assumes f: "faulting s i p fs va" and r: "page_to_refcnt s (pfn (pt s p (pfn va))) \<le> 1"
  obtains s' where "handle_page_fault va s = Ok s'" "space s' p fs"
    "pt s' p = (pt s p)(pfn va := pt s p (pfn va) OR PTE_W)" "page_to_refcnt s' = page_to_refcnt s"
    "\<forall>g. g \<notin> owned s p \<longrightarrow> mem s' g = mem s g" "owned s' p = owned s p" "ptable s' = ptable s" "vm_frame s s'" "cr3 s' = V2P p"
proof -
  let ?x = "pt s p (pfn va)"
  have wf: "pgdir_wf s p" and sp: "space s p fs" and pr: "bit ?x 0" "pfn ?x < NFRAME" and c: "p_pgdir (ptable s i) = p"
    using f by (auto simp: faulting_def space_def)
  have pd: "bit (pde s p (pfn va div 1024)) 0" using pt_present [OF pr(1)] by simp
  from kstore_pte [OF wf pfn_bound pd, where v = "?x OR PTE_W"] obtain t where t:
    "kstore (pte_addr s p (pfn va)) (?x OR PTE_W) s = Ok t" "mem_frame s t" "pgdir_wf t p" "owned t p = owned s p"
    "pt t p = (pt s p)(pfn va := ?x OR PTE_W)" "\<forall>g. g \<notin> owned s p - {frm p} \<longrightarrow> mem t g = mem s g"
    "freelist t = freelist s" "num_free_pages t = num_free_pages s" "page_to_refcnt t = page_to_refcnt s" .
  have tab: "ptable t = ptable s" "kend t = kend s" by (rule mem_frame_sel [OF t(2)])+
  define s' where "s' = lcr3 (V2P p) t"
  have ok: "handle_page_fault va s = Ok s'"
    using handle_present [OF f] pr r t(1) c tab by (simp add: fault_present_def s'_def)
  have "free_pages t fs"
    using sp t by (intro free_pages_mem [OF spaceD(2) [OF sp]]) (auto simp: space_def)
  then have spt: "space t p fs" using sp t by (simp add: space_def)
  have m: "mem s' = mem t" "kend s' = kend t" "freelist s' = freelist t" "num_free_pages s' = num_free_pages t"
    "page_to_refcnt s' = page_to_refcnt t" "ptable s' = ptable t" "cr3 s' = V2P p"
    by (simp_all add: s'_def lcr3_def)
  have "space s' p fs" "owned s' p = owned t p" "pt s' p = pt t p"
    by (rule space_cong [OF spt]; simp add: m)+
  moreover have "vm_frame s s'" using mem_frame_vm [OF t(2)] vm_frame_lcr3 unfolding s'_def by (rule vm_frame_trans)
  ultimately show thesis using t m tab by (intro that [OF ok]) auto
qed

text \<open>
  Filling the frame that kalloc returned and storing an entry for it, as a fault does.
\<close>

lemma install_page:
  assumes sp: "space s d (m # fs)" and n: "n < NVPN" and pd: "bit (pde s d (n div 1024)) 0" and k: "kalloc s = Ok (m, s1)"
    and s2: "mem s2 = (mem s)(frm m := b)" "freelist s2 = freelist s1" "num_free_pages s2 = num_free_pages s1" "kend s2 = kend s"
  obtains t where "kstore (pte_addr s d n) w s2 = Ok t" "mem_frame s2 t" "space t d fs" "pt t d = (pt s d)(n := w)"
    "owned t d = owned s d" "mem t (frm m) = b" "\<forall>g. g \<notin> owned s d \<union> {frm m} \<longrightarrow> mem t g = mem s g"
    "page_to_refcnt t = page_to_refcnt s2"
proof -
  have nm: "frm m \<notin> owned s d" and nf: "frm m \<notin> frm ` set fs" and wf: "pgdir_wf s d"
    using sp free_frms [of s "[m]" fs] by (auto simp: space_def)
  from kalloc_free [OF spaceD(2) [OF sp]] k have s1: "free_pages s1 fs" "mem_frame s s1" "mem s1 = mem s" by auto
  have "mem s2 g = mem s g" if "g \<in> owned s d" for g using that nm by (auto simp: s2)
  note pc = pt_cong [OF this]
  have p2: "pt s2 d = pt s d" "pde s2 d = pde s d" "owned s2 d = owned s d" "pgdir_wf s2 d = pgdir_wf s d"
    "pte_addr s2 d = pte_addr s d" by (rule pc; assumption)+
  have wf2: "pgdir_wf s2 d" using p2(4) wf by simp
  from kstore_pte [OF wf2 n, of w] pd obtain t where t:
    "kstore (pte_addr s d n) w s2 = Ok t" "mem_frame s2 t" "pgdir_wf t d" "owned t d = owned s d"
    "pt t d = (pt s d)(n := w)" "\<forall>g. g \<notin> owned s d - {frm d} \<longrightarrow> mem t g = mem s2 g"
    "freelist t = freelist s2" "num_free_pages t = num_free_pages s2" "page_to_refcnt t = page_to_refcnt s2"
    unfolding p2 by metis
  have q: "frm q \<notin> owned s d \<and> frm q \<noteq> frm m" if "q \<in> set fs" for q
    using sp nf imageI [OF that, of frm] by (auto simp: space_def)
  have "kend t = kend s1" using mem_frame_sel [OF t(2)] mem_frame_sel [OF s1(2)] s2(4) by simp
  then have "free_pages t fs"
    using t(6,7,8) s2 q by (intro free_pages_cong [OF s1(1)]) (auto simp: s1(3))
  then have "space t d fs" using sp t by (auto simp: space_def)
  moreover have "mem t (frm m) = b" using t(6) nm by (simp add: s2)
  ultimately show thesis using t s2(1) by (intro that [OF t(1,2)]) auto
qed

text \<open>A shared page: the fault gives the process a private copy and drops its reference to the original.\<close>

lemma fault_shared:
  assumes f: "faulting s i p (m # fs) va" and r: "page_to_refcnt s (pfn (pt s p (pfn va))) > 1"
  obtains s' where "handle_page_fault va s = Ok s'" "space s' p fs"
    "pt s' p = (pt s p)(pfn va := V2P m OR PTE_FLAGS (pt s p (pfn va)) OR PTE_W)"
    "\<forall>j < 4096. mem s' (frm m) j = mem s (pfn (pt s p (pfn va))) j"
    "page_to_refcnt s' = (page_to_refcnt s)(frm m := 1,
       pfn (pt s p (pfn va)) := page_to_refcnt s (pfn (pt s p (pfn va))) - 1)"
    "\<forall>g. g \<notin> owned s p \<union> {frm m} \<longrightarrow> mem s' g = mem s g" "owned s' p = owned s p" "ptable s' = ptable s"
    "vm_frame s s'" "cr3 s' = V2P p"
proof -
  let ?x = "pt s p (pfn va)" and ?n = "pfn va"
  have wf: "pgdir_wf s p" and sp: "space s p (m # fs)" and pr: "bit ?x 0" "pfn ?x < NFRAME"
    and c: "curproc s = Some i" "p_pgdir (ptable s i) = p" and nx: "pfn ?x \<noteq> frm m" "pfn ?x \<notin> owned s p"
    and nm: "frm m \<notin> owned s p" and nf: "frm m \<notin> frm ` set fs"
    using f free_frms [of s "[m]" fs] by (auto simp: faulting_def space_def)
  have m: "kpg m" using sp by (auto simp: space_def free_pages_def page_ok_def)
  from kalloc_free [OF spaceD(2) [OF sp]] obtain s1 where s1: "kalloc s = Ok (m, s1)" "free_pages s1 fs"
    "mem_frame s s1" "mem s1 = mem s" "page_to_refcnt s1 = (page_to_refcnt s)(frm m := 1)" .
  define s2 where "s2 = s1\<lparr>page_to_refcnt := (page_to_refcnt s1)(pfn ?x := page_to_refcnt s1 (pfn ?x) - 1),
      mem := (mem s)(frm m := blit (mem s (frm m)) 0 (mem s (pfn ?x)) 0 4096)\<rparr>"
  have fr2: "mem_frame s s2" unfolding s2_def by (rule mem_frame_trans [OF s1(3) mem_frame_upd2])
  have m2: "mem s2 = (mem s)(frm m := blit (mem s (frm m)) 0 (mem s (pfn ?x)) 0 4096)" "freelist s2 = freelist s1"
    "num_free_pages s2 = num_free_pages s1" "kend s2 = kend s" by (simp_all add: s2_def mem_frame_sel [OF s1(3)])
  have pd: "bit (pde s p (?n div 1024)) 0" using pt_present [OF pr(1)] by simp
  from install_page [OF sp pfn_bound pd s1(1) m2, of "V2P m OR PTE_FLAGS ?x OR PTE_W"] obtain t where t:
    "kstore (pte_addr s p ?n) (V2P m OR PTE_FLAGS ?x OR PTE_W) s2 = Ok t" "mem_frame s2 t" "space t p fs"
    "pt t p = (pt s p)(?n := V2P m OR PTE_FLAGS ?x OR PTE_W)" "owned t p = owned s p"
    "mem t (frm m) = blit (mem s (frm m)) 0 (mem s (pfn ?x)) 0 4096"
    "\<forall>g. g \<notin> owned s p \<union> {frm m} \<longrightarrow> mem t g = mem s g" "page_to_refcnt t = page_to_refcnt s2" .
  have frt: "mem_frame s t" using fr2 t(2) by (rule mem_frame_trans)
  have tab: "ptable t = ptable s" "curproc t = curproc s" "kend t = kend s" by (rule mem_frame_sel [OF frt])+
  define s' where "s' = lcr3 (V2P p) t"
  have ld: "kload (pte_addr s p ?n) s1 = Ok ?x" using kload_pte [OF wf pfn_bound pd] kload_mem [OF s1(4)] by simp
  have ok: "handle_page_fault va s = Ok s'"
    using handle_present [OF f] pr r ld t(1) c tab kpg_nonzero [OF m] s1(1,4) nx
    by (simp add: fault_present_def cow_page_def kpage_page [OF kpg_pte] kpage_upd_page [OF m] s2_def
        s'_def myproc_def Let_def)
  have m': "mem s' = mem t" "kend s' = kend t" "freelist s' = freelist t" "num_free_pages s' = num_free_pages t"
    "page_to_refcnt s' = page_to_refcnt t" "ptable s' = ptable t" "cr3 s' = V2P p"
    by (simp_all add: s'_def lcr3_def)
  have "space s' p fs" "owned s' p = owned t p" "pt s' p = pt t p"
    by (rule space_cong [OF t(3)]; simp add: m')+
  moreover have "vm_frame s s'" using mem_frame_vm [OF frt] vm_frame_lcr3 unfolding s'_def by (rule vm_frame_trans)
  moreover have "\<forall>j < 4096. mem s' (frm m) j = mem s (pfn ?x) j" by (simp add: m' t(6) byte_simps)
  moreover have "page_to_refcnt s' = (page_to_refcnt s)(frm m := 1, pfn ?x := page_to_refcnt s (pfn ?x) - 1)"
    using nx by (simp add: m' t(8) s2_def s1(5))
  ultimately show thesis using t(4,5,7) m' tab by (intro that [OF ok]) auto
qed

section \<open>Isolation\<close>

text \<open>A byte of a user page, and the pages of a process whose frames belong to no table and are not free.\<close>

definition user_byte :: "'a vm_scheme \<Rightarrow> u32 \<Rightarrow> nat \<Rightarrow> nat \<Rightarrow> u8" where
  "user_byte s d n j = mem s (pfn (pt s d n)) j"

definition private_pages :: "'a vm_scheme \<Rightarrow> u32 \<Rightarrow> nat \<Rightarrow> nat set \<Rightarrow> bool" where
  "private_pages s d k F \<longleftrightarrow> (\<forall>n < k. bit (pt s d n) 0 \<and> pfn (pt s d n) < NFRAME \<and> pfn (pt s d n) \<notin> F)"

lemma pfn_new_pte: "kpg m \<Longrightarrow> pfn (V2P m OR PTE_FLAGS x OR PTE_W) = frm m"
  unfolding frm_def or.assoc by (rule pfn_or) (intro flags_or, auto)

section \<open>A concrete machine\<close>

text \<open>The page of a frame, and free pages that follow each other in memory.\<close>

definition page_at :: "nat \<Rightarrow> u32" where
  "page_at f = P2V (of_nat f * PGSIZE)"

lemma page_at [simp]:
  assumes "f < NFRAME"
  shows "frm (page_at f) = f" "kpg (page_at f)" "V2P (page_at f) = of_nat f * PGSIZE" "unat (page_at f) = 0x80000000 + f * 4096"
proof -
  have u: "unat (of_nat f * PGSIZE :: u32) = f * 4096" using assms by (simp add: unat_word_ariths unat_of_nat)
  then show "frm (page_at f) = f" by (simp add: page_at_def frm_def pfn_div)
  show "V2P (page_at f) = of_nat f * PGSIZE" by (simp add: page_at_def)
  show "kpg (page_at f)" using assms u by (simp add: page_at_def kpg_P2V_iff word_less_nat_alt)
  show "unat (page_at f) = 0x80000000 + f * 4096" using assms u by (simp add: page_at_def P2V_def unat_word_ariths)
qed

lemma ld32_zero [simp]: "ld32 (\<lambda>_. 0) q = 0"
  by (simp add: ld32_def)

lemma chain_upt:
  assumes "\<forall>f. a \<le> f \<and> f < b \<longrightarrow> ld32 (m f) 0 = (if Suc f = b then 0 else page_at (Suc f))" "b \<le> NFRAME"
  shows "chain m (if a < b then page_at a else 0) (map page_at [a..<b])"
  using assms
proof (induction "b - a" arbitrary: a)
  case (Suc n)
  then have ab: "a < b" by simp
  have "chain m (if Suc a < b then page_at (Suc a) else 0) (map page_at [Suc a..<b])" using Suc by (intro Suc.hyps(1)) auto
  moreover have "ld32 (m a) 0 = (if Suc a < b then page_at (Suc a) else 0)" using Suc.prems ab by auto
  ultimately show ?case using ab Suc.prems(2) by (simp add: upt_conv_Cons)
qed simp

lemma free_run:
  assumes "\<forall>f. a \<le> f \<and> f < b \<longrightarrow> ld32 (mem s f) 0 = (if Suc f = b then 0 else page_at (Suc f))"
    "a < b" "b \<le> NFRAME" "kend s \<le> page_at a" "freelist s = page_at a" "num_free_pages s = of_nat (b - a)"
  shows "free_pages s (map page_at [a..<b])"
proof -
  have inj: "x = y" if "page_at x = page_at y" "x < NFRAME" "y < NFRAME" for x y
    using arg_cong [OF that(1), of frm] that(2,3) by simp
  have "distinct (map page_at [a..<b])" using assms(3) by (auto simp: distinct_map inj_on_def intro!: inj)
  moreover have "page_ok s (page_at f)" if "a \<le> f" "f < b" for f
    using that assms(2-4) by (simp add: page_ok_def word_le_nat_alt)
  ultimately show ?thesis using chain_upt [OF assms(1,3)] assms(2,5,6) by (auto simp: free_pages_def)
qed

text \<open>A directory with one page table.\<close>

lemma one_table:
  assumes d: "kpg d" "kpg t" "frm t \<noteq> frm d" and m: "mem s (frm d) = st32 (\<lambda>_. 0) 0 (V2P t OR PTE_P OR PTE_W OR PTE_U)"
  shows "pgdir_wf s d" "owned s d = {frm d, frm t}" "pt s d n = (if n < 1024 then ld32 (mem s (frm t)) (4 * n) else 0)"
    "pde s d i = (if i = 0 then V2P t OR PTE_P OR PTE_W OR PTE_U else 0)"
proof -
  have pd: "pde s d i = (if i = 0 then V2P t OR PTE_P OR PTE_W OR PTE_U else 0)" for i
    using ld32_st32_elem [of "\<lambda>_. 0" 0 _ i] by (cases "i = 0") (simp_all add: pde_def m ld32_st32_disjoint)
  show "pde s d i = (if i = 0 then V2P t OR PTE_P OR PTE_W OR PTE_U else 0)" by (rule pd)
  note e = PTE_new_table [OF d(2)]
  show "pgdir_wf s d" using d e by (auto simp: pgdir_wf_def pd split: if_splits)
  show "owned s d = {frm d, frm t}" using e by (auto simp: owned_def pd split: if_splits)
  have "n div 1024 = 0 \<longleftrightarrow> n < 1024" by auto
  then show "pt s d n = (if n < 1024 then ld32 (mem s (frm t)) (4 * n) else 0)"
    using e by (auto simp: pt_def pd)
qed

text \<open>
  A process with one page of memory in frame 516, its directory in frame 512 and its page table in frame
  513; frames 768 to 783 are free.
\<close>

definition one_page_procs :: "nat \<Rightarrow> proc" where
  "one_page_procs i = (if i = 3 then zero_proc\<lparr>p_pgdir := page_at 512, p_sz := PGSIZE, p_rss := PGSIZE, p_kstack := page_at 600\<rparr>
     else if i = 4 then zero_proc\<lparr>p_kstack := page_at 601\<rparr> else zero_proc)"

definition one_page_mem :: "nat \<Rightarrow> bytes" where
  "one_page_mem f =
     (if f = 512 then st32 (\<lambda>_. 0) 0 (V2P (page_at 513) OR PTE_P OR PTE_W OR PTE_U)
      else if f = 513 then st32 (\<lambda>_. 0) 0 0x204007
      else if f = 516 then (\<lambda>j. of_nat j)
      else if 768 \<le> f \<and> f < 783 then st32 (\<lambda>_. 0) 0 (page_at (Suc f))
      else (\<lambda>_. 0))"

definition one_page_vm :: vm where
  "one_page_vm = (quiet_vm one_page_procs (\<lambda>_ _ _. 0) ())
     \<lparr>curproc := Some 3, mem := one_page_mem, freelist := page_at 768, num_free_pages := 16,
      page_to_refcnt := (\<lambda>f. if f = 516 then 1 else 0),
      swap_slots := (\<lambda>i. \<lparr>is_free = True, page_perm = 0, blockno = SWAPBASE + of_nat (i * BPPAGE), refcnt_to_disk = 0\<rparr>)\<rparr>"

lemma one_page_sel:
  "ptable one_page_vm = one_page_procs" "curproc one_page_vm = Some 3" "mem one_page_vm = one_page_mem"
  "freelist one_page_vm = page_at 768" "num_free_pages one_page_vm = 16"
  "page_to_refcnt one_page_vm = (\<lambda>f. if f = 516 then 1 else 0)" "kend one_page_vm = 0x80110000"
  "kdata one_page_vm = 0x80108000" "p_sz (one_page_procs 3) = PGSIZE" "p_pgdir (one_page_procs 3) = page_at 512"
  "blockno (swap_slots one_page_vm i) = SWAPBASE + of_nat (i * BPPAGE)" "is_free (swap_slots one_page_vm i)"
  by (simp_all add: one_page_vm_def quiet_vm_def quiet_ext_def one_page_procs_def)

lemma one_page_dir:
  "pgdir_wf one_page_vm (page_at 512)" "owned one_page_vm (page_at 512) = {512, 513}"
  "pt one_page_vm (page_at 512) n = (if n = 0 then 0x204007 else 0)" "bit (pde one_page_vm (page_at 512) 0) 0"
proof -
  note t = one_table [of "page_at 512" "page_at 513" "one_page_vm"]
  show "pgdir_wf one_page_vm (page_at 512)" "owned one_page_vm (page_at 512) = {512, 513}"
    "bit (pde one_page_vm (page_at 512) 0) 0"
    using t by (simp_all add: one_page_sel one_page_mem_def bit_or_iff bit_flags)
  have "pt one_page_vm (page_at 512) n = (if n < 1024 then ld32 (one_page_mem 513) (4 * n) else 0)"
    using t(3) by (simp add: one_page_sel one_page_mem_def)
  also have "\<dots> = (if n = 0 then 0x204007 else 0)"
    by (cases "n = 0") (simp_all add: one_page_mem_def ld32_st32_disjoint)
  finally show "pt one_page_vm (page_at 512) n = (if n = 0 then 0x204007 else 0)" .
qed

lemma one_page_pfn [simp]: "pfn 0x204007 = 516"
  by (simp add: pfn_def)

definition one_page_free :: "u32 list" where
  "one_page_free = map page_at [768..<784]"

lemma one_page_free [simp]: "frm ` set one_page_free = {768..<784}" "length one_page_free = 16"
proof -
  have "frm (page_at f) = f" if "f \<in> {768..<784}" for f using that by simp
  then show "frm ` set one_page_free = {768..<784}"
    unfolding one_page_free_def set_map set_upt image_image by force
  show "length one_page_free = 16" by (simp only: one_page_free_def length_map length_upt)
qed

lemma one_page_space: "space one_page_vm (page_at 512) one_page_free"
proof -
  have "free_pages one_page_vm one_page_free" unfolding one_page_free_def
    by (rule free_run) (auto simp: one_page_sel one_page_mem_def word_le_nat_alt)
  then show ?thesis using one_page_dir by (simp add: space_def)
qed

lemma one_page_layout: "layout_ok one_page_vm"
  by (simp add: layout_ok_def one_page_sel pg_aligned_def P2V_def)

lemma one_page_npages [simp]: "npages PGSIZE = 1"
  by (simp add: npages_def)

lemma one_page_private: "private_pages one_page_vm (page_at 512) 1 (frm ` set one_page_free \<union> owned one_page_vm (page_at 512))"
  by (simp add: private_pages_def one_page_dir)

lemma one_page_refs: "refs (pt one_page_vm (page_at 512)) {0} f = page_to_refcnt one_page_vm f"
  using refs_insert [of "{}" 0 "pt one_page_vm (page_at 512)" f] by (simp add: one_page_dir one_page_sel refs_def)

end
