(* ===== verification/Swap.thy ===== *)
theory Swap
  imports Fault
begin

text \<open>
  Swapping: the choice of the victim page and the second chance the accessed bits give, the eviction of a
  page to a slot of the disk, the fault that brings it back, and the round trip of the two.
\<close>

unbundle bit_operations_syntax

section \<open>The victim page\<close>

text \<open>Present, a user page, and not accessed since the bit was last cleared.\<close>

definition evictable :: "u32 \<Rightarrow> bool" where
  "evictable x \<longleftrightarrow> bit x 0 \<and> bit x 2 \<and> \<not> bit x 5"

lemma evictable_flags: "has x PTE_P \<and> has x PTE_U \<and> \<not> has x PTE_A \<longleftrightarrow> evictable x"
  by (simp add: evictable_def)

text \<open>Every page of the process has its page table.\<close>

definition tables_for :: "'a vm_scheme \<Rightarrow> u32 \<Rightarrow> nat \<Rightarrow> bool" where
  "tables_for s d k \<longleftrightarrow> k \<le> NVPN \<and> (\<forall>n < k. bit (pde s d (n div 1024)) 0)"

lemma victim_page_loop_find:
  assumes "pgdir_wf s d" "\<forall>n \<in> set ns. n < NVPN \<and> bit (pde s d (n div 1024)) 0"
  shows "victim_page_loop d (map (\<lambda>k. of_nat k * PGSIZE) ns) s =
    Ok (case List.find (\<lambda>n. evictable (pt s d n)) ns of None \<Rightarrow> 0 | Some n \<Rightarrow> pte_addr s d n)"
  using assms
proof (induction ns)
  case (Cons n ns)
  then show ?case
    using kload_pte [OF Cons.prems(1), of n] by (simp add: walk0 pfn_of_nat evictable_def)
qed simp

lemma get_victim_page_find:
  assumes "pgdir_wf s (p_pgdir (ptable s v))" "tables_for s (p_pgdir (ptable s v)) (npages (p_sz (ptable s v)))"
  shows "get_victim_page v s = Ok (case List.find (\<lambda>n. evictable (pt s (p_pgdir (ptable s v)) n)) [0..<npages (p_sz (ptable s v))]
    of None \<Rightarrow> 0 | Some n \<Rightarrow> pte_addr s (p_pgdir (ptable s v)) n)"
  unfolding get_victim_page_def page_range_0
  using assms by (intro victim_page_loop_find) (auto simp: tables_for_def)

definition accessed :: "u32 \<Rightarrow> bool" where
  "accessed x \<longleftrightarrow> bit x 0 \<and> bit x 2 \<and> bit x 5"

text \<open>What a scan leaves: entries differ at most in the accessed bit.\<close>

definition flushed :: "'a vm_scheme \<Rightarrow> u32 \<Rightarrow> 'a vm_scheme \<Rightarrow> bool" where
  "flushed s d t \<longleftrightarrow> mem_frame s t \<and> pgdir_wf t d \<and> owned t d = owned s d \<and> pde t d = pde s d \<and>
     (\<forall>n. pt t d n = pt s d n \<or> accessed (pt s d n) \<and> pt t d n = pt s d n AND NOT PTE_A) \<and>
     (\<forall>g. g \<notin> owned s d \<longrightarrow> mem t g = mem s g) \<and> freelist t = freelist s \<and>
     num_free_pages t = num_free_pages s \<and> page_to_refcnt t = page_to_refcnt s"

lemma not_accessed_cleared: "\<not> accessed (x AND NOT PTE_A)"
  by (simp add: accessed_def bit_simps bit_flags)

lemma flushed_trans:
  assumes st: "flushed s d t" and tu: "flushed t d u"
  shows "flushed s d u"
proof -
  have "pt u d n = pt s d n \<or> accessed (pt s d n) \<and> pt u d n = pt s d n AND NOT PTE_A" for n
  proof (cases "pt t d n = pt s d n")
    case True
    then show ?thesis using tu unfolding flushed_def by metis
  next
    case False
    then have "accessed (pt s d n)" "pt t d n = pt s d n AND NOT PTE_A" using st unfolding flushed_def by blast+
    then show ?thesis using tu not_accessed_cleared unfolding flushed_def by metis
  qed
  moreover have "mem_frame s u" using st tu unfolding flushed_def by (blast intro: mem_frame_trans)
  ultimately show ?thesis using st tu by (simp add: flushed_def)
qed

text \<open>
  One round of flush_table counts an accessed page, and clears its bit when the counter is at zero.
\<close>

lemma flush_step_spec:
  assumes wf: "pgdir_wf s d" and n: "n < NVPN" and pd: "bit (pde s d (n div 1024)) 0"
  obtains s' where
    "flush_step d (of_nat n * PGSIZE) (c, s) = Ok (if accessed (pt s d n) then (c + 1) mod 10 else c, s')"
    "flushed s d s'"
    "pt s' d = (if accessed (pt s d n) \<and> c = 0 then (pt s d)(n := pt s d n AND NOT PTE_A) else pt s d)"
proof -
  let ?x = "pt s d n"
  note l = kload_pte [OF wf n pd]
  show thesis
  proof (cases "accessed ?x \<and> c = 0")
    case True
    from kstore_pte [OF wf n pd, where v = "?x AND NOT PTE_A"] obtain s' where s':
      "kstore (pte_addr s d n) (?x AND NOT PTE_A) s = Ok s'" "mem_frame s s'" "pgdir_wf s' d"
      "owned s' d = owned s d" "pde s' d = pde s d" "pt s' d = (pt s d)(n := ?x AND NOT PTE_A)"
      "\<forall>f. f \<notin> owned s d - {frm d} \<longrightarrow> mem s' f = mem s f"
      "freelist s' = freelist s" "num_free_pages s' = num_free_pages s" "page_to_refcnt s' = page_to_refcnt s" .
    then have "flushed s d s'" using True by (auto simp: flushed_def)
    with s'(1,6) show thesis using True l pd
      by (intro that [of s']) (simp_all add: flush_step_def walk0 [OF wf] pfn_of_nat [OF n] accessed_def)
  next
    case False
    have "flushed s d s" using wf by (simp add: flushed_def)
    with False show thesis using l pd
      by (intro that [of s]) (auto simp: flush_step_def walk0 [OF wf] pfn_of_nat [OF n] accessed_def)
  qed
qed

lemma flush_fold:
  assumes "pgdir_wf s d" "\<forall>n \<in> set ns. n < NVPN \<and> bit (pde s d (n div 1024)) 0"
  shows "\<exists>c' s'. foldR (flush_step d) (map (\<lambda>k. of_nat k * PGSIZE) ns) (c, s) = Ok (c', s') \<and> flushed s d s' \<and>
    (c = 0 \<and> List.find (\<lambda>n. accessed (pt s d n)) ns = Some m \<longrightarrow> pt s' d m = pt s d m AND NOT PTE_A)"
  using assms
proof (induction ns arbitrary: s c)
  case Nil
  then show ?case by (simp add: flushed_def)
next
  case (Cons n ns)
  then have n: "n < NVPN" "bit (pde s d (n div 1024)) 0" by auto
  let ?a = "accessed (pt s d n)" let ?c = "if ?a then (c + 1) mod 10 else c"
  from flush_step_spec [OF Cons.prems(1) n, of c] obtain s1 where s1:
    "flush_step d (of_nat n * PGSIZE) (c, s) = Ok (?c, s1)" "flushed s d s1"
    "pt s1 d = (if ?a \<and> c = 0 then (pt s d)(n := pt s d n AND NOT PTE_A) else pt s d)"
    .
  have "pgdir_wf s1 d" "\<forall>n \<in> set ns. n < NVPN \<and> bit (pde s1 d (n div 1024)) 0"
    using s1(2) Cons.prems(2) by (auto simp: flushed_def)
  from Cons.IH [OF this, of ?c] obtain c' s' where s':
    "foldR (flush_step d) (map (\<lambda>k. of_nat k * PGSIZE) ns) (?c, s1) = Ok (c', s')" "flushed s1 d s'"
    "?c = 0 \<and> List.find (\<lambda>n. accessed (pt s1 d n)) ns = Some m \<longrightarrow> pt s' d m = pt s1 d m AND NOT PTE_A" by blast
  have "pt s' d m = pt s d m AND NOT PTE_A" if c: "c = 0" and f: "List.find (\<lambda>n. accessed (pt s d n)) (n # ns) = Some m"
  proof (cases ?a)
    case True
    then have "pt s1 d m = pt s d m AND NOT PTE_A" using c f s1(3) by simp
    then show ?thesis using s'(2) not_accessed_cleared unfolding flushed_def by metis
  next
    case False
    then show ?thesis using c f s1(3) s'(3) by auto
  qed
  moreover have "flushed s d s'" using s1(2) s'(2) by (rule flushed_trans)
  ultimately show ?case using s1(1) s'(1) by auto
qed

text \<open>The process whose page is evicted: its directory, with a table for each of its pages.\<close>

definition victim_ok :: "'a vm_scheme \<Rightarrow> nat \<Rightarrow> bool" where
  "victim_ok s v \<longleftrightarrow> pgdir_wf s (p_pgdir (ptable s v)) \<and>
     tables_for s (p_pgdir (ptable s v)) (npages (p_sz (ptable s v)))"

lemma find_first: "x \<in> set xs \<Longrightarrow> P x \<Longrightarrow> \<exists>y. List.find P xs = Some y"
  by (induction xs) auto

text \<open>
  final_page takes the resident size down and returns the entry of an evictable page, whenever the victim
  has a user page in memory: if all of them are accessed, the flush makes the first one evictable.
\<close>

lemma final_page_spec:
  assumes v: "get_victim_process s = Some v" and ok: "victim_ok s v"
    and d: "d = p_pgdir (ptable s v)" and k: "k = npages (p_sz (ptable s v))"
    and ex: "m < k" "bit (pt s d m) 0" "bit (pt s d m) 2"
  obtains n t where "final_page s = Ok (pte_addr t d n, t)" "n < k" "evictable (pt t d n)"
    "flushed (upd_proc v (\<lambda>p. p\<lparr>p_rss := p_rss p - PGSIZE\<rparr>) s) d t"
proof -
  define s1 where "s1 = upd_proc v (\<lambda>p. p\<lparr>p_rss := p_rss p - PGSIZE\<rparr>) s"
  have "mem s1 g = mem s g" if "g \<in> owned s d" for g by (simp add: s1_def)
  note pc = pt_cong [OF this]
  have p1: "pde s1 d = pde s d" "pt s1 d = pt s d" "pgdir_wf s1 d = pgdir_wf s d" by (rule pc; assumption)+
  have tab: "p_pgdir (ptable s1 v) = d" "npages (p_sz (ptable s1 v)) = k" using d k by (simp_all add: s1_def)
  have wf: "pgdir_wf s1 d" and tf: "tables_for s1 d k" using ok d k p1 by (auto simp: victim_ok_def tables_for_def)
  note g1 = get_victim_page_find [of s1 v, unfolded tab, OF wf tf]
  show thesis
  proof (cases "List.find (\<lambda>n. evictable (pt s1 d n)) [0..<k]")
    case (Some n)
    then have n: "n < k" "evictable (pt s1 d n)" using find_SomeD [OF Some] by auto
    have "pte_addr s1 d n \<noteq> 0" using n wf tf by (intro pte_addr_nonzero) (auto simp: tables_for_def)
    then have "final_page s = Ok (pte_addr s1 d n, s1)"
      using v g1 Some by (simp add: final_page_def s1_def [symmetric])
    moreover have "flushed s1 d s1" using wf by (simp add: flushed_def)
    ultimately show thesis using n by (intro that) (auto simp: s1_def)
  next
    case None
    have ac: "accessed (pt s1 d n)" if "n < k" "bit (pt s1 d n) 0" "bit (pt s1 d n) 2" for n
      using None that by (auto simp: find_None_iff evictable_def accessed_def)
    obtain a where a: "List.find (\<lambda>n. accessed (pt s1 d n)) [0..<k] = Some a"
      using find_first [of m "[0..<k]" "\<lambda>n. accessed (pt s1 d n)"] ac ex p1 by auto
    from flush_fold [OF wf, of "[0..<k]" 0 a] tf a obtain c t where t:
      "foldR (flush_step d) (map (\<lambda>k. of_nat k * PGSIZE) [0..<k]) (0, s1) = Ok (c, t)" "flushed s1 d t"
      "pt t d a = pt s1 d a AND NOT PTE_A" by (auto simp: tables_for_def)
    have fl: "flush_table v s1 = Ok t" using t(1) tab by (simp add: flush_table_def page_range_0)
    have tt: "ptable t = ptable s1" using t(2) by (simp add: flushed_def mem_frame_sel)
    have wft: "pgdir_wf t d" "tables_for t d k" using t(2) tf by (auto simp: flushed_def tables_for_def)
    have "a < k" "evictable (pt t d a)" using find_SomeD [OF a] t(3)
      by (auto simp: evictable_def accessed_def bit_simps bit_flags)
    with find_first [of a "[0..<k]" "\<lambda>n. evictable (pt t d n)"] obtain n where
      n: "List.find (\<lambda>n. evictable (pt t d n)) [0..<k] = Some n" by auto
    then have n': "n < k" "evictable (pt t d n)" using find_SomeD [OF n] by auto
    have g2: "get_victim_page v t = Ok (pte_addr t d n)"
      using get_victim_page_find [of t v, unfolded tt tab, OF wft] n by simp
    have "final_page s = Ok (pte_addr t d n, t)"
      using v g1 None fl g2 by (simp add: final_page_def s1_def [symmetric])
    with n' t(2) show thesis by (intro that) (auto simp: s1_def)
  qed
qed

section \<open>Eviction\<close>

lemma available_cong:
  assumes "bufs t = bufs s" "lru t = lru s" "idequeue t = idequeue s" "havedisk1 t = havedisk1 s"
    "ide_err t = ide_err s" "disk t = disk s" "curproc t = curproc s"
  shows "available n t = available n s" "view t = view s"
proof -
  show "available n t = available n s" using assms by (simp add: available_def bio_ready_def bio_inv_def)
  have "cached t = cached s" by (intro ext) (simp add: cached_def assms)
  then show "view t = view s" by (intro ext) (simp add: view_def assms split: option.split)
qed

lemma swapped_pte_bits:
  assumes "bn < 0x100000"
  shows "\<not> bit (swapped_pte bn) 0" "bit (swapped_pte bn) 3" "drop_bit 12 (swapped_pte bn) = bn"
proof -
  have b: "\<not> bit bn k" if "20 \<le> k" for k
  proof -
    have "unat bn < 2 ^ 20" using assms by (simp add: word_less_nat_alt)
    then have "take_bit 20 (unat bn) = unat bn" by (simp add: take_bit_nat_eq_self)
    then have "\<not> bit (unat bn) k" using that by (metis bit_take_bit_iff not_less)
    then show ?thesis by (auto simp: bit_unsigned_iff dest: bit_imp_le_length)
  qed
  then have b': "k < 20" if "bit bn k" for k using that not_less by blast
  show "\<not> bit (swapped_pte bn) 0" "bit (swapped_pte bn) 3"
    by (simp_all add: swapped_pte_def Let_def bit_simps bit_flags)
  show "drop_bit 12 (swapped_pte bn) = bn"
    by (rule bit_word_eqI)
      (auto simp: swapped_pte_def Let_def PTE_FLAGS_def bit_simps bit_flags mask12 dest: b')
qed


text \<open>
  The page \<open>n\<close> of directory \<open>d\<close> as swap_out meets it: present, its frame one that may be freed and to
  which this is the only reference.
\<close>

definition sole_page :: "'a vm_scheme \<Rightarrow> u32 \<Rightarrow> nat \<Rightarrow> u32 list \<Rightarrow> bool" where
  "sole_page s d n fs \<longleftrightarrow> bit (pt s d n) 0 \<and> page_ok s (P2V (PTE_ADDR (pt s d n))) \<and>
     pfn (pt s d n) \<notin> frm ` set fs \<union> owned s d \<and> page_to_refcnt s (pfn (pt s d n)) \<le> 1"

text \<open>The eight blocks of a slot hold a page.\<close>

definition on_disk :: "'a bio_scheme \<Rightarrow> u32 \<Rightarrow> bytes \<Rightarrow> bool" where
  "on_disk s bn b \<longleftrightarrow> swapdev.holds s bn 8 b"

lemma write_page_spec:
  assumes "\<forall>j < 8. available (bn + of_nat j) s"
  obtains s' where "write_page_to_swap bn b s = Ok s'" "bio_frame s s'" "\<forall>m. available m s \<longrightarrow> available m s'"
    "on_disk s' bn b" "\<forall>m. (\<forall>j < 8. m \<noteq> bn + of_nat j) \<longrightarrow> view s' m = view s m"
  using swapdev.write_loop [OF order_refl assms, of b] by (auto simp: write_page_to_swap_def on_disk_def)

text \<open>Freeing the frame of a page and overwriting its entry, as eviction and deallocation do.\<close>

lemma unmap_page:
  assumes sp: "space s d fs" and n: "n < NVPN" and pg: "sole_page s d n fs"
  obtains t s' where "kfree (P2V (PTE_ADDR (pt s d n))) s = Ok t" "kstore (pte_addr s d n) w t = Ok s'"
    "mem_frame s t" "mem_frame s s'" "space s' d (P2V (PTE_ADDR (pt s d n)) # fs)" "pt s' d = (pt s d)(n := w)"
    "owned s' d = owned s d" "page_to_refcnt s' = page_to_refcnt s" "pde s' d = pde s d"
    "\<forall>g. g \<notin> owned s d \<union> {pfn (pt s d n)} \<longrightarrow> mem s' g = mem s g"
proof -
  let ?x = "pt s d n" and ?v = "P2V (PTE_ADDR (pt s d n))"
  have v: "page_ok s ?v" "?v \<notin> set fs" "frm ?v = pfn ?x" "page_to_refcnt s (frm ?v) \<le> 1"
    using pg imageI [of ?v "set fs" frm] by (auto simp: sole_page_def)
  from kfree_last [OF spaceD(2) [OF sp] v(1,2,4)] obtain t where t: "kfree ?v s = Ok t" "free_pages t (?v # fs)"
    "mem_frame s t" "\<forall>f. f \<noteq> frm ?v \<longrightarrow> mem t f = mem s f" "page_to_refcnt t = page_to_refcnt s" .
  have nv: "frm ?v \<notin> owned s d" using pg by (simp add: sole_page_def)
  then have "mem t g = mem s g" if "g \<in> owned s d" for g using t(4) that by metis
  note pc = pt_cong [OF this]
  have p: "pde t d = pde s d" "pt t d = pt s d" "owned t d = owned s d" "pgdir_wf t d = pgdir_wf s d"
    "pte_addr t d = pte_addr s d" by (rule pc; assumption)+
  have wf: "pgdir_wf t d" using p(4) sp by (simp add: space_def)
  have pd: "bit (pde s d (n div 1024)) 0" using pg pt_present [of s d n] by (simp add: sole_page_def)
  from kstore_pte [OF wf n, of w] pd obtain s' where s':
    "kstore (pte_addr s d n) w t = Ok s'" "mem_frame t s'" "pgdir_wf s' d" "owned s' d = owned s d" "pde s' d = pde s d"
    "pt s' d = (pt s d)(n := w)" "\<forall>f. f \<notin> owned s d - {frm d} \<longrightarrow> mem s' f = mem t f"
    "freelist s' = freelist t" "num_free_pages s' = num_free_pages t" "page_to_refcnt s' = page_to_refcnt t"
    unfolding p by metis
  have nq: "frm q \<notin> owned s d" if "q \<in> set (?v # fs)" for q using that sp nv by (auto simp: space_def)
  then have dj: "frm ` set (?v # fs) \<inter> owned s d = {}" by blast
  have "free_pages s' (?v # fs)"
  proof (rule free_pages_mem [OF t(2) _ s'(2,8,9)])
    fix q assume "q \<in> set (?v # fs)"
    then show "mem s' (frm q) = mem t (frm q)" using nq s'(7) by simp
  qed
  with dj have "space s' d (?v # fs)" using s'(3,4) by (simp add: space_def)
  moreover have "mem_frame s s'" using t(3) s'(2) by (rule mem_frame_trans)
  ultimately show thesis using s' t v(3) by (intro that [OF t(1) s'(1) t(3)]) auto
qed

lemma evict_spec:
  assumes sp: "space s d fs" and n: "n < NVPN" and pg: "sole_page s d n fs"
    and slot: "free_slot s = Some i" and av: "\<forall>j < 8. available (blockno (swap_slots s i) + of_nat j) s"
    and fp: "final_page s0 = Ok (pte_addr s d n, s)"
  obtains s' where "swap_out s0 = Ok s'" "space s' d (P2V (PTE_ADDR (pt s d n)) # fs)"
    "pt s' d = (pt s d)(n := swapped_pte (blockno (swap_slots s i)))" "owned s' d = owned s d"
    "swap_slots s' = (swap_slots s)(i := (swap_slots s i)\<lparr>is_free := False, page_perm := PTE_FLAGS (pt s d n)\<rparr>)"
    "on_disk s' (blockno (swap_slots s i)) (mem s (pfn (pt s d n)))"
    "\<forall>m. (\<forall>j < 8. m \<noteq> blockno (swap_slots s i) + of_nat j) \<longrightarrow> view s' m = view s m"
    "\<forall>m. available m s \<longrightarrow> available m s'" "page_to_refcnt s' = page_to_refcnt s" "same_procs s s'"
    "\<forall>g. g \<notin> owned s d \<union> {pfn (pt s d n)} \<longrightarrow> mem s' g = mem s g" "pde s' d = pde s d"
proof -
  let ?x = "pt s d n" and ?bn = "blockno (swap_slots s i)" and ?v = "P2V (PTE_ADDR (pt s d n))"
  define s1 where "s1 = upd_slot i (\<lambda>h. h\<lparr>page_perm := PTE_FLAGS ?x\<rparr>) (upd_slot i (\<lambda>h. h\<lparr>is_free := False\<rparr>) s)"
  have f1: "mem s1 = mem s" "freelist s1 = freelist s" "num_free_pages s1 = num_free_pages s"
    "page_to_refcnt s1 = page_to_refcnt s" "kend s1 = kend s"
    "swap_slots s1 = (swap_slots s)(i := (swap_slots s i)\<lparr>is_free := False, page_perm := PTE_FLAGS ?x\<rparr>)"
    by (simp_all add: s1_def)
  have b1: "available m s1 = available m s" "view s1 = view s" "same_procs s s1" for m
    by (rule available_cong; simp add: s1_def upd_slot_def)+ (rule same_procs_cong; simp add: s1_def upd_slot_def)
  from write_page_spec [of ?bn s1 "mem s (pfn ?x)"] av obtain s2 where s2:
    "write_page_to_swap ?bn (mem s (pfn ?x)) s1 = Ok s2" "bio_frame s1 s2" "\<forall>m. available m s1 \<longrightarrow> available m s2"
    "on_disk s2 ?bn (mem s (pfn ?x))" "\<forall>m. (\<forall>j < 8. m \<noteq> ?bn + of_nat j) \<longrightarrow> view s2 m = view s1 m"
    unfolding b1 by blast
  have "bio.more s2 = bio.more s1" using s2(2) by (simp add: bio_frame_def)
  note f2 = vm_more_sel [OF this]
  have sp2: "space s2 d fs" "owned s2 d = owned s d" "pt s2 d = pt s d" "pte_addr s2 d = pte_addr s d" "pde s2 d = pde s d"
    by (rule space_cong [OF sp]; simp add: f1 f2)+
  have "sole_page s2 d n fs" using pg unfolding sole_page_def sp2 page_ok_def f2 f1 .
  from unmap_page [OF sp2(1) n this, of "swapped_pte ?bn", unfolded sp2] obtain s3 s' where s':
    "kfree ?v s2 = Ok s3" "kstore (pte_addr s d n) (swapped_pte ?bn) s3 = Ok s'" "mem_frame s2 s3" "mem_frame s2 s'"
    "space s' d (?v # fs)" "pt s' d = (pt s d)(n := swapped_pte ?bn)" "owned s' d = owned s d"
    "page_to_refcnt s' = page_to_refcnt s2" "pde s' d = pde s d" "\<forall>g. g \<notin> owned s d \<union> {pfn ?x} \<longrightarrow> mem s' g = mem s2 g" .
  note f' = mem_frame_sel [OF s'(4)] and f3 = mem_frame_sel [OF s'(3)]
  have pd: "bit (pde s d (n div 1024)) 0" using pg pt_present [of s d n] by (simp add: sole_page_def)
  have ld: "kload (pte_addr s d n) (upd_slot i (\<lambda>h. h\<lparr>is_free := False\<rparr>) s) = Ok ?x"
    using kload_pte [OF spaceD(1) [OF sp] n pd] kload_mem [of "upd_slot i (\<lambda>h. h\<lparr>is_free := False\<rparr>) s" s] by simp
  have kp: "kpage ?v s1 = Ok (mem s (pfn ?x))"
    using pg kpage_page [of ?v s1] by (simp add: sole_page_def page_ok_def f1)
  have sl: "blockno (swap_slots s3 i) = ?bn" by (simp add: f3 f2 f1)
  have ok: "swap_out s0 = Ok s'"
    using fp slot ld kp s2(1) s'(1,2) sl f1(6) by (simp add: swap_out_def s1_def [symmetric] Let_def)
  have vw: "view s' = view s2" "available m s' = available m s2" for m by (rule available_cong; simp add: f')+
  show thesis
  proof (rule that [OF ok s'(5,6,7)])
    show "swap_slots s' = (swap_slots s)(i := (swap_slots s i)\<lparr>is_free := False, page_perm := PTE_FLAGS ?x\<rparr>)"
      unfolding f'(12) f2(6) f1(6) ..
    show "on_disk s' ?bn (mem s (pfn ?x))" using s2(4) by (simp add: on_disk_def swapdev.holds_def vw)
    show "\<forall>m. (\<forall>j < 8. m \<noteq> ?bn + of_nat j) \<longrightarrow> view s' m = view s m" using s2(5) unfolding vw b1(2) .
    show "\<forall>m. available m s \<longrightarrow> available m s'" using s2(3) unfolding vw b1(1) .
    show "page_to_refcnt s' = page_to_refcnt s" unfolding s'(8) f2(5) f1(4) ..
    have "same_procs s1 s2" using s2(2) by (simp add: bio_frame_def)
    moreover have "same_procs s2 s'" by (rule same_procs_cong) (simp_all add: f')
    ultimately show "same_procs s s'" using b1(3) same_procs_trans by blast
    show "\<forall>g. g \<notin> owned s d \<union> {pfn ?x} \<longrightarrow> mem s' g = mem s g" using s'(10) unfolding f2(1) f1(1) .
    show "pde s' d = pde s d" by (rule s'(9))
  qed
qed

text \<open>
  The slot of a block number that swapinit handed out, and the bound under which the write to
  \<open>page_to_refcnt\<close> that the swap-in makes by block number stays inside the array.
\<close>

lemma slot_index: "k < NPAGE \<Longrightarrow> unat ((SWAPBASE + of_nat (k * BPPAGE) - SWAPBASE) div of_nat BPPAGE) = k"
  by (simp add: unat_div unat_word_ariths unat_of_nat)

lemma slot_block: "k < NPAGE \<Longrightarrow> (SWAPBASE + of_nat (k * BPPAGE) :: u32) < 0x100000 \<and>
    (unat (SWAPBASE + of_nat (k * BPPAGE) :: u32) < NFRAME \<longleftrightarrow> k < 128)"
  by (auto simp: word_less_nat_alt unat_word_ariths unat_of_nat)

lemma pfn_swapped_pte: "bn < 0x100000 \<Longrightarrow> pfn (swapped_pte bn) = unat bn"
  using swapped_pte_bits(3) [of bn] by (simp add: pfn_def)

text \<open>
  The fault on a swapped page: the page is read into the first free frame, and the rest, from the check of the
  indices on, maps it.
\<close>

definition map_in :: "u32 \<Rightarrow> u32 \<Rightarrow> u32 \<Rightarrow> 'a vm_scheme \<Rightarrow> 'a vm_scheme res" where
  "map_in pte m bn s =
     (let k = unat ((bn - SWAPBASE) div of_nat BPPAGE)
      in if k \<ge> NPAGE \<or> unat bn \<ge> NFRAME then Err OutOfBounds
         else bindR (kstore pte (((V2P m AND NOT 0xFFF) OR page_perm (swap_slots s k)) OR PTE_P)
               (s\<lparr>page_to_refcnt := (page_to_refcnt s)(unat bn := refcnt_to_disk (swap_slots s k))\<rparr>)) (\<lambda>s.
             Ok (upd_slot k (\<lambda>h. h\<lparr>is_free := True\<rparr>) s)))"

lemma fault_read:
  assumes sp: "space s d (m # fs)" and b20: "bn < 0x100000"
    and x: "n < NVPN" "bit (pde s d (n div 1024)) 0" "pt s d n = swapped_pte bn"
    and av: "\<forall>j < 8. available (bn + of_nat j) s" and hd: "on_disk s bn b"
  obtains s1 b' s3 where "kalloc s = Ok (m, s1)" "mem_frame s s1" "mem s1 = mem s"
    "page_to_refcnt s1 = (page_to_refcnt s)(frm m := 1)" "\<forall>j < 4096. b' j = b j" "view s3 = view s" "bio.more s3 = bio.more s1"
    "same_procs (upd_proc i (\<lambda>p. p\<lparr>p_rss := p_rss p + PGSIZE\<rparr>) s1) s3"
    "fault_swapped i (pte_addr s d n) s = map_in (pte_addr s d n) m bn (s3\<lparr>mem := (mem s3)(frm m := b')\<rparr>)"
proof -
  have m: "kpg m" and wf: "pgdir_wf s d" using sp by (auto simp: space_def free_pages_def page_ok_def)
  from kalloc_free [OF spaceD(2) [OF sp]] obtain s1 where s1: "kalloc s = Ok (m, s1)"
    "mem_frame s s1" "mem s1 = mem s" "page_to_refcnt s1 = (page_to_refcnt s)(frm m := 1)" .
  note f1 = mem_frame_sel [OF s1(2)]
  define s2 where "s2 = upd_proc i (\<lambda>p. p\<lparr>p_rss := p_rss p + PGSIZE\<rparr>) s1"
  have ld: "kload (pte_addr s d n) s2 = Ok (swapped_pte bn)"
    using kload_pte [OF wf x(1,2)] kload_mem [of s2 s] x(3) s1(3) by (simp add: s2_def)
  have v2: "available q s2 = available q s" "view s2 = view s" for q
    by (rule available_cong; simp add: s2_def f1 upd_proc_def)+
  from swapdev.page_round_trip [of s2 bn b "mem s2 (frm m)"] hd av obtain b' s3 where s3:
    "read_page_from_swap bn (mem s2 (frm m)) s2 = Ok (b', s3)" "bio_frame s2 s3" "view s3 = view s2"
    "\<forall>j < 4096. b' j = b j" by (auto simp: read_page_from_swap_def on_disk_def swapdev.holds_def v2)
  have fr: "bio.more s3 = bio.more s2" "same_procs s2 s3" using s3(2) by (simp_all add: bio_frame_def)
  have db: "drop_bit PTXSHIFT (swapped_pte bn) = bn" using swapped_pte_bits(3) [OF b20] by simp
  have rd: "read_page_from_swap bn (mem s1 (frm m)) s2 = Ok (b', s3)" using s3(1) by (simp add: s2_def)
  have "bio.more s2 = bio.more s1" by (simp add: s2_def upd_proc_def)
  then show thesis
    using s1 kpg_nonzero [OF m] ld rd pfn_swapped_pte [OF b20] s3(3,4) fr v2(2)
    by (intro that [OF s1 s3(4), of s3])
      (simp_all add: fault_swapped_def s2_def [symmetric] kpage_page [OF m] kpage_upd_page [OF m] db map_in_def Let_def)
qed

lemma fault_in:
  assumes sp: "space s d (m # fs)" and c: "curproc s = Some i" "p_pgdir (ptable s i) = d"
    and k: "k < 128" and bn: "bn = SWAPBASE + of_nat (k * BPPAGE)"
    and x: "bit (pde s d (pfn va div 1024)) 0" "pt s d (pfn va) = swapped_pte bn"
    and av: "\<forall>j < 8. available (bn + of_nat j) s" and hd: "on_disk s bn b"
  obtains s' where "handle_page_fault va s = Ok s'" "space s' d fs"
    "pt s' d = (pt s d)(pfn va := ((V2P m AND NOT 0xFFF) OR page_perm (swap_slots s k)) OR PTE_P)"
    "\<forall>j < 4096. mem s' (frm m) j = b j" "\<forall>g. g \<notin> owned s d \<union> {frm m} \<longrightarrow> mem s' g = mem s g"
    "swap_slots s' = (swap_slots s)(k := (swap_slots s k)\<lparr>is_free := True\<rparr>)"
    "page_to_refcnt s' = (page_to_refcnt s)(frm m := 1, unat bn := refcnt_to_disk (swap_slots s k))"
    "view s' = view s" "p_rss (ptable s' i) = p_rss (ptable s i) + PGSIZE"
proof -
  let ?n = "pfn va"
  have m: "kpg m" and wf: "pgdir_wf s d" using sp by (auto simp: space_def free_pages_def page_ok_def)
  have b20: "bn < 0x100000" "unat bn < NFRAME" using slot_block [of k] k by (simp_all add: bn)
  from fault_read [OF sp b20(1) pfn_bound x av hd, of i] obtain s1 b' s3 where s1: "kalloc s = Ok (m, s1)" "mem_frame s s1"
    "mem s1 = mem s" "page_to_refcnt s1 = (page_to_refcnt s)(frm m := 1)" "\<forall>j < 4096. b' j = b j" "view s3 = view s"
    "bio.more s3 = bio.more s1" and pr: "same_procs (upd_proc i (\<lambda>p. p\<lparr>p_rss := p_rss p + PGSIZE\<rparr>) s1) s3"
    and fs: "fault_swapped i (pte_addr s d ?n) s = map_in (pte_addr s d ?n) m bn (s3\<lparr>mem := (mem s3)(frm m := b')\<rparr>)" .
  note f1 = mem_frame_sel [OF s1(2)] and f3 = vm_more_sel [OF s1(7)]
  define s4 where "s4 = s3\<lparr>mem := (mem s3)(frm m := b'),
      page_to_refcnt := (page_to_refcnt s3)(unat bn := refcnt_to_disk (swap_slots s3 k))\<rparr>"
  have m4: "mem s4 = (mem s)(frm m := b')" "freelist s4 = freelist s1" "num_free_pages s4 = num_free_pages s1" "kend s4 = kend s"
    "swap_slots s4 = swap_slots s"
    "page_to_refcnt s4 = (page_to_refcnt s)(frm m := 1, unat bn := refcnt_to_disk (swap_slots s k))"
    by (simp_all add: s4_def f3 s1(3,4) f1)
  define w where "w = ((V2P m AND NOT 0xFFF) OR page_perm (swap_slots s k)) OR PTE_P"
  from install_page [OF sp pfn_bound x(1) s1(1) m4(1-4), of w] obtain t where t:
    "kstore (pte_addr s d ?n) w s4 = Ok t" "mem_frame s4 t" "space t d fs" "pt t d = (pt s d)(?n := w)"
    "owned t d = owned s d" "mem t (frm m) = b'" "\<forall>g. g \<notin> owned s d \<union> {frm m} \<longrightarrow> mem t g = mem s g"
    "page_to_refcnt t = page_to_refcnt s4" .
  note ft = mem_frame_sel [OF t(2)]
  define s' where "s' = upd_slot k (\<lambda>h. h\<lparr>is_free := True\<rparr>) t"
  have ki: "unat ((bn - 2) div 8) = k" using slot_index [of k] k by (simp add: bn)
  have ok: "fault_swapped i (pte_addr s d ?n) s = Ok s'"
    using t(1) k ki b20 m4(5) by (simp add: fs map_in_def Let_def s4_def w_def s'_def)
  have h: "handle_page_fault va s = Ok s'"
    using c x kload_pte [OF wf pfn_bound x(1)] swapped_pte_bits(1) [OF b20(1)] ok
    by (simp add: handle_page_fault_def myproc_def walk0 [OF wf])
  have "view s4 = view s3" by (rule available_cong; simp add: s4_def)
  moreover have "view s' = view s4" by (rule available_cong; simp add: s'_def upd_slot_def ft)
  ultimately have vw: "view s' = view s" using s1(6) by simp
  have rss: "p_rss (ptable s' i) = p_rss (ptable s i) + PGSIZE"
    using same_procs_sel(3) [OF pr, of i] by (simp add: s'_def upd_slot_def ft s4_def upd_proc_def f1)
  have sp': "space s' d fs" "pt s' d = pt t d" by (rule space_cong [OF t(3)]; simp add: s'_def)+
  show thesis using t(4-8) s1(5) m4 ft(12)
    by (intro that [OF h sp'(1) _ _ _ _ _ vw rss]) (simp_all add: sp'(2) [unfolded s'_def] w_def s'_def)
qed


section \<open>Swapping out and in again\<close>

definition swap_ready :: "'a vm_scheme \<Rightarrow> nat \<Rightarrow> u32 list \<Rightarrow> nat \<Rightarrow> bool" where
  "swap_ready s v fs i \<longleftrightarrow> get_victim_process s = Some v \<and> victim_ok s v \<and> space s (p_pgdir (ptable s v)) fs \<and>
     (\<exists>m < npages (p_sz (ptable s v)). bit (pt s (p_pgdir (ptable s v)) m) 0 \<and> bit (pt s (p_pgdir (ptable s v)) m) 2) \<and>
     (\<forall>n < npages (p_sz (ptable s v)). bit (pt s (p_pgdir (ptable s v)) n) 0 \<longrightarrow> sole_page s (p_pgdir (ptable s v)) n fs) \<and>
     free_slot s = Some i \<and> blockno (swap_slots s i) = SWAPBASE + of_nat (i * BPPAGE) \<and>
     (\<forall>j < 8. available (SWAPBASE + of_nat (i * BPPAGE) + of_nat j) s)"

lemma swap_ready_slot: "swap_ready s v fs i \<Longrightarrow> i < NPAGE"
  using find_SomeD [of _ "[0..<NPAGE]" i] by (auto simp: swap_ready_def free_slot_def)

lemma clear_A:
  "PTE_ADDR (x AND NOT PTE_A) = PTE_ADDR x" "pfn (x AND NOT PTE_A) = pfn x"
  "bit (x AND NOT PTE_A) 0 = bit x 0" "bit (x AND NOT PTE_A) 2 = bit x 2"
proof -
  show "PTE_ADDR (x AND NOT PTE_A) = PTE_ADDR x"
    by (rule bit_word_eqI) (auto simp: PTE_ADDR_def bit_simps bit_flags mask12)
  then show "pfn (x AND NOT PTE_A) = pfn x" by (metis pfn_PTE_ADDR)
qed (simp_all add: bit_simps bit_flags)

lemma flushed_space:
  assumes fl: "flushed s d t" and sp: "space s d fs"
  shows "space t d fs" and "sole_page s d n fs \<Longrightarrow> sole_page t d n fs"
    and "pfn (pt t d n) = pfn (pt s d n)" and "bit (pt t d n) 0 = bit (pt s d n) 0"
proof -
  have mf: "mem_frame s t" using fl by (simp add: flushed_def)
  have "free_pages t fs"
    using fl sp by (intro free_pages_mem [OF spaceD(2) [OF sp]]) (auto simp: flushed_def space_def)
  then show "space t d fs" using fl sp by (simp add: flushed_def space_def)
  have e: "PTE_ADDR (pt t d n) = PTE_ADDR (pt s d n) \<and> pfn (pt t d n) = pfn (pt s d n) \<and> bit (pt t d n) 0 = bit (pt s d n) 0"
    using fl clear_A [of "pt s d n"] unfolding flushed_def by metis
  then show "pfn (pt t d n) = pfn (pt s d n)" "bit (pt t d n) 0 = bit (pt s d n) 0" by auto
  show "sole_page t d n fs" if "sole_page s d n fs"
    using that e fl mem_frame_sel [OF mf] by (simp add: sole_page_def page_ok_def flushed_def)
qed

lemma pte_rebuild:
  assumes "bit x 0"
  shows "((V2P (P2V (PTE_ADDR x)) AND NOT 0xFFF) OR PTE_FLAGS x) OR PTE_P = x"
  using assms by (intro bit_word_eqI) (auto simp: PTE_ADDR_def PTE_FLAGS_def bit_simps bit_flags mask12)

lemma swap_out_spec:
  assumes r: "swap_ready s v fs i" and d: "d = p_pgdir (ptable s v)" and bn: "bn = SWAPBASE + of_nat (i * BPPAGE)"
  obtains n t s' where "n < npages (p_sz (ptable s v))" "evictable (pt t d n)"
    "flushed (upd_proc v (\<lambda>p. p\<lparr>p_rss := p_rss p - PGSIZE\<rparr>) s) d t" "swap_out s = Ok s'"
    "space s' d (P2V (PTE_ADDR (pt t d n)) # fs)" "pt s' d = (pt t d)(n := swapped_pte bn)" "owned s' d = owned s d"
    "swap_slots s' = (swap_slots s)(i := (swap_slots s i)\<lparr>is_free := False, page_perm := PTE_FLAGS (pt t d n)\<rparr>)"
    "on_disk s' bn (mem s (pfn (pt s d n)))"
    "\<forall>m. (\<forall>j < 8. m \<noteq> bn + of_nat j) \<longrightarrow> view s' m = view s m"
    "\<forall>j < 8. available (bn + of_nat j) s'" "page_to_refcnt s' = page_to_refcnt s" "same_procs t s'"
    "\<forall>g. g \<notin> owned s d \<union> {pfn (pt s d n)} \<longrightarrow> mem s' g = mem s g" "pde s' d = pde s d"
proof -
  define s1 where "s1 = upd_proc v (\<lambda>p. p\<lparr>p_rss := p_rss p - PGSIZE\<rparr>) s"
  have sp: "space s d fs" using r by (simp add: swap_ready_def d)
  have sp1: "space s1 d fs" "owned s1 d = owned s d" "pt s1 d = pt s d" "pde s1 d = pde s d" "pte_addr s1 d = pte_addr s d"
    by (rule space_cong [OF sp]; simp add: s1_def)+
  from r obtain m where m: "get_victim_process s = Some v" "victim_ok s v" "m < npages (p_sz (ptable s v))"
    "bit (pt s d m) 0" "bit (pt s d m) 2" unfolding swap_ready_def d by blast
  from final_page_spec [OF m(1,2) d refl m(3-5)] obtain n t where
    t: "final_page s = Ok (pte_addr t d n, t)" "n < npages (p_sz (ptable s v))" "evictable (pt t d n)" "flushed s1 d t"
    unfolding s1_def .
  have e: "pfn (pt t d n) = pfn (pt s d n)" "bit (pt s d n) 0" "space t d fs" "mem_frame s1 t"
    using flushed_space [OF t(4) sp1(1)] t(3,4) by (auto simp: sp1 evictable_def flushed_def)
  have n: "n < NVPN" using pt_present [OF e(2)] by simp
  have so: "sole_page s d n fs" using r t(2) e(2) by (auto simp: swap_ready_def d)
  then have "sole_page s1 d n fs" by (simp add: sole_page_def page_ok_def sp1) (simp add: s1_def)
  then have so: "sole_page t d n fs" by (rule flushed_space(2) [OF t(4) sp1(1)])
  note f = mem_frame_sel [OF e(4)]
  have av: "available q t = available q s" "view t = view s" for q
    by (rule available_cong; simp add: f s1_def upd_proc_def)+
  have sl: "swap_slots t = swap_slots s" by (simp add: f s1_def)
  have fs: "free_slot t = Some i" "blockno (swap_slots s i) = bn" "\<forall>j < 8. available (bn + of_nat j) t"
    using r by (simp_all add: swap_ready_def free_slot_def sl av bn)
  have ow: "owned t d = owned s d" "page_to_refcnt t = page_to_refcnt s" "\<forall>g. g \<notin> owned s d \<longrightarrow> mem t g = mem s g" "pde t d = pde s d"
    using t(4) by (simp_all add: flushed_def sp1) (simp_all add: s1_def)
  have mn: "mem t (pfn (pt s d n)) = mem s (pfn (pt s d n))" using so ow e(1) by (simp add: sole_page_def)
  from evict_spec [OF e(3) n so fs(1) _ t(1), unfolded e(1) ow av sl fs(2) mn, OF fs(3) [unfolded av]]
  obtain s' where s': "swap_out s = Ok s'" "space s' d (P2V (PTE_ADDR (pt t d n)) # fs)"
    "pt s' d = (pt t d)(n := swapped_pte bn)" "owned s' d = owned s d"
    "swap_slots s' = (swap_slots s)(i := (swap_slots s i)\<lparr>is_free := False, page_perm := PTE_FLAGS (pt t d n)\<rparr>)"
    "on_disk s' bn (mem s (pfn (pt s d n)))" "\<forall>m. (\<forall>j < 8. m \<noteq> bn + of_nat j) \<longrightarrow> view s' m = view s m"
    "\<forall>m. available m s \<longrightarrow> available m s'" "page_to_refcnt s' = page_to_refcnt s" "same_procs t s'"
    "\<forall>g. g \<notin> owned s d \<union> {pfn (pt s d n)} \<longrightarrow> mem s' g = mem t g" "pde s' d = pde s d" .
  show thesis
    using s'(8,11) fs(3) ow(3) by (intro that [OF t(2,3,4) [unfolded s1_def] s'(1-7) _ s'(9,10) _ s'(12)]) (auto simp: av)
qed


lemma one_page_swap_ready: "swap_ready one_page_vm 3 one_page_free 0"
proof -
  have b: "bit (0x204007 :: u32) 0" "bit (0x204007 :: u32) 2" by (simp_all add: bit_iff_odd)
  have g: "get_victim_process one_page_vm = Some 3"
    by (simp add: get_victim_process_def one_page_sel one_page_procs_def zero_proc_def upt_rec)
  have f: "free_slot one_page_vm = Some 0"
    by (simp add: free_slot_def one_page_sel upt_rec)
  have av: "available (SWAPBASE + of_nat j) one_page_vm" if "j < 8" for j
  proof -
    have "unat (of_nat j :: u32) < 8" using that by (simp add: unat_of_nat)
    then have "(2 + of_nat j :: u32) < FSSIZE" by (simp add: word_less_nat_alt unat_word_ariths)
    from quiet_available [OF this, of one_page_procs "\<lambda>_ _ _. 0" "vm.more one_page_vm"] show ?thesis
      by (simp add: available_def bio_ready_def bio_inv_def one_page_vm_def quiet_vm_def quiet_ext_def)
  qed
  have o: "page_ok one_page_vm (P2V (PTE_ADDR 0x204007))"
    by (simp add: page_ok_def kpg_def kptr_def V2P_def PTE_ADDR_def pg_aligned_def one_page_sel P2V_def)
  show ?thesis
    using g f av one_page_space b o
    by (simp add: swap_ready_def one_page_sel victim_ok_def tables_for_def sole_page_def one_page_dir)
qed


end
