(* ===== verification/SwapFree.thy ===== *)
theory SwapFree
  imports Swap
begin

text \<open>
  What goes wrong with a page that was swapped out. Nothing sets the reference count of a slot, so that the
  process stops the kernel when it gives such a page back; the fault that reads a page back indexes the
  array of frame counts by a disk block number, which leaves the array for the slots from 128 on; and a process
  with a page on the disk cannot fork.
\<close>

unbundle bit_operations_syntax

lemma PGROUNDUP_page: "n < NVPN \<Longrightarrow> PGROUNDUP (of_nat n * PGSIZE) = of_nat n * PGSIZE"
proof -
  assume n: "n < NVPN"
  have u: "unat (of_nat n * PGSIZE :: u32) = n * 4096"
    using unat_of_nat_small [of "n * 4096"] n by simp
  then have "unat (of_nat n * PGSIZE + PGSIZE - 1 :: u32) = n * 4096 + 4095"
    using n by (simp add: add_diff_eq [symmetric] unat_word_ariths)
  then have "pfn (of_nat n * PGSIZE + PGSIZE - 1) = n" by (simp add: pfn_div)
  moreover have "PGROUNDUP (of_nat n * PGSIZE) = PTE_ADDR (of_nat n * PGSIZE + PGSIZE - 1)" by (simp add: PGROUNDUP_def PTE_ADDR_def)
  ultimately show ?thesis using unat_PTE_ADDR [of "of_nat n * PGSIZE + PGSIZE - 1"] u by (simp add: word_unat_eq_iff)
qed

lemma page_below: "n < npages sz \<Longrightarrow> n < NVPN \<Longrightarrow> of_nat n * PGSIZE < sz"
proof -
  assume "n < npages sz" "n < NVPN"
  moreover from this have "n * 4096 < unat sz" by (simp add: npages_def)
  ultimately show ?thesis using unat_of_nat_small [of "n * 4096"] by (simp add: word_less_nat_alt)
qed

text \<open>A swapped entry whose slot has count 0 cannot be freed.\<close>

lemma dealloc_swapped:
  assumes wf: "pgdir_wf s d" and n: "n < NVPN" "bit (pde s d (n div 1024)) 0" "pt s d n = swapped_pte bn"
    and k: "k < NPAGE" "bn = SWAPBASE + of_nat (k * BPPAGE)" "refcnt_to_disk (swap_slots s k) = 0"
  shows "dealloc_page (pte_addr s d n) s = Err (Panic ''refcnt already 0'')"
proof -
  have b20: "bn < 0x100000" using slot_block [OF k(1)] by (simp add: k(2))
  have "unat bn = 2 + k * 8" using k by (simp add: unat_word_ariths unat_of_nat)
  then have i: "(pfn (PTE_ADDR (swapped_pte bn)) - unat SWAPBASE) div BPPAGE = k" using pfn_swapped_pte [OF b20] by simp
  note ld = kload_pte [OF wf n(1,2), unfolded n(3)]
  have "\<not> has (swapped_pte bn) PTE_P" "has (swapped_pte bn) PTE_SW" using swapped_pte_bits(1,2) [OF b20] by simp_all
  then show ?thesis using ld i k(1,3) by (simp add: dealloc_page_def dec_swap_slot_refcnt_def Let_def)
qed

text \<open>
  C32. A process loses the kernel when it shrinks past a page that was swapped out: swap_out leaves the count of
  the slot at 0, as no code ever sets it, and deallocuvm down to that page, which sbrk calls, panics in
  dec\_swap\_slot\_refcnt instead of freeing the slot.
\<close>

theorem freeing_swapped_panics:
  assumes r: "swap_ready s v fs i" and d: "d = p_pgdir (ptable s v)" and z: "refcnt_to_disk (swap_slots s i) = 0"
  shows "\<exists>n s1. n < npages (p_sz (ptable s v)) \<and> swap_out s = Ok s1 \<and> refcnt_to_disk (swap_slots s1 i) = 0 \<and>
    deallocuvm d (p_sz (ptable s v)) (of_nat n * PGSIZE) s1 = Err (Panic ''refcnt already 0'')"
proof -
  define bn where "bn = (SWAPBASE + of_nat (i * BPPAGE) :: u32)"
  from swap_out_spec [OF r d bn_def] obtain n t s1 where s1: "n < npages (p_sz (ptable s v))" "evictable (pt t d n)"
    "flushed (upd_proc v (\<lambda>p. p\<lparr>p_rss := p_rss p - PGSIZE\<rparr>) s) d t" "swap_out s = Ok s1"
    "space s1 d (P2V (PTE_ADDR (pt t d n)) # fs)" "pt s1 d = (pt t d)(n := swapped_pte bn)" "owned s1 d = owned s d"
    "swap_slots s1 = (swap_slots s)(i := (swap_slots s i)\<lparr>is_free := False, page_perm := PTE_FLAGS (pt t d n)\<rparr>)"
    "on_disk s1 bn (mem s (pfn (pt s d n)))" "\<forall>m. (\<forall>j < 8. m \<noteq> bn + of_nat j) \<longrightarrow> view s1 m = view s m"
    "\<forall>j < 8. available (bn + of_nat j) s1" "page_to_refcnt s1 = page_to_refcnt s" "same_procs t s1"
    "\<forall>g. g \<notin> owned s d \<union> {pfn (pt s d n)} \<longrightarrow> mem s1 g = mem s g" "pde s1 d = pde s d" .
  note wf = spaceD(1) [OF s1(5)]
  have i: "i < NPAGE" using r by (rule swap_ready_slot)
  have "n < NVPN \<and> bit (pde t d (n div 1024)) 0" using s1(2) by (intro pt_present) (simp add: evictable_def)
  moreover have "pde t d = pde (upd_proc v (\<lambda>p. p\<lparr>p_rss := p_rss p - PGSIZE\<rparr>) s) d" using s1(3) by (simp add: flushed_def)
  moreover have "pde (upd_proc v (\<lambda>p. p\<lparr>p_rss := p_rss p - PGSIZE\<rparr>) s) d = pde s d" by (simp add: pde_def fun_eq_iff)
  ultimately have n: "n < NVPN" "bit (pde s1 d (n div 1024)) 0" using s1(15) by simp_all
  have z1: "refcnt_to_disk (swap_slots s1 i) = 0" using z by (simp add: s1(8))
  have "pt s1 d n = swapped_pte bn" by (simp add: s1(6))
  note dp = dealloc_swapped [OF wf n this i bn_def z1]
  have va: "pfn (of_nat n * PGSIZE) = n" using n(1) by (rule pfn_of_nat)
  have w: "walkpgdir d (of_nat n * PGSIZE) False s1 = Ok (pte_addr s1 d n, s1)"
    using walk_present [OF wf, of "of_nat n * PGSIZE"] n(2) va by simp
  note lt = page_below [OF s1(1) n(1)]
  have "dealloc_loop d (of_nat n * PGSIZE) (p_sz (ptable s v)) s1 = Err (Panic ''refcnt already 0'')"
    using lt w dp pte_addr_nonzero [OF wf n] by (subst dealloc_loop.simps) simp
  then have "deallocuvm d (p_sz (ptable s v)) (of_nat n * PGSIZE) s1 = Err (Panic ''refcnt already 0'')"
    using lt by (simp add: deallocuvm_def PGROUNDUP_page [OF n(1)] not_le)
  then show ?thesis using s1(1,4) z1 by blast
qed

theorem freeing_swapped_panics_witness:
  "\<exists>s1. swap_out one_page_vm = Ok s1 \<and> deallocuvm (page_at 512) PGSIZE 0 s1 = Err (Panic ''refcnt already 0'')"
proof -
  have "refcnt_to_disk (swap_slots one_page_vm 0) = 0" by (simp add: one_page_vm_def quiet_vm_def quiet_ext_def)
  from freeing_swapped_panics [OF one_page_swap_ready refl this] show ?thesis by (auto simp: one_page_sel)
qed

section \<open>Slots whose block number is no frame number\<close>

lemma fault_high_slot:
  assumes sp: "space s d (m # fs)" and c: "curproc s = Some i" "p_pgdir (ptable s i) = d"
    and k: "128 \<le> k" "k < NPAGE" and bn: "bn = SWAPBASE + of_nat (k * BPPAGE)"
    and x: "bit (pde s d (pfn va div 1024)) 0" "pt s d (pfn va) = swapped_pte bn"
    and av: "\<forall>j < 8. available (bn + of_nat j) s" and hd: "on_disk s bn b"
  shows "handle_page_fault va s = Err OutOfBounds"
proof -
  have wf: "pgdir_wf s d" using sp by (simp add: space_def)
  have b20: "bn < 0x100000" "\<not> unat bn < NFRAME" using slot_block [OF k(2)] k(1) by (simp_all add: bn)
  from fault_read [OF sp b20(1) pfn_bound x av hd, of i] obtain s1 b' s3 where
    "fault_swapped i (pte_addr s d (pfn va)) s = map_in (pte_addr s d (pfn va)) m bn (s3\<lparr>mem := (mem s3)(frm m := b')\<rparr>)" .
  then have "fault_swapped i (pte_addr s d (pfn va)) s = Err OutOfBounds" using b20(2) by (simp add: map_in_def Let_def)
  then show ?thesis using c x kload_pte [OF wf pfn_bound x(1)] swapped_pte_bits(1) [OF b20(1)]
    by (simp add: handle_page_fault_def myproc_def walk0 [OF wf])
qed


text \<open>The one-page machine with its first 128 slots taken.\<close>

definition full_slots_vm :: vm where
  "full_slots_vm = one_page_vm\<lparr>swap_slots := (\<lambda>i. (swap_slots one_page_vm i)\<lparr>is_free := 128 \<le> i\<rparr>)\<rparr>"

lemma full_slots_ready: "swap_ready full_slots_vm 3 one_page_free 128"
proof -
  let ?s = full_slots_vm and ?o = one_page_vm
  have e: "mem ?s = mem ?o" "ptable ?s = ptable ?o" "freelist ?s = freelist ?o" "num_free_pages ?s = num_free_pages ?o"
    "kend ?s = kend ?o" "page_to_refcnt ?s = page_to_refcnt ?o"
    by (simp_all add: full_slots_vm_def)
  note sp = space_cong [OF one_page_space, of ?s, unfolded e, OF refl refl refl refl]
  have wf: "pgdir_wf ?s (page_at 512)" using sp(1) by (rule spaceD(1))
  have g: "get_victim_process ?s = Some 3"
    by (simp add: get_victim_process_def e one_page_sel one_page_procs_def zero_proc_def upt_rec)
  have f: "free_slot ?s = Some 128"
    unfolding free_slot_def find_Some_iff by (rule exI [of _ 128]) (simp add: full_slots_vm_def del: upt_rec_numeral)
  have av: "available (SWAPBASE + of_nat (128 * BPPAGE) + of_nat j) ?s" if "j < 8" for j
  proof -
    have "unat (of_nat j :: u32) < 8" using that by (simp add: unat_of_nat)
    then have "(1026 + of_nat j :: u32) < FSSIZE" by (simp add: word_less_nat_alt unat_word_ariths)
    from quiet_available [OF this, of one_page_procs "\<lambda>_ _ _. 0" "vm.more ?o"] show ?thesis
      by (simp add: available_def bio_ready_def bio_inv_def full_slots_vm_def one_page_vm_def quiet_vm_def quiet_ext_def)
  qed
  have "blockno (swap_slots ?s 128) = SWAPBASE + of_nat (128 * BPPAGE)" by (simp add: full_slots_vm_def one_page_sel)
  then show ?thesis
    using one_page_swap_ready g f av sp wf
    by (simp add: swap_ready_def victim_ok_def tables_for_def sole_page_def page_ok_def e one_page_sel)
qed


section \<open>Forking after an eviction\<close>

lemma cow_loop_stops:
  assumes "two_spaces s p d fs" "a + m \<le> NVPN" "\<forall>n \<in> {a..<a + m}. pt s p n \<noteq> 0"
    "\<forall>n \<in> {a..<a + m}. bit (pt s p n) 0 \<longrightarrow> pfn (pt s p n) < NFRAME \<and> pfn (pt s p n) \<notin> frm ` set fs"
    "\<forall>n \<in> {a..<a + m}. \<not> bit (pt s d n) 0" "card (missing s d {a..<a + m}) \<le> length fs"
    "\<exists>n \<in> {a..<a + m}. \<not> bit (pt s p n) 0"
  shows "copyuvm_cow_loop p d np (map (\<lambda>k. of_nat k * PGSIZE) [a..<a + m]) s = Err (Panic ''copyuvm: page not present'')"
  using assms
proof (induction m arbitrary: s a fs)
  case (Suc m)
  let ?M = "{Suc a..<Suc a + m}" and ?is = "map (\<lambda>k. of_nat k * PGSIZE) [Suc a..<Suc a + m] :: u32 list"
  have N: "{a..<a + Suc m} = insert a ?M" "finite ?M" by auto
  have L: "[a..<a + Suc m] = a # [Suc a..<Suc a + m]" by (simp add: upt_conv_Cons)
  have a: "a < NVPN" "pt s p a \<noteq> 0" using Suc.prems(2,3) by auto
  show ?case
  proof (cases "bit (pt s p a) 0")
    case False
    have pr: "bit (pde s p (a div 1024)) 0" using a(2) by (auto simp: pt_def split: if_splits)
    define t where "t = upd_proc np (\<lambda>q. q\<lparr>p_rss := p_rss q + PGSIZE\<rparr>) s"
    have c: "mem t = mem s" "kend t = kend s" "freelist t = freelist s" "num_free_pages t = num_free_pages s"
      by (simp_all add: t_def)
    note ts = two_spaces_cong [OF Suc.prems(1) c]
    have wf: "pgdir_wf t p" using ts(1) by (simp add: two_spaces_def space_def)
    have pt: "bit (pde t p (a div 1024)) 0" using pr by (simp add: pde_def c)
    show ?thesis using False pt pte_addr_nonzero [OF wf a(1) pt] kload_pte [OF wf a(1) pt] ts(2)
      unfolding L by (simp add: t_def [symmetric] walk_noalloc [OF wf] pfn_of_nat [OF a(1)])
  next
    case True
    note cm = card_missing_insert [OF N(2), of s d a]
    have av: "fs \<noteq> [] \<or> bit (pde s d (a div 1024)) 0" using Suc.prems(6) unfolding N(1) cm by (auto split: if_splits)
    from cow_step [OF Suc.prems(1) a(1) True, of np ?is] av Suc.prems(4,5) True obtain s1 us fs1 where s1:
      "copyuvm_cow_loop p d np (of_nat a * PGSIZE # ?is) s = copyuvm_cow_loop p d np ?is s1" "fs = us @ fs1"
      "length us = (if bit (pde s d (a div 1024)) 0 then 0 else 1)" "two_spaces s1 p d fs1"
      "\<forall>j. bit (pde s1 d j) 0 \<longleftrightarrow> bit (pde s d j) 0 \<or> j = a div 1024" "cow_copied s p d np {a} us s1" by auto
    have m1: "missing s1 d ?M = missing s d ?M - {a div 1024}" using s1(5) by (auto simp: missing_def)
    have pM: "pt s1 p n = pt s p n" "pt s1 d n = pt s d n" if "n \<in> ?M" for n using that s1(6) by (auto simp: cow_copied_def)
    have "\<exists>n \<in> ?M. \<not> bit (pt s1 p n) 0" using Suc.prems(7) True pM unfolding N(1) by auto
    then have "copyuvm_cow_loop p d np ?is s1 = Err (Panic ''copyuvm: page not present'')"
      using Suc.prems s1(2,3) pM m1 cm N(1) by (intro Suc.IH [OF s1(4)]) auto
    then show ?thesis using s1(1) unfolding L by simp
  qed
qed simp

text \<open>
  C34. A process cannot fork once a page of it is swapped out: if some page below its size has an entry without the
  present bit, as swap_out leaves it, copyuvm_cow panics. The entries of the other pages may be present or
  swapped; the free list has the frames that the kernel part and the tables of the child take.
\<close>

theorem fork_swapped_panics:
  assumes sp: "space s p fs" and lay: "layout_ok s" and sz: "sz \<le> KERNBASE"
    and up: "\<forall>n < npages sz. pt s p n \<noteq> 0 \<and> (bit (pt s p n) 0 \<longrightarrow> pfn (pt s p n) < NFRAME \<and> pfn (pt s p n) \<notin> frm ` set fs)"
    and en: "10 + (npages sz + 1023) div 1024 \<le> length fs" and n: "n < npages sz" "\<not> bit (pt s p n) 0"
  shows "copyuvm_cow p sz np s = Err (Panic ''copyuvm: page not present'')"
proof -
  let ?m = "npages sz"
  have wf: "pgdir_wf s p" and fp: "free_pages s fs" and dj: "frm ` set fs \<inter> owned s p = {}"
    using sp by (auto simp: space_def)
  have "10 \<le> length fs" using en by simp
  from setupkvm_spec [OF fp this lay] obtain d s1 us fs1 where s1: "setupkvm s = Ok (d, s1)" "fs = d # us @ fs1"
    "length us \<le> 9" "space s1 d fs1" "owned s1 d = frm ` set (d # us)" "pt s1 d = kvm_pt (kdata s)" "mem_frame s s1"
    "\<forall>f. f \<notin> owned s1 d \<longrightarrow> mem s1 f = mem s f" .
  have "owned s1 d \<subseteq> frm ` set fs" using s1(2,5) by auto
  then have "mem s1 f = mem s f" if "f \<in> owned s p" for f using that dj s1(8) by blast
  note p1 = pt_cong [OF this]
  have ts1: "two_spaces s1 p d fs1"
    using wf p1(3,4) s1(2,4,5) dj by (auto simp: two_spaces_def space_def)
  have m: "?m \<le> 0x80000" by (rule npages_user [OF sz])
  have "\<forall>n \<in> {0..<0 + ?m}. \<not> bit (pt s1 d n) 0" using m kvm_pt_user [OF _ layout_pfn [OF lay]] by (simp add: s1(6))
  moreover have "card (missing s1 d {0..<0 + ?m}) \<le> length fs1" using card_tables [of s1 d ?m] en s1(2,3) by simp
  ultimately have "copyuvm_cow_loop p d np (map (\<lambda>k. of_nat k * PGSIZE) [0..<0 + ?m]) s1 = Err (Panic ''copyuvm: page not present'')"
    using up n m s1(2) by (intro cow_loop_stops [OF ts1]) (auto simp: p1(2))
  moreover have "d \<noteq> 0" using wf_kpg [OF spaceD(1) [OF s1(4)]] by (rule kpg_nonzero)
  ultimately show ?thesis using s1(1) by (simp add: copyuvm_cow_def page_range_0)
qed

theorem fork_swapped_panics_witness:
  "\<exists>t. kstore (pte_addr one_page_vm (page_at 512) 0) (swapped_pte 2) one_page_vm = Ok t \<and>
     copyuvm_cow (page_at 512) PGSIZE 4 t = Err (Panic ''copyuvm: page not present'')"
proof -
  let ?p = "page_at 512"
  have z: "0 < NVPN" "bit (pde one_page_vm ?p (0 div 1024)) 0" using one_page_dir(4) by simp_all
  from kstore_pte [OF one_page_dir(1) z, of "swapped_pte 2"] obtain t where
    t: "kstore (pte_addr one_page_vm ?p 0) (swapped_pte 2) one_page_vm = Ok t" "mem_frame one_page_vm t" "pgdir_wf t ?p"
    "owned t ?p = owned one_page_vm ?p" "pt t ?p = (pt one_page_vm ?p)(0 := swapped_pte 2)"
    "\<forall>f. f \<notin> owned one_page_vm ?p - {frm ?p} \<longrightarrow> mem t f = mem one_page_vm f"
    "freelist t = freelist one_page_vm" "num_free_pages t = num_free_pages one_page_vm" .
  note sel = mem_frame_sel [OF t(2)]
  have k: "kend t = kend one_page_vm" "kdata t = kdata one_page_vm" by (rule sel)+
  have "mem t (frm q) = mem one_page_vm (frm q)" if "q \<in> set one_page_free" for q
  proof -
    have "frm q \<in> {768..<784}" using that one_page_free(1) by blast
    then show ?thesis using t(6) by (simp add: one_page_dir(2))
  qed
  then have "free_pages t one_page_free" by (rule free_pages_cong [OF spaceD(2) [OF one_page_space] _ k(1) t(7,8)])
  then have sp: "space t ?p one_page_free" using t(3,4) one_page_space by (simp add: space_def)
  have lay: "layout_ok t" using one_page_layout k by (simp add: layout_ok_def)
  have b: "\<not> bit (swapped_pte 2) 0" "swapped_pte 2 \<noteq> 0" using swapped_pte_bits(1,2) [of 2] by auto
  have "copyuvm_cow ?p PGSIZE 4 t = Err (Panic ''copyuvm: page not present'')"
    using b by (intro fork_swapped_panics [OF sp lay, where n = 0]) (simp_all add: t(5))
  with t(1) show ?thesis by blast
qed

end
