(* ===== verification/Umem.thy ===== *)
theory Umem
  imports Pageswap
begin

text \<open>
  Accesses to the memory of the current process, by itself and by the kernel, which follows user pointers
  directly: an access goes through the page table, may fault, and is made again when the fault was handled.
  The processor sets the accessed bit. User pages are write-protected against the kernel too (CR0_WP); pages
  without the user bit, such as the guard page below the stack, are closed to the process only.
\<close>

unbundle bit_operations_syntax

definition mmu_ok :: "bool \<Rightarrow> bool \<Rightarrow> u32 \<Rightarrow> bool" where
  "mmu_ok usr wr x \<longleftrightarrow> has x PTE_P \<and> (wr \<longrightarrow> has x PTE_W) \<and> (usr \<longrightarrow> has x PTE_U)"

text \<open>
  The frame and offset of an address that may be accessed. A fault is handled at most twice, once to
  bring the page in and once to make it writable, before the access is made; a third would only repeat
  the second.
\<close>

primrec user_touch :: "nat \<Rightarrow> bool \<Rightarrow> bool \<Rightarrow> u32 \<Rightarrow> 'a vm_scheme \<Rightarrow> (nat \<times> 'a vm_scheme) res" where
  "user_touch 0 usr wr va s = Err Hang"
| "user_touch (Suc k) usr wr va s =
     bindR (myproc s) (\<lambda>i.
     bindR (walkpgdir0 (p_pgdir (ptable s i)) va s) (\<lambda>pte.
     bindR (if pte = 0 then Ok 0 else kload pte s) (\<lambda>x.
       if pte \<noteq> 0 \<and> mmu_ok usr wr x then
         (if pfn x < NFRAME then bindR (kstore pte (x OR PTE_A) s) (\<lambda>s. Ok (pfn x, s)) else Err (BadAddr va))
       else bindR (handle_page_fault va s) (user_touch k usr wr va))))"

definition user_frame :: "bool \<Rightarrow> bool \<Rightarrow> u32 \<Rightarrow> 'a vm_scheme \<Rightarrow> (nat \<times> 'a vm_scheme) res" where
  "user_frame usr wr va s = user_touch 3 usr wr va s"

definition uload :: "u32 \<Rightarrow> 'a vm_scheme \<Rightarrow> (u8 \<times> 'a vm_scheme) res" where
  "uload va s = bindR (user_frame False False va s) (\<lambda>(f, s). Ok (mem s f (unat va mod 4096), s))"

definition ustore :: "u32 \<Rightarrow> u8 \<Rightarrow> 'a vm_scheme \<Rightarrow> 'a vm_scheme res" where
  "ustore va c s =
     bindR (user_frame False True va s) (\<lambda>(f, s). Ok (s\<lparr>mem := (mem s)(f := (mem s f)(unat va mod 4096 := c))\<rparr>))"

text \<open>A store instruction of the process itself.\<close>

definition pstore :: "u32 \<Rightarrow> u8 \<Rightarrow> 'a vm_scheme \<Rightarrow> 'a vm_scheme res" where
  "pstore va c s =
     bindR (user_frame True True va s) (\<lambda>(f, s). Ok (s\<lparr>mem := (mem s)(f := (mem s f)(unat va mod 4096 := c))\<rparr>))"

primrec uloads :: "u32 \<Rightarrow> nat \<Rightarrow> 'a vm_scheme \<Rightarrow> (u8 list \<times> 'a vm_scheme) res" where
  "uloads va 0 s = Ok ([], s)"
| "uloads va (Suc n) s =
     bindR (uload va s) (\<lambda>(c, s). bindR (uloads (va + 1) n s) (\<lambda>(cs, s). Ok (c # cs, s)))"

primrec ustores :: "u32 \<Rightarrow> u8 list \<Rightarrow> 'a vm_scheme \<Rightarrow> 'a vm_scheme res" where
  "ustores va [] s = Ok s"
| "ustores va (c # cs) s = bindR (ustore va c s) (ustores (va + 1) cs)"

definition uload32 :: "u32 \<Rightarrow> 'a vm_scheme \<Rightarrow> (u32 \<times> 'a vm_scheme) res" where
  "uload32 va s = bindR (uloads va 4 s) (\<lambda>(cs, s). Ok (ld32 (\<lambda>i. cs ! i) 0, s))"

definition word_bytes :: "u32 \<Rightarrow> u8 list" where
  "word_bytes w = bytes_of (st32 (\<lambda>_. 0) 0 w) 0 4"

end
