(* ===== verification/Isolation.thy ===== *)
theory Isolation
  imports Fault Umem
begin

text \<open>
  Copy-on-write seen from the processes: the frames that two address spaces share, stores through shared
  pages, and the refinement of a fork by two separate memories.
\<close>

unbundle bit_operations_syntax

section \<open>Two address spaces that share frames\<close>

definition user_mem :: "'a vm_scheme \<Rightarrow> u32 \<Rightarrow> u32 \<Rightarrow> u8" where
  "user_mem s d va = user_byte s d (pfn va) (unat va mod 4096)"

text \<open>How many of the first \<open>k\<close> entries of two tables refer to a frame.\<close>

definition cnt :: "(nat \<Rightarrow> u32) \<Rightarrow> (nat \<Rightarrow> u32) \<Rightarrow> nat \<Rightarrow> nat \<Rightarrow> int" where
  "cnt t u k f = refs t {0..<k} f + refs u {0..<k} f"

text \<open>
  The sharing that fork sets up: every reference to a frame is counted, and an entry that may be written
  is the only one that refers to its frame.
\<close>

definition sound_counts :: "(nat \<Rightarrow> u32) \<Rightarrow> (nat \<Rightarrow> u32) \<Rightarrow> nat \<Rightarrow> (nat \<Rightarrow> int) \<Rightarrow> bool" where
  "sound_counts t u k r \<longleftrightarrow> (\<forall>f. cnt t u k f \<le> r f) \<and>
     (\<forall>n < k. bit (t n) 1 \<longrightarrow> cnt t u k (pfn (t n)) = 1) \<and> (\<forall>n < k. bit (u n) 1 \<longrightarrow> cnt t u k (pfn (u n)) = 1)"

definition cow_pair :: "'a vm_scheme \<Rightarrow> u32 \<Rightarrow> u32 \<Rightarrow> nat \<Rightarrow> u32 list \<Rightarrow> bool" where
  "cow_pair s p d k fs \<longleftrightarrow> two_spaces s p d fs \<and>
     private_pages s p k (frm ` set fs \<union> owned s p \<union> owned s d) \<and>
     private_pages s d k (frm ` set fs \<union> owned s p \<union> owned s d) \<and>
     sound_counts (pt s p) (pt s d) k (page_to_refcnt s)"

lemma cow_pair_sym: "cow_pair s p d k fs \<Longrightarrow> cow_pair s d p k fs"
  by (auto simp: cow_pair_def two_spaces_def sound_counts_def cnt_def ac_simps)

lemma refs_nonneg [simp]: "0 \<le> refs t N f"
  by (simp add: refs_def)

lemma refs_remove: "finite N \<Longrightarrow> n \<in> N \<Longrightarrow> refs t N f = (if pfn (t n) = f then 1 else 0) + refs t (N - {n}) f"
  using refs_insert [of "N - {n}" n t f] by (simp add: insert_absorb)

lemma refs_upd:
  "n < k \<Longrightarrow> refs (t(n := y)) {0..<k} f = refs t {0..<k} f + (if pfn y = f then 1 else 0) - (if pfn (t n) = f then 1 else 0)"
proof -
  assume n: "n < k"
  have "refs (t(n := y)) ({0..<k} - {n}) f = refs t ({0..<k} - {n}) f" by (rule refs_cong) auto
  then show ?thesis using n by (simp add: refs_remove [of "{0..<k}" n])
qed

lemma cnt_upd:
  "n < k \<Longrightarrow> cnt t (u(n := y)) k f = cnt t u k f + (if pfn y = f then 1 else 0) - (if pfn (u n) = f then 1 else 0)"
  by (simp add: cnt_def refs_upd)

lemma cnt_ge1: "n < k \<Longrightarrow> 1 \<le> cnt t u k (pfn (u n))"
  using refs_nonneg [of t "{0..<k}" "pfn (u n)"] refs_nonneg [of u "{0..<k} - {n}" "pfn (u n)"]
  by (simp add: cnt_def refs_remove [of "{0..<k}" n u])

lemma cnt_two: "n < k \<Longrightarrow> m < k \<Longrightarrow> pfn (t m) = pfn (u n) \<Longrightarrow> 2 \<le> cnt t u k (pfn (u n))"
  using refs_nonneg [of t "{0..<k} - {m}" "pfn (u n)"] refs_nonneg [of u "{0..<k} - {n}" "pfn (u n)"]
  by (simp add: cnt_def refs_remove [of "{0..<k}" n u] refs_remove [of "{0..<k}" m t])

lemma cnt_same: "n < k \<Longrightarrow> m < k \<Longrightarrow> m \<noteq> n \<Longrightarrow> pfn (u m) = pfn (u n) \<Longrightarrow> 2 \<le> cnt t u k (pfn (u n))"
  using refs_nonneg [of t "{0..<k}" "pfn (u n)"] refs_nonneg [of u "{0..<k} - {n} - {m}" "pfn (u n)"]
  by (simp add: cnt_def refs_remove [of "{0..<k}" n u] refs_remove [of "{0..<k} - {n}" m u])

text \<open>The counts stay sound when an entry changes but not its frame, and when it moves to a new frame.\<close>

lemma sound_same:
  assumes sc: "sound_counts t u k r" and n: "n < k" and y: "pfn y = pfn (u n)"
    and w: "bit y 1 \<longrightarrow> bit (u n) 1 \<or> r (pfn (u n)) \<le> 1"
  shows "sound_counts t (u(n := y)) k r"
proof -
  have c: "cnt t (u(n := y)) k f = cnt t u k f" for f using n y by (simp add: cnt_upd)
  have "cnt t u k (pfn (u n)) = 1" if "bit y 1"
    using w that sc n cnt_ge1 [OF n, of t u] unfolding sound_counts_def by (meson order_antisym order_trans)
  then show ?thesis using sc n y by (auto simp: sound_counts_def c)
qed

lemma sound_move:
  assumes sc: "sound_counts t u k r" and n: "n < k" and y: "pfn y \<noteq> pfn (u n)" "cnt t u k (pfn y) = 0"
  shows "sound_counts t (u(n := y)) k (r(pfn y := 1, pfn (u n) := r (pfn (u n)) - 1))"
proof -
  note c = cnt_upd [OF n, of t u y]
  have le: "cnt t u k f \<le> r f" for f using sc by (simp add: sound_counts_def)
  have tn: "cnt t u k (pfn (t m)) \<noteq> 0" if "m < k" for m
    using cnt_ge1 [OF that, of u t] by (simp add: cnt_def add.commute)
  have T: "cnt t (u(n := y)) k (pfn (t m)) = 1" if m: "m < k" "bit (t m) 1" for m
  proof -
    have "cnt t u k (pfn (t m)) = 1" using sc m by (simp add: sound_counts_def)
    moreover have "pfn (t m) \<noteq> pfn (u n)" using cnt_two [OF n m(1), of t u] calculation by auto
    ultimately show ?thesis using y tn [OF m(1)] by (auto simp: c)
  qed
  have U: "cnt t (u(n := y)) k (pfn (u m)) = 1" if m: "m < k" "bit (u m) 1" "m \<noteq> n" for m
  proof -
    have "cnt t u k (pfn (u m)) = 1" using sc m by (simp add: sound_counts_def)
    moreover have "pfn (u m) \<noteq> pfn (u n)" using cnt_same [OF n m(1,3), of u t] calculation by auto
    ultimately show ?thesis using y by (auto simp: c)
  qed
  have "cnt t (u(n := y)) k f \<le> (r(pfn y := 1, pfn (u n) := r (pfn (u n)) - 1)) f" for f
    using le [of f] y by (auto simp: c)
  then show ?thesis using T U y by (auto simp: sound_counts_def c)
qed

section \<open>A store through shared pages\<close>

text \<open>The entries that still have to fault before a write.\<close>

definition read_only :: "(nat \<Rightarrow> u32) \<Rightarrow> nat \<Rightarrow> nat" where
  "read_only t k = card {n. n < k \<and> \<not> bit (t n) 1}"

lemma read_only_le: "read_only t k \<le> k"
proof -
  have "{n. n < k \<and> \<not> bit (t n) 1} \<subseteq> {0..<k}" by auto
  from card_mono [OF _ this] show ?thesis by (simp add: read_only_def)
qed

lemma read_only_upd:
  assumes "n < k" "\<not> bit (t n) 1" "bit y 1"
  shows "read_only t k = Suc (read_only (t(n := y)) k)"
proof -
  have "{m. m < k \<and> \<not> bit (t m) 1} = insert n {m. m < k \<and> \<not> bit ((t(n := y)) m) 1}"
    using assms by (auto split: if_splits)
  then show ?thesis using assms by (simp add: read_only_def)
qed

lemma read_only_keep: "(bit y 1 \<longleftrightarrow> bit (t n) 1) \<Longrightarrow> read_only (t(n := y)) k = read_only t k"
  unfolding read_only_def by (rule arg_cong [of _ _ card]) auto

text \<open>The other space is not touched by what happens in frames of this one.\<close>

lemma other_space:
  assumes ts: "two_spaces s p d (us @ fs)" and sp: "space s' d fs" and o: "owned s' d = owned s d"
    and m: "\<forall>g. g \<notin> owned s d \<union> frm ` set us \<longrightarrow> mem s' g = mem s g"
  shows "two_spaces s' p d fs" "pt s' p = pt s p" "owned s' p = owned s p"
proof -
  have "mem s' g = mem s g" if "g \<in> owned s p" for g
  proof -
    have "g \<notin> owned s d" "g \<notin> frm ` set us" using ts that by (auto simp: two_spaces_def space_def)
    then show ?thesis using m by blast
  qed
  note pc = pt_cong [OF this]
  show "pt s' p = pt s p" "owned s' p = owned s p" by (rule pc; assumption)+
  moreover have "pgdir_wf s' p = pgdir_wf s p" by (rule pc; assumption)
  ultimately show "two_spaces s' p d fs" using ts sp o by (auto simp: two_spaces_def space_def)
qed

lemma cow_pairI:
  assumes cp: "cow_pair s p d k (us @ fs)" and ts: "two_spaces s' p d fs" and pt: "pt s' p = pt s p" "pt s' d = (pt s d)(n := y)"
    and o: "owned s' p = owned s p" "owned s' d = owned s d"
    and y: "bit y 0" "pfn y < NFRAME" "pfn y \<notin> frm ` set fs \<union> owned s p \<union> owned s d"
    and sc: "sound_counts (pt s p) ((pt s d)(n := y)) k (page_to_refcnt s')"
  shows "cow_pair s' p d k fs"
  using assms by (auto simp: cow_pair_def private_pages_def)

lemma cow_bytes:
  assumes cp: "cow_pair s p d k (us @ fs)" and pt: "pt s' p = pt s p" "pt s' d = (pt s d)(n := y)"
    and m: "\<forall>g. g \<notin> owned s d \<union> frm ` set us \<longrightarrow> mem s' g = mem s g"
    and y: "\<forall>j < 4096. mem s' (pfn y) j = mem s (pfn (pt s d n)) j" and va: "pfn va < k"
  shows "user_mem s' p va = user_mem s p va" "user_mem s' d va = user_mem s d va"
proof -
  have "mem s' (pfn (pt s q (pfn va))) = mem s (pfn (pt s q (pfn va)))" if "q = p \<or> q = d" for q
  proof -
    have "pfn (pt s q (pfn va)) \<notin> owned s d" "pfn (pt s q (pfn va)) \<notin> frm ` set us"
      using cp va that by (auto simp: cow_pair_def private_pages_def image_Un)
    then show ?thesis using m by blast
  qed
  then show "user_mem s' p va = user_mem s p va" "user_mem s' d va = user_mem s d va"
    using y by (auto simp: user_mem_def user_byte_def pt)
qed

text \<open>
  A write fault makes the entry writable; nobody's bytes change, and it costs at most one free page.
\<close>

definition cow_granted :: "'a vm_scheme \<Rightarrow> u32 \<Rightarrow> u32 \<Rightarrow> nat \<Rightarrow> nat \<Rightarrow> u32 list \<Rightarrow> 'a vm_scheme \<Rightarrow> bool" where
  "cow_granted s p d k n fs s' \<longleftrightarrow> cow_pair s' p d k fs \<and> pt s' p = pt s p \<and> ptable s' = ptable s \<and> vm_frame s s' \<and>
     (\<exists>y. bit y 1 \<and> (bit y 2 \<longleftrightarrow> bit (pt s d n) 2) \<and> pt s' d = (pt s d)(n := y)) \<and>
     (\<forall>a. pfn a < k \<longrightarrow> user_mem s' p a = user_mem s p a \<and> user_mem s' d a = user_mem s d a)"

lemma cow_pairD:
  assumes "cow_pair s p d k fs"
  shows "two_spaces s p d fs" "sound_counts (pt s p) (pt s d) k (page_to_refcnt s)"
    "n < k \<Longrightarrow> bit (pt s d n) 0" "n < k \<Longrightarrow> pfn (pt s d n) < NFRAME"
    "n < k \<Longrightarrow> pfn (pt s d n) \<notin> frm ` set fs \<union> owned s p \<union> owned s d"
    "n < k \<Longrightarrow> pfn (pt s p n) \<notin> frm ` set fs \<union> owned s p \<union> owned s d"
  using assms by (auto simp: cow_pair_def private_pages_def)

lemma cow_faulting:
  assumes "cow_pair s p d k fs" "curproc s = Some i" "p_pgdir (ptable s i) = d" "pfn va < k"
  shows "faulting s i d fs va"
  using assms cow_pairD [OF assms(1)] by (simp add: faulting_def two_spaces_def)

lemma cow_fault_sole:
  assumes cp: "cow_pair s p d k fs" and i: "curproc s = Some i" "p_pgdir (ptable s i) = d" and va: "pfn va < k"
    and r: "page_to_refcnt s (pfn (pt s d (pfn va))) \<le> 1"
  obtains s' where "handle_page_fault va s = Ok s'" "cow_granted s p d k (pfn va) fs s'"
proof -
  let ?x = "pt s d (pfn va)"
  note c = cow_pairD [OF cp]
  from fault_sole [OF cow_faulting [OF cp i va] r] obtain s' where s': "handle_page_fault va s = Ok s'" "space s' d fs"
    "pt s' d = (pt s d)(pfn va := ?x OR PTE_W)" "page_to_refcnt s' = page_to_refcnt s"
    "\<forall>g. g \<notin> owned s d \<longrightarrow> mem s' g = mem s g" "owned s' d = owned s d" "ptable s' = ptable s" "vm_frame s s'" .
  have m: "\<forall>g. g \<notin> owned s d \<union> frm ` set [] \<longrightarrow> mem s' g = mem s g" using s'(5) by simp
  note o = other_space [of s p d "[]" fs, unfolded append_Nil, OF c(1) s'(2,6) m]
  have w: "pfn (?x OR PTE_W) = pfn ?x" "bit (?x OR PTE_W) 0" "bit (?x OR PTE_W) 1" "bit (?x OR PTE_W) 2 \<longleftrightarrow> bit ?x 2"
    using c(3) [OF va] by (auto simp: bit_or_iff bit_flags intro: pfn_or)
  have sc: "sound_counts (pt s p) ((pt s d)(pfn va := ?x OR PTE_W)) k (page_to_refcnt s')"
    unfolding s'(4) by (rule sound_same [OF c(2) va w(1)]) (simp add: r)
  have "cow_pair s' p d k fs"
    by (rule cow_pairI [of s p d k "[]" fs, unfolded append_Nil, OF cp o(1,2) s'(3) o(3) s'(6) w(2) _ _ sc])
      (use c(4,5) [OF va] w(1) in simp_all)
  moreover have "\<forall>j < 4096. mem s' (pfn (?x OR PTE_W)) j = mem s (pfn ?x) j" using s'(5) c(5) [OF va] w by simp
  note cow_bytes [of s p d k "[]" fs, unfolded append_Nil, OF cp o(2) s'(3) m this]
  ultimately have "cow_granted s p d k (pfn va) fs s'"
    unfolding cow_granted_def using s'(3,7,8) w(3,4) o(2) by blast
  with s'(1) show thesis by (rule that)
qed

lemma cow_fault_shared:
  assumes cp: "cow_pair s p d k (m # fs)" and i: "curproc s = Some i" "p_pgdir (ptable s i) = d" and va: "pfn va < k"
    and r: "page_to_refcnt s (pfn (pt s d (pfn va))) > 1"
  obtains s' where "handle_page_fault va s = Ok s'" "cow_granted s p d k (pfn va) fs s'"
proof -
  let ?x = "pt s d (pfn va)" and ?y = "V2P m OR PTE_FLAGS (pt s d (pfn va)) OR PTE_W"
  note c = cow_pairD [OF cp]
  from fault_shared [OF cow_faulting [OF cp i va] r] obtain s' where s': "handle_page_fault va s = Ok s'" "space s' d fs"
    "pt s' d = (pt s d)(pfn va := ?y)" "\<forall>j < 4096. mem s' (frm m) j = mem s (pfn ?x) j"
    "page_to_refcnt s' = (page_to_refcnt s)(frm m := 1, pfn ?x := page_to_refcnt s (pfn ?x) - 1)"
    "\<forall>g. g \<notin> owned s d \<union> {frm m} \<longrightarrow> mem s' g = mem s g" "owned s' d = owned s d" "ptable s' = ptable s"
    "vm_frame s s'" .
  have m: "kpg m" using c(1) by (auto simp: two_spaces_def space_def free_pages_def page_ok_def)
  have m': "\<forall>g. g \<notin> owned s d \<union> frm ` set [m] \<longrightarrow> mem s' g = mem s g" using s'(6) by simp
  note o = other_space [of s p d "[m]" fs, simplified append_Cons append_Nil, OF c(1) s'(2,7) m']
  have w: "pfn ?y = frm m" "bit ?y 0" "bit ?y 1" using pfn_new_pte [OF m] c(3) [OF va]
    by (auto simp: bit_or_iff bit_flags PTE_FLAGS_def bit_and_iff bit_mask_iff mask12)
  have "pg_aligned (V2P m)" using m by (simp add: kpg_def)
  then have "\<not> bit (V2P m) 2" by (simp add: pg_aligned_bits)
  then have w2: "bit ?y 2 \<longleftrightarrow> bit ?x 2" by (auto simp: bit_or_iff bit_flags PTE_FLAGS_def bit_and_iff bit_mask_iff mask12)
  have fr: "frm m \<notin> frm ` set fs \<union> owned s p \<union> owned s d"
    using c(1) free_frms [of s "[m]" fs] by (auto simp: two_spaces_def space_def)
  have ne: "pfn (pt s p n) \<noteq> frm m" "pfn (pt s d n) \<noteq> frm m" if "n < k" for n
    using c(5,6) [OF that] by auto
  then have c0: "cnt (pt s p) (pt s d) k (pfn ?y) = 0" unfolding w(1) by (simp add: cnt_def refs_none)
  have "pfn ?y \<noteq> pfn ?x" using ne(2) [OF va] unfolding w(1) by simp
  from sound_move [OF c(2) va this c0] have sc: "sound_counts (pt s p) ((pt s d)(pfn va := ?y)) k (page_to_refcnt s')"
    unfolding s'(5) w(1) .
  have "cow_pair s' p d k fs"
    by (rule cow_pairI [of s p d k "[m]" fs, simplified append_Cons append_Nil, OF cp o(1,2) s'(3) o(3) s'(7) w(2) _ _ sc])
      (use fr frm_less [OF m] w(1) in simp_all)
  moreover have "\<forall>j < 4096. mem s' (pfn ?y) j = mem s (pfn ?x) j" using s'(4) unfolding w(1) .
  note cow_bytes [of s p d k "[m]" fs, simplified append_Cons append_Nil, OF cp o(2) s'(3) m' this]
  ultimately have "cow_granted s p d k (pfn va) fs s'"
    unfolding cow_granted_def using s'(3,8,9) w(3) w2 o(2) by blast
  with s'(1) show thesis by (rule that)
qed

lemma cow_fault:
  assumes cp: "cow_pair s p d k fs" and i: "curproc s = Some i" "p_pgdir (ptable s i) = d" and va: "pfn va < k"
    and ro: "\<not> bit (pt s d (pfn va)) 1" and en: "read_only (pt s p) k + read_only (pt s d) k \<le> length fs"
  obtains s' fs' where "handle_page_fault va s = Ok s'" "cow_granted s p d k (pfn va) fs' s'"
    "read_only (pt s' p) k + read_only (pt s' d) k \<le> length fs'"
proof -
  obtain s' fs' where s': "handle_page_fault va s = Ok s'" "cow_granted s p d k (pfn va) fs' s'" "length fs \<le> Suc (length fs')"
  proof (cases "page_to_refcnt s (pfn (pt s d (pfn va))) \<le> 1")
    case True
    with that show thesis using cow_fault_sole [OF cp i va] by (metis le_Suc_eq order_refl)
  next
    case False
    have "read_only (pt s d) k > 0" using va ro by (auto simp: read_only_def card_gt_0_iff)
    then obtain m fs' where fs: "fs = m # fs'" using en by (cases fs) auto
    from cow_fault_shared [OF cp [unfolded fs] i va] False obtain s' where
      "handle_page_fault va s = Ok s'" "cow_granted s p d k (pfn va) fs' s'" by (auto simp: not_le)
    then show thesis by (rule that) (simp add: fs)
  qed
  then obtain y where y: "bit y 1" "pt s' d = (pt s d)(pfn va := y)" "pt s' p = pt s p" by (auto simp: cow_granted_def)
  then have "read_only (pt s' p) k + read_only (pt s' d) k \<le> length fs'"
    using en s'(3) read_only_upd [of _ _ "pt s d", OF va ro y(1)] by (simp add: y)
  with s'(1,2) show thesis by (rule that)
qed

text \<open>A store to a page that may be written: the processor marks the page and the byte is replaced.\<close>

lemma sole_frame:
  assumes cp: "cow_pair s p d k fs" and n: "n < k" "bit (pt s d n) 1"
  shows "m < k \<Longrightarrow> pfn (pt s p m) \<noteq> pfn (pt s d n)" "m < k \<Longrightarrow> m \<noteq> n \<Longrightarrow> pfn (pt s d m) \<noteq> pfn (pt s d n)"
proof -
  have "cnt (pt s p) (pt s d) k (pfn (pt s d n)) = 1" using cow_pairD(2) [OF cp] n by (simp add: sound_counts_def)
  then show "m < k \<Longrightarrow> pfn (pt s p m) \<noteq> pfn (pt s d n)" "m < k \<Longrightarrow> m \<noteq> n \<Longrightarrow> pfn (pt s d m) \<noteq> pfn (pt s d n)"
    using cnt_two [OF n(1), of m "pt s p" "pt s d"] cnt_same [OF n(1), of m "pt s d" "pt s p"] by auto
qed

definition stored :: "'a vm_scheme \<Rightarrow> u32 \<Rightarrow> u32 \<Rightarrow> nat \<Rightarrow> u32 list \<Rightarrow> u32 \<Rightarrow> u8 \<Rightarrow> 'a vm_scheme \<Rightarrow> bool" where
  "stored s p d k fs va c s' \<longleftrightarrow> cow_pair s' p d k fs \<and> ptable s' = ptable s \<and> vm_frame s s' \<and>
     read_only (pt s' p) k + read_only (pt s' d) k \<le> length fs \<and>
     (\<forall>a. pfn a < k \<longrightarrow> user_mem s' p a = user_mem s p a \<and>
        user_mem s' d a = (if a = va then c else user_mem s d a)) \<and>
     (\<forall>n. (bit (pt s' p n) 2 \<longleftrightarrow> bit (pt s p n) 2) \<and> (bit (pt s' d n) 2 \<longleftrightarrow> bit (pt s d n) 2))"

lemma word_page_eq: "pfn a = pfn b \<Longrightarrow> unat a mod 4096 = unat b mod 4096 \<Longrightarrow> a = (b :: u32)"
  by (metis div_mult_mod_eq pfn_div word_unat_eq_iff)

lemma touch_writable:
  assumes cp: "cow_pair s p d k fs" and i: "curproc s = Some i" "p_pgdir (ptable s i) = d" and va: "pfn va < k"
    and w: "bit (pt s d (pfn va)) 1" "bit (pt s d (pfn va)) 2"
  obtains t where "user_touch (Suc j) True True va s = Ok (pfn (pt s d (pfn va)), t)" "mem_frame s t" "two_spaces t p d fs"
    "pt t p = pt s p" "pt t d = (pt s d)(pfn va := pt s d (pfn va) OR PTE_A)" "owned t p = owned s p" "owned t d = owned s d"
    "page_to_refcnt t = page_to_refcnt s" "\<forall>f. f \<notin> owned s d \<longrightarrow> mem t f = mem s f"
proof -
  note c = cow_pairD [OF cp]
  have ts: "two_spaces s d p fs" using c(1) by (auto simp: two_spaces_def)
  have wf: "pgdir_wf s d" using ts by (simp add: two_spaces_def space_def)
  have pd: "bit (pde s d (pfn va div 1024)) 0" using pt_present [OF c(3) [OF va]] by simp
  from ts_store [OF ts pfn_bound pd, of "pt s d (pfn va) OR PTE_A"] obtain t where t:
    "kstore (pte_addr s d (pfn va)) (pt s d (pfn va) OR PTE_A) s = Ok t" "mem_frame s t" "two_spaces t d p fs"
    "pt t d = (pt s d)(pfn va := pt s d (pfn va) OR PTE_A)" "pt t p = pt s p" "owned t d = owned s d" "owned t p = owned s p"
    "pde t d = pde s d" "pde t p = pde s p" "page_to_refcnt t = page_to_refcnt s"
    "\<forall>f. f \<notin> owned s d \<longrightarrow> mem t f = mem s f" .
  have "user_touch (Suc j) True True va s = Ok (pfn (pt s d (pfn va)), t)"
    using i pd w c(3,4) [OF va] kload_pte [OF wf pfn_bound pd] pte_addr_nonzero [OF wf pfn_bound pd] t(1)
    by (simp add: myproc_def walk0 [OF wf] mmu_ok_def)
  moreover have "two_spaces t p d fs" using t(3) by (auto simp: two_spaces_def)
  ultimately show thesis using t by (intro that [of t]) auto
qed

lemma pstore_writable:
  assumes cp: "cow_pair s p d k fs" and i: "curproc s = Some i" "p_pgdir (ptable s i) = d" and va: "pfn va < k"
    and w: "bit (pt s d (pfn va)) 1" "bit (pt s d (pfn va)) 2" and en: "read_only (pt s p) k + read_only (pt s d) k \<le> length fs"
  obtains s' where "bindR (user_touch (Suc j) True True va s) (\<lambda>(f, s). Ok (s\<lparr>mem := (mem s)(f := (mem s f)(unat va mod 4096 := c))\<rparr>)) = Ok s'"
    "stored s p d k fs va c s'"
proof -
  let ?n = "pfn va" and ?x = "pt s d (pfn va)" and ?y = "pt s d (pfn va) OR PTE_A"
  note c = cow_pairD [OF cp]
  from touch_writable [OF cp i va w, of j] obtain t where t: "user_touch (Suc j) True True va s = Ok (pfn ?x, t)"
    "mem_frame s t" "two_spaces t p d fs" "pt t p = pt s p" "pt t d = (pt s d)(?n := ?y)" "owned t p = owned s p"
    "owned t d = owned s d" "page_to_refcnt t = page_to_refcnt s" "\<forall>f. f \<notin> owned s d \<longrightarrow> mem t f = mem s f" .
  define s' where "s' = t\<lparr>mem := (mem t)(pfn ?x := (mem t (pfn ?x))(unat va mod 4096 := c))\<rparr>"
  have ms: "mem s' = (mem t)(pfn ?x := (mem t (pfn ?x))(unat va mod 4096 := c))" by (simp add: s'_def)
  have fx: "pfn ?x \<notin> frm ` set fs \<union> owned s p \<union> owned s d" by (rule c(5) [OF va])
  have sp: "space t p fs" "space t d fs" "owned t p \<inter> owned t d = {}" using t(3) by (auto simp: two_spaces_def)
  have eq: "f \<in> owned t p \<union> frm ` set fs \<Longrightarrow> mem s' f = mem t f" "f \<in> owned t d \<union> frm ` set fs \<Longrightarrow> mem s' f = mem t f" for f
    using fx t(6,7) by (auto simp: s'_def)
  have sel: "kend s' = kend t" "freelist s' = freelist t" "num_free_pages s' = num_free_pages t"
    "page_to_refcnt s' = page_to_refcnt t" "ptable s' = ptable t" by (simp_all add: s'_def)
  note P = space_cong [OF sp(1) eq(1) sel(1-3)] and D = space_cong [OF sp(2) eq(2) sel(1-3)]
  have P': "space s' p fs" "owned s' p = owned s p" "pt s' p = pt s p" using P t(4,6) by simp_all
  have D': "space s' d fs" "owned s' d = owned s d" "pt s' d = (pt s d)(?n := ?y)" using D t(5,7) by simp_all
  have ts: "two_spaces s' p d fs" using P' D' sp(3) t(6,7) by (simp add: two_spaces_def)
  have y: "pfn ?y = pfn ?x" "bit ?y 0" "bit ?y 1 = bit ?x 1" "bit ?y 2 = bit ?x 2"
    using c(3) [OF va] by (auto simp: bit_or_iff bit_flags intro: pfn_or)
  have sc: "sound_counts (pt s p) ((pt s d)(?n := ?y)) k (page_to_refcnt s')"
    unfolding sel(4) t(8) by (rule sound_same [OF c(2) va y(1)]) (use y(3) in simp)
  have "cow_pair s' p d k fs"
    by (rule cow_pairI [of s p d k "[]" fs, unfolded append_Nil, OF cp ts P'(3) D'(3) P'(2) D'(2) y(2) _ _ sc])
      (use c(4) [OF va] fx y(1) in simp_all)
  moreover have "user_mem s' p a = user_mem s p a" if "pfn a < k" for a
    using sole_frame(1) [OF cp va w(1) that] c(6) [OF that] t(9) by (simp add: user_mem_def user_byte_def P'(3) ms)
  moreover have "user_mem s' d a = (if a = va then c else user_mem s d a)" if "pfn a < k" for a
  proof (cases "pfn a = ?n")
    case True
    then show ?thesis using word_page_eq [of a va] fx t(9) y(1) by (auto simp: user_mem_def user_byte_def D'(3) ms)
  next
    case False
    then show ?thesis using sole_frame(2) [OF cp va w(1) that False] c(5) [OF that] t(9)
      by (auto simp: user_mem_def user_byte_def D'(3) ms)
  qed
  moreover have "read_only (pt s' p) k + read_only (pt s' d) k \<le> length fs"
    using en read_only_keep [of _ "pt s d", OF y(3)] by (simp add: P'(3) D'(3))
  moreover have "mem_frame s s'" unfolding s'_def by (rule mem_frame_trans [OF t(2) mem_frame_upd(1)])
  ultimately have "stored s p d k fs va c s'"
    using mem_frame_vm [of s s'] mem_frame_sel(1) [of s s'] y(4) by (simp add: stored_def P'(3) D'(3))
  moreover have "bindR (user_touch (Suc j) True True va s) (\<lambda>(f, s). Ok (s\<lparr>mem := (mem s)(f := (mem s f)(unat va mod 4096 := c))\<rparr>)) = Ok s'"
    by (simp only: t(1) bindR.simps prod.case s'_def)
  ultimately show thesis by (intro that)
qed

lemma pstore_cow:
  assumes cp: "cow_pair s p d k fs" and i: "curproc s = Some i" "p_pgdir (ptable s i) = d" and va: "pfn va < k"
    and us: "bit (pt s d (pfn va)) 2" and en: "read_only (pt s p) k + read_only (pt s d) k \<le> length fs"
  obtains s' fs' where "pstore va c s = Ok s'" "stored s p d k fs' va c s'"
proof (cases "bit (pt s d (pfn va)) 1")
  case True
  from pstore_writable [OF cp i va True us en, of 2 c] obtain s' where
    "bindR (user_touch (Suc 2) True True va s) (\<lambda>(f, s). Ok (s\<lparr>mem := (mem s)(f := (mem s f)(unat va mod 4096 := c))\<rparr>)) = Ok s'"
    "stored s p d k fs va c s'" .
  moreover have "3 = Suc 2" by simp
  ultimately show thesis using that [of s' fs] unfolding pstore_def user_frame_def by (simp only:)
next
  case False
  from cow_fault [OF cp i va False en] obtain t fs' where t: "handle_page_fault va s = Ok t"
    "cow_granted s p d k (pfn va) fs' t" "read_only (pt t p) k + read_only (pt t d) k \<le> length fs'" .
  then have g: "cow_pair t p d k fs'" "ptable t = ptable s" "vm_frame s t" "bit (pt t d (pfn va)) 1" "bit (pt t d (pfn va)) 2"
    "\<forall>a. pfn a < k \<longrightarrow> user_mem t p a = user_mem s p a \<and> user_mem t d a = user_mem s d a"
    "\<forall>n. (bit (pt t p n) 2 \<longleftrightarrow> bit (pt s p n) 2) \<and> (bit (pt t d n) 2 \<longleftrightarrow> bit (pt s d n) 2)"
    using us by (auto simp: cow_granted_def split: if_splits)
  have i': "curproc t = Some i" "p_pgdir (ptable t i) = d" using i g(2) vm_frame_sel(1) [OF g(3)] by simp_all
  from pstore_writable [OF g(1) i' va g(4,5) t(3), of 1 c] obtain s' where s':
    "bindR (user_touch 2 True True va t) (\<lambda>(f, s). Ok (s\<lparr>mem := (mem s)(f := (mem s f)(unat va mod 4096 := c))\<rparr>)) = Ok s'"
    "stored t p d k fs' va c s'" unfolding Suc_1 .
  note cD = cow_pairD [OF cp]
  have wf: "pgdir_wf s d" using cD(1) by (simp add: two_spaces_def space_def)
  have pd: "bit (pde s d (pfn va div 1024)) 0" using pt_present [OF cD(3) [OF va]] by simp
  have "user_touch (Suc 2) True True va s = user_touch 2 True True va t"
    using i False pd t(1) kload_pte [OF wf pfn_bound pd] pte_addr_nonzero [OF wf pfn_bound pd]
    by (simp only: user_touch.simps(2)) (simp add: myproc_def walk0 [OF wf] mmu_ok_def)
  moreover have "3 = Suc 2" by simp
  ultimately have "user_touch 3 True True va s = user_touch 2 True True va t" by (simp only:)
  then have "pstore va c s = Ok s'" using s'(1) by (simp add: pstore_def user_frame_def)
  moreover have "stored s p d k fs' va c s'"
    using s'(2) g(2,6,7) vm_frame_trans [OF g(3)] by (simp add: stored_def)
  ultimately show thesis by (rule that)
qed

section \<open>Fork gives each process its own memory\<close>

text \<open>
  A turn of a process that stores a byte: the scheduler switches to its address space and the store
  goes through the page table. The specification has one memory per process and no sharing.
\<close>

definition run_store :: "nat \<times> u32 \<times> u8 \<Rightarrow> 'a vm_scheme \<Rightarrow> 'a vm_scheme res" where
  "run_store op s = (case op of (w, va, c) \<Rightarrow> bindR (switchuvm (Some w) (s\<lparr>curproc := Some w\<rparr>)) (pstore va c))"

definition spec_store :: "nat \<times> u32 \<times> u8 \<Rightarrow> (nat \<Rightarrow> u32 \<Rightarrow> u8) \<Rightarrow> nat \<Rightarrow> u32 \<Rightarrow> u8" where
  "spec_store op M = (case op of (w, va, c) \<Rightarrow> M(w := (M w)(va := c)))"

text \<open>Two processes with their directories, in the state that fork leaves and stores keep; \<open>us\<close> are the pages
  with the user bit.\<close>

definition forked :: "'a vm_scheme \<Rightarrow> nat \<Rightarrow> nat \<Rightarrow> u32 \<Rightarrow> u32 \<Rightarrow> nat \<Rightarrow> (nat \<Rightarrow> bool) \<Rightarrow> u32 list \<Rightarrow> bool" where
  "forked s i j p d k us fs \<longleftrightarrow> cow_pair s p d k fs \<and> i \<noteq> j \<and>
     p_pgdir (ptable s i) = p \<and> p_pgdir (ptable s j) = d \<and> p_kstack (ptable s i) \<noteq> 0 \<and> p_kstack (ptable s j) \<noteq> 0 \<and>
     (\<forall>n < k. (bit (pt s p n) 2 \<longleftrightarrow> us n) \<and> (bit (pt s d n) 2 \<longleftrightarrow> us n)) \<and>
     read_only (pt s p) k + read_only (pt s d) k \<le> length fs"

definition mem_refines :: "'a vm_scheme \<Rightarrow> nat \<Rightarrow> nat \<Rightarrow> nat \<Rightarrow> (nat \<Rightarrow> u32 \<Rightarrow> u8) \<Rightarrow> bool" where
  "mem_refines s i j k M \<longleftrightarrow> (\<forall>w \<in> {i, j}. \<forall>a. pfn a < k \<longrightarrow> user_mem s (p_pgdir (ptable s w)) a = M w a)"

lemma forked_sym: "forked s i j p d k us fs \<Longrightarrow> forked s j i d p k us fs"
  by (auto simp: forked_def intro: cow_pair_sym)

lemma cow_pair_cong:
  assumes cp: "cow_pair s p d k fs" and e: "mem t = mem s" "kend t = kend s" "freelist t = freelist s"
    "num_free_pages t = num_free_pages s" "page_to_refcnt t = page_to_refcnt s"
  shows "cow_pair t p d k fs" "pt t p = pt s p" "pt t d = pt s d" "user_mem t p = user_mem s p" "user_mem t d = user_mem s d"
proof -
  note c = two_spaces_cong [OF cow_pairD(1) [OF cp] e(1-4)]
  show "pt t p = pt s p" "pt t d = pt s d" by (rule c(2,3))+
  show "user_mem t p = user_mem s p" "user_mem t d = user_mem s d"
    by (simp_all add: user_mem_def user_byte_def fun_eq_iff c(2,3) e(1))
  show "cow_pair t p d k fs" using cp c e(5) by (simp add: cow_pair_def private_pages_def)
qed

lemma switchuvm_spec:
  assumes "p_kstack (ptable s w) \<noteq> 0" "p_pgdir (ptable s w) \<noteq> 0"
  obtains t where "switchuvm (Some w) (s\<lparr>curproc := Some w\<rparr>) = Ok t" "mem t = mem s" "kend t = kend s"
    "freelist t = freelist s" "num_free_pages t = num_free_pages s" "page_to_refcnt t = page_to_refcnt s"
    "curproc t = Some w" "ptable t = ptable s"
  using assms by (simp add: switchuvm_def lcr3_def)

lemma run_store_second:
  assumes f: "forked s i j p d k us fs" and m: "mem_refines s i j k M" and va: "pfn va < k" "us (pfn va)"
  obtains s' fs' where "run_store (j, va, c) s = Ok s'" "forked s' i j p d k us fs'"
    "mem_refines s' i j k (spec_store (j, va, c) M)"
proof -
  have cp: "cow_pair s p d k fs" and ij: "i \<noteq> j" "p_pgdir (ptable s i) = p" "p_pgdir (ptable s j) = d"
    "p_kstack (ptable s i) \<noteq> 0" "p_kstack (ptable s j) \<noteq> 0" and en: "read_only (pt s p) k + read_only (pt s d) k \<le> length fs"
    using f by (simp_all add: forked_def)
  have "kpg d" using cow_pairD(1) [OF cp] by (simp add: two_spaces_def space_def pgdir_wf_def)
  then have "d \<noteq> 0" by (rule kpg_nonzero)
  with switchuvm_spec [OF ij(5)] ij(3) obtain t where t: "switchuvm (Some j) (s\<lparr>curproc := Some j\<rparr>) = Ok t"
    "mem t = mem s" "kend t = kend s" "freelist t = freelist s" "num_free_pages t = num_free_pages s"
    "page_to_refcnt t = page_to_refcnt s" "curproc t = Some j" "ptable t = ptable s" by metis
  note c = cow_pair_cong [OF cp t(2-6)]
  have pj: "p_pgdir (ptable t j) = d" using ij t(8) by simp
  have ub: "bit (pt t d (pfn va)) 2" using f va c(3) by (simp add: forked_def)
  from pstore_cow [OF c(1) t(7) pj va(1) ub, of c] en c(2,3) obtain s' fs' where s': "pstore va c t = Ok s'"
    "stored t p d k fs' va c s'" by (metis (no_types))
  have ok: "run_store (j, va, c) s = Ok s'" by (simp add: run_store_def t(1) s'(1))
  have "forked s' i j p d k us fs'" using s'(2) ij t(8) f c(2,3) by (simp add: stored_def forked_def)
  moreover have "mem_refines s' i j k (spec_store (j, va, c) M)"
    using s'(2) m ij t(8) c(4,5) by (auto simp: stored_def mem_refines_def spec_store_def)
  ultimately show thesis by (rule that [OF ok])
qed

lemma run_store_refines:
  assumes f: "forked s i j p d k us fs" and m: "mem_refines s i j k M" and w: "w \<in> {i, j}" and va: "pfn va < k" "us (pfn va)"
  obtains s' fs' where "run_store (w, va, c) s = Ok s'" "forked s' i j p d k us fs'"
    "mem_refines s' i j k (spec_store (w, va, c) M)"
proof (cases "w = j")
  case True
  then show thesis using run_store_second [OF f m va, of c] that by metis
next
  case False
  then have w: "w = i" using w by simp
  have "mem_refines s j i k M" using m by (auto simp: mem_refines_def)
  from run_store_second [OF forked_sym [OF f] this va, of c] obtain s' fs' where
    "run_store (i, va, c) s = Ok s'" "forked s' j i d p k us fs'" "mem_refines s' j i k (spec_store (i, va, c) M)" .
  then show thesis unfolding w by (intro that [OF _ forked_sym]) (auto simp: mem_refines_def w)
qed

lemma run_stores:
  assumes "forked s i j p d k us fs" "mem_refines s i j k M" "\<forall>(w, va, c) \<in> set ops. w \<in> {i, j} \<and> pfn va < k \<and> us (pfn va)"
  shows "\<exists>s' fs'. foldR run_store ops s = Ok s' \<and> forked s' i j p d k us fs' \<and> mem_refines s' i j k (fold spec_store ops M)"
  using assms
proof (induction ops arbitrary: s fs M)
  case (Cons op ops)
  obtain w va c where op: "op = (w, va, c)" by (cases op)
  then have "w \<in> {i, j}" "pfn va < k" "us (pfn va)" using Cons.prems(3) by auto
  from run_store_refines [OF Cons.prems(1,2) this, of c] obtain t gs where
    t: "run_store op s = Ok t" "forked t i j p d k us gs" "mem_refines t i j k (spec_store op M)" unfolding op .
  from Cons.IH [OF t(2,3)] Cons.prems(3) t(1) show ?case by simp
qed auto

lemma pfn_clear_W: "pfn (x AND NOT PTE_W) = pfn x"
proof -
  have "PTE_ADDR (x AND NOT PTE_W) = PTE_ADDR x"
    by (rule bit_word_eqI) (auto simp: PTE_ADDR_def bit_simps bit_flags mask12)
  then show ?thesis by (metis pfn_PTE_ADDR)
qed

text \<open>The state after the copy of the address space in fork.\<close>

lemma copy_forked:
  assumes sp: "space s p fs" and lay: "layout_ok s" and sz: "p_sz (ptable s i) \<le> KERNBASE"
    and up: "private_pages s p (npages (p_sz (ptable s i))) (frm ` set fs \<union> owned s p)"
    and rc: "\<forall>f. refs (pt s p) {0..<npages (p_sz (ptable s i))} f \<le> page_to_refcnt s f"
    and en: "10 + (npages (p_sz (ptable s i)) + 1023) div 1024 + 2 * npages (p_sz (ptable s i)) \<le> length fs"
    and ij: "i \<noteq> j" "p_pgdir (ptable s i) = p" "p_kstack (ptable s i) \<noteq> 0" "p_kstack (ptable s j) \<noteq> 0"
  obtains d t gs where "copyuvm_cow p (p_sz (ptable s i)) j s = Ok (d, t)"
    "forked (upd_proc j (\<lambda>q. q\<lparr>p_pgdir := d\<rparr>) t) i j p d (npages (p_sz (ptable s i))) (\<lambda>n. bit (pt s p n) 2) gs"
    "mem_refines (upd_proc j (\<lambda>q. q\<lparr>p_pgdir := d\<rparr>) t) i j (npages (p_sz (ptable s i))) (\<lambda>_. user_mem s p)"
proof -
  let ?k = "npages (p_sz (ptable s i))"
  have up': "user_pages s p ?k fs" using up by (auto simp: user_pages_def private_pages_def)
  have en': "10 + (?k + 1023) div 1024 \<le> length fs" using en by simp
  from copyuvm_cow_spec [OF sp lay sz up' en', of j] obtain d u us gs where
    u: "copyuvm_cow p (p_sz (ptable s i)) j s = Ok (d, lcr3 (V2P p) u)" "fs = d # us @ gs"
    "two_spaces u p d gs" "owned u p = owned s p" "owned u d = frm ` set (d # us)"
    "pt u p = (\<lambda>n. if n < ?k then pt s p n AND NOT PTE_W else pt s p n)"
    "pt u d = (\<lambda>n. if n < ?k then pt s p n AND NOT PTE_W else kvm_pt (kdata s) n)"
    "page_to_refcnt u = (\<lambda>f. if f \<in> frm ` set (d # us) then 1 else page_to_refcnt s f + refs (pt s p) {0..<?k} f)"
    "\<forall>f. f \<notin> owned s p \<union> owned u d \<longrightarrow> mem u f = mem s f"
    "ptable u = (ptable s)(j := (ptable s j)\<lparr>p_rss := p_rss (ptable s j) + of_nat ?k * PGSIZE\<rparr>)"
    "length us \<le> 9 + (?k + 1023) div 1024" .
  have x: "pfn (pt u q n) = pfn (pt s p n)" "bit (pt u q n) 0" "\<not> bit (pt u q n) 1" if "n < ?k" "q = p \<or> q = d" for n q
    using that up u(2) by (auto simp: u(6,7) private_pages_def bit_and_iff bit_not_iff bit_flags pfn_clear_W)
  have y: "pfn (pt s p n) < NFRAME" "pfn (pt s p n) \<notin> frm ` set gs \<union> owned u p \<union> owned u d" if "n < ?k" for n
    using that up u(2) by (auto simp: u(4,5) private_pages_def)
  have rf: "refs (pt u q) {0..<?k} f = refs (pt s p) {0..<?k} f" if "q = p \<or> q = d" for q f
    using x(1) that by (intro refs_cong) auto
  have z: "refs (pt s p) {0..<?k} f = 0" if "f \<in> frm ` set (d # us)" for f
    using y(2) that unfolding u(5) [symmetric] by (intro refs_none) fastforce
  have "sound_counts (pt u p) (pt u d) ?k (page_to_refcnt u)"
    using x(3) rc z by (auto simp: sound_counts_def cnt_def rf u(8))
  then have cp: "cow_pair u p d ?k gs" using x y u(3) by (auto simp: cow_pair_def private_pages_def)
  let ?v = "upd_proc j (\<lambda>q. q\<lparr>p_pgdir := d\<rparr>) (lcr3 (V2P p) u)"
  have e: "mem ?v = mem u" "kend ?v = kend u" "freelist ?v = freelist u" "num_free_pages ?v = num_free_pages u"
    "page_to_refcnt ?v = page_to_refcnt u" by (simp_all add: lcr3_def)
  note v = cow_pair_cong [OF cp e]
  have um: "user_mem u q a = user_mem s p a" if "pfn a < ?k" "q = p \<or> q = d" for q a
    using x(1) [OF that] y(2) [OF that(1)] u(4,9) by (simp add: user_mem_def user_byte_def)
  have tab: "ptable ?v w = (if w = j then (ptable s j)\<lparr>p_rss := p_rss (ptable s j) + of_nat ?k * PGSIZE, p_pgdir := d\<rparr> else ptable s w)" for w
    by (simp add: upd_proc_def lcr3_def u(10))
  have "read_only (pt u p) ?k + read_only (pt u d) ?k \<le> 2 * ?k"
    using add_mono [OF read_only_le [of "pt u p" ?k] read_only_le [of "pt u d" ?k]] by simp
  moreover have "(bit (pt u p n) 2 \<longleftrightarrow> bit (pt s p n) 2) \<and> (bit (pt u d n) 2 \<longleftrightarrow> bit (pt s p n) 2)" if "n < ?k" for n
    using that by (simp add: u(6,7) bit_and_iff bit_not_iff bit_flags)
  ultimately have "forked ?v i j p d ?k (\<lambda>n. bit (pt s p n) 2) gs"
    using v(1-3) ij en u(2,11) by (simp add: forked_def tab) (simp add: lcr3_def u(10))
  moreover have "mem_refines ?v i j ?k (\<lambda>_. user_mem s p)"
    using um ij v(4,5) by (auto simp: mem_refines_def tab)
  ultimately show thesis by (rule that [OF u(1)])
qed

text \<open>
  C1. Copy-on-write is invisible as long as memory lasts: after fork has copied an address space, any
  interleaving of stores by parent and child to pages that have the user bit succeeds, and each process then
  reads exactly what it would read had it its own copy of the memory from the start. All pages of the parent
  are in memory and belong to no page table and not to the free list; their reference counts are at least the
  number of entries that refer to them; and so many frames are free (ten, one per 1024 pages and two per
  page of the process) that no page is swapped out on the way. With fewer free frames the allocator evicts
  pages without regard to sharing, and nothing is claimed here.
\<close>

theorem fork_refines_copy:
  assumes "space s p fs" "layout_ok s" "p_sz (ptable s i) \<le> KERNBASE"
    and "private_pages s p (npages (p_sz (ptable s i))) (frm ` set fs \<union> owned s p)"
    and "\<forall>f. refs (pt s p) {0..<npages (p_sz (ptable s i))} f \<le> page_to_refcnt s f"
    and "10 + (npages (p_sz (ptable s i)) + 1023) div 1024 + 2 * npages (p_sz (ptable s i)) \<le> length fs"
    and "i \<noteq> j" "p_pgdir (ptable s i) = p" "p_kstack (ptable s i) \<noteq> 0" "p_kstack (ptable s j) \<noteq> 0"
    and "\<forall>(w, va, c) \<in> set ops. w \<in> {i, j} \<and> pfn va < npages (p_sz (ptable s i)) \<and> bit (pt s p (pfn va)) 2"
  shows "\<exists>d t u. copyuvm_cow p (p_sz (ptable s i)) j s = Ok (d, t) \<and>
    foldR run_store ops (upd_proc j (\<lambda>q. q\<lparr>p_pgdir := d\<rparr>) t) = Ok u \<and>
    (\<forall>a. pfn a < npages (p_sz (ptable s i)) \<longrightarrow>
      user_mem u p a = fold spec_store ops (\<lambda>_. user_mem s p) i a \<and>
      user_mem u d a = fold spec_store ops (\<lambda>_. user_mem s p) j a)"
proof -
  from copy_forked [OF assms(1-10)] obtain d t gs where t: "copyuvm_cow p (p_sz (ptable s i)) j s = Ok (d, t)"
    "forked (upd_proc j (\<lambda>q. q\<lparr>p_pgdir := d\<rparr>) t) i j p d (npages (p_sz (ptable s i))) (\<lambda>n. bit (pt s p n) 2) gs"
    "mem_refines (upd_proc j (\<lambda>q. q\<lparr>p_pgdir := d\<rparr>) t) i j (npages (p_sz (ptable s i))) (\<lambda>_. user_mem s p)" .
  from run_stores [OF t(2,3) assms(11)] obtain u hs where
    u: "foldR run_store ops (upd_proc j (\<lambda>q. q\<lparr>p_pgdir := d\<rparr>) t) = Ok u" "forked u i j p d (npages (p_sz (ptable s i))) (\<lambda>n. bit (pt s p n) 2) hs"
    "mem_refines u i j (npages (p_sz (ptable s i))) (fold spec_store ops (\<lambda>_. user_mem s p))" by blast
  then show ?thesis using t(1) 
    by (intro exI [of _ d] exI [of _ t] exI [of _ u]) (simp add: forked_def mem_refines_def)
qed

theorem fork_refines_copy_witness:
  "\<exists>d t u. copyuvm_cow (page_at 512) PGSIZE 4 one_page_vm = Ok (d, t) \<and>
     foldR run_store [(3, 5, 77), (4, 5, 78), (3, 6, 79)] (upd_proc 4 (\<lambda>q. q\<lparr>p_pgdir := d\<rparr>) t) = Ok u \<and>
     user_mem u (page_at 512) 5 = 77 \<and> user_mem u (page_at 512) 6 = 79 \<and> user_mem u d 5 = 78 \<and> user_mem u d 6 = 6"
proof -
  let ?ops = "[(3, 5, 77), (4, 5, 78), (3, 6, 79)] :: (nat \<times> u32 \<times> u8) list"
  have p: "p_sz (ptable one_page_vm 3) = PGSIZE" "p_pgdir (ptable one_page_vm 3) = page_at 512" "npages PGSIZE = 1"
    by (simp_all add: one_page_sel one_page_procs_def npages_def)
  have ks: "p_kstack (ptable one_page_vm 3) \<noteq> 0" "p_kstack (ptable one_page_vm 4) \<noteq> 0"
    using kpg_nonzero [OF page_at(2)] by (simp_all add: one_page_sel one_page_procs_def)
  have u2: "bit (pt one_page_vm (page_at 512) 0) 2" by (simp add: one_page_dir bit_iff_odd)
  have m: "user_mem one_page_vm (page_at 512) 6 = 6"
    by (simp add: user_mem_def user_byte_def one_page_dir one_page_sel one_page_mem_def pfn_def)
  have "\<exists>d t u. copyuvm_cow (page_at 512) PGSIZE 4 one_page_vm = Ok (d, t) \<and>
     foldR run_store ?ops (upd_proc 4 (\<lambda>q. q\<lparr>p_pgdir := d\<rparr>) t) = Ok u \<and>
     (\<forall>a. pfn a < 1 \<longrightarrow> user_mem u (page_at 512) a = fold spec_store ?ops (\<lambda>_. user_mem one_page_vm (page_at 512)) 3 a \<and>
       user_mem u d a = fold spec_store ?ops (\<lambda>_. user_mem one_page_vm (page_at 512)) 4 a)"
    using fork_refines_copy [OF one_page_space one_page_layout, of 3 4 ?ops, unfolded p] one_page_private ks u2
    by (simp add: one_page_refs pfn_def)
  then obtain d t u where u: "copyuvm_cow (page_at 512) PGSIZE 4 one_page_vm = Ok (d, t)"
    "foldR run_store ?ops (upd_proc 4 (\<lambda>q. q\<lparr>p_pgdir := d\<rparr>) t) = Ok u"
    "\<And>a. pfn a < 1 \<Longrightarrow> user_mem u (page_at 512) a = fold spec_store ?ops (\<lambda>_. user_mem one_page_vm (page_at 512)) 3 a \<and>
       user_mem u d a = fold spec_store ?ops (\<lambda>_. user_mem one_page_vm (page_at 512)) 4 a" by blast
  show ?thesis using u(1,2) u(3) [of 5] u(3) [of 6] m
    by (intro exI [of _ d] exI [of _ t] exI [of _ u]) (simp add: pfn_def spec_store_def)
qed

end
