(* ===== verification/Log.thy ===== *)
theory Log
  imports Kmem
begin

text \<open>
  The file system log of log.c, with the superblock of fs.h that says where it lies. The log's state
  extends the state of the allocator, so that one record carries the kernel's whole state. A header of
  more than \<open>LOGSIZE\<close> blocks makes the C code index past its array: that is an error here.
\<close>

unbundle bit_operations_syntax

section \<open>The superblock\<close>

record superblock =
  sb_size :: u32
  sb_nblocks :: u32
  sb_ninodes :: u32
  sb_nlog :: u32
  sb_nswap :: u32
  sb_swapstart :: u32
  sb_logstart :: u32
  sb_inodestart :: u32
  sb_bmapstart :: u32

text \<open>The bytes of the structure, as \<open>memmove(sb, bp->data, sizeof( *sb))\<close> reads them.\<close>

definition sb_of :: "bytes \<Rightarrow> superblock" where
  "sb_of d = \<lparr>sb_size = ld32 d 0, sb_nblocks = ld32 d 4, sb_ninodes = ld32 d 8, sb_nlog = ld32 d 12,
     sb_nswap = ld32 d 16, sb_swapstart = ld32 d 20, sb_logstart = ld32 d 24, sb_inodestart = ld32 d 28,
     sb_bmapstart = ld32 d 32\<rparr>"

definition readsb :: "u32 \<Rightarrow> 'a bio_scheme \<Rightarrow> (superblock \<times> 'a bio_scheme) res" where
  "readsb dev s =
     bindR (bread dev 1 s) (\<lambda>(bp, s).
       let sb = sb_of (b_data (bufs s bp))
       in bindR (brelse bp s) (\<lambda>s. Ok (sb, s)))"

section \<open>The log\<close>

record klog = vm +
  log_start :: u32
  log_size :: int
  outstanding :: int
  committing :: bool
  log_dev :: u32
  lh_n :: int
  lh_block :: "nat \<Rightarrow> u32"

text \<open>One round of install_trans: copy a logged block to its home.\<close>

definition install_block :: "nat \<Rightarrow> 'a klog_scheme \<Rightarrow> 'a klog_scheme res" where
  "install_block tail s =
     (if tail \<ge> LOGSIZE then Err OutOfBounds
      else
        bindR (bread (log_dev s) (log_start s + of_nat tail + 1) s) (\<lambda>(lbuf, s).
        bindR (bread (log_dev s) (lh_block s tail) s) (\<lambda>(dbuf, s).
        bindR (bwrite dbuf (upd_buf dbuf (\<lambda>bf. bf\<lparr>b_data := blit (b_data bf) 0 (b_data (bufs s lbuf)) 0 BSIZE\<rparr>) s)) (\<lambda>s.
        bindR (brelse lbuf s) (brelse dbuf)))))"

definition install_trans :: "'a klog_scheme \<Rightarrow> 'a klog_scheme res" where
  "install_trans s = foldR install_block [0..<nat (lh_n s)] s"

definition read_head :: "'a klog_scheme \<Rightarrow> 'a klog_scheme res" where
  "read_head s =
     bindR (bread (log_dev s) (log_start s) s) (\<lambda>(bp, s).
       let lh = b_data (bufs s bp); n = sint (ld32 lh 0)
       in if n > int LOGSIZE then Err OutOfBounds
          else brelse bp (s\<lparr>lh_n := n,
            lh_block := (\<lambda>i. if int i < n then ld32 lh (4 + 4 * i) else lh_block s i)\<rparr>))"

text \<open>The header block that write_head composes.\<close>

definition head_data :: "int \<Rightarrow> (nat \<Rightarrow> u32) \<Rightarrow> bytes \<Rightarrow> bytes" where
  "head_data n block d = fold (\<lambda>i d. st32 d (4 + 4 * i) (block i)) [0..<nat n] (st32 d 0 (of_int n))"

definition write_head :: "'a klog_scheme \<Rightarrow> 'a klog_scheme res" where
  "write_head s =
     (if lh_n s > int LOGSIZE then Err OutOfBounds
      else
        bindR (bread (log_dev s) (log_start s) s) (\<lambda>(bp, s).
        bindR (bwrite bp (upd_buf bp (\<lambda>bf. bf\<lparr>b_data := head_data (lh_n s) (lh_block s) (b_data bf)\<rparr>) s)) (brelse bp)))"

definition recover_from_log :: "'a klog_scheme \<Rightarrow> 'a klog_scheme res" where
  "recover_from_log s =
     bindR (read_head s) (\<lambda>s.
     bindR (install_trans s) (\<lambda>s.
       write_head (s\<lparr>lh_n := 0\<rparr>)))"

text \<open>\<open>sizeof(struct logheader)\<close> is 4 + 4 * LOGSIZE.\<close>

definition initlog :: "u32 \<Rightarrow> 'a klog_scheme \<Rightarrow> 'a klog_scheme res" where
  "initlog dev s =
     (if 4 + 4 * LOGSIZE \<ge> BSIZE then Err (Panic ''initlog: too big logheader'')
      else
        bindR (readsb dev s) (\<lambda>(sb, s).
          recover_from_log (s\<lparr>log_start := sb_logstart sb, log_size := sint (sb_nlog sb), log_dev := dev\<rparr>)))"

definition begin_op :: "'a klog_scheme \<Rightarrow> 'a klog_scheme res" where
  "begin_op s =
     (if committing s then Err (Sleep ChLog)
      else if lh_n s + (outstanding s + 1) * int MAXOPBLOCKS > int LOGSIZE then Err (Sleep ChLog)
      else Ok (s\<lparr>outstanding := outstanding s + 1\<rparr>))"

text \<open>One round of write_log: copy a cached block to the log.\<close>

definition log_block :: "nat \<Rightarrow> 'a klog_scheme \<Rightarrow> 'a klog_scheme res" where
  "log_block tail s =
     (if tail \<ge> LOGSIZE then Err OutOfBounds
      else
        bindR (bread (log_dev s) (log_start s + of_nat tail + 1) s) (\<lambda>(to, s).
        bindR (bread (log_dev s) (lh_block s tail) s) (\<lambda>(from, s).
        bindR (bwrite to (upd_buf to (\<lambda>bf. bf\<lparr>b_data := blit (b_data bf) 0 (b_data (bufs s from)) 0 BSIZE\<rparr>) s)) (\<lambda>s.
        bindR (brelse from s) (brelse to)))))"

definition write_log :: "'a klog_scheme \<Rightarrow> 'a klog_scheme res" where
  "write_log s = foldR log_block [0..<nat (lh_n s)] s"

definition commit :: "'a klog_scheme \<Rightarrow> 'a klog_scheme res" where
  "commit s =
     (if lh_n s > 0 then
        bindR (write_log s) (\<lambda>s.
        bindR (write_head s) (\<lambda>s.
        bindR (install_trans s) (\<lambda>s.
          write_head (s\<lparr>lh_n := 0\<rparr>))))
      else Ok s)"

definition end_op :: "'a klog_scheme \<Rightarrow> 'a klog_scheme res" where
  "end_op s =
     (let s = s\<lparr>outstanding := outstanding s - 1\<rparr>
      in if committing s then Err (Panic ''log.committing'')
         else if outstanding s = 0 then
           bindR (commit (s\<lparr>committing := True\<rparr>)) (\<lambda>s. Ok (wakeup ChLog (s\<lparr>committing := False\<rparr>)))
         else Ok (wakeup ChLog s))"

text \<open>The entry log_write uses: the block's own if it is logged already, the next free one otherwise.\<close>

definition log_index :: "u32 \<Rightarrow> 'a klog_scheme \<Rightarrow> nat" where
  "log_index bno s =
     (case List.find (\<lambda>i. lh_block s i = bno) [0..<nat (lh_n s)] of Some i \<Rightarrow> i | None \<Rightarrow> nat (lh_n s))"

definition log_write :: "nat \<Rightarrow> 'a klog_scheme \<Rightarrow> 'a klog_scheme res" where
  "log_write b s =
     (if lh_n s \<ge> int LOGSIZE \<or> lh_n s \<ge> log_size s - 1 then Err (Panic ''too big a transaction'')
      else if outstanding s < 1 then Err (Panic ''log_write outside of trans'')
      else
        let bno = b_blockno (bufs s b); i = log_index bno s;
            s = s\<lparr>lh_block := (lh_block s)(i := bno)\<rparr>;
            s = (if int i = lh_n s then s\<lparr>lh_n := lh_n s + 1\<rparr> else s)
        in Ok (upd_buf b (\<lambda>bf. bf\<lparr>b_flags := b_flags bf OR B_DIRTY\<rparr>) s))"

end
