(* ===== verification/Inode.thy ===== *)
theory Inode
  imports Log
begin

text \<open>
  The block and inode layers of fs.c: the allocation bit map, the inode table on disk and the cache of
  inodes in memory. \<open>struct inode *\<close> is an index into the cache; the callers that may pass a null
  pointer do so explicitly.
\<close>

unbundle bit_operations_syntax

abbreviation (input) NDIRECT :: nat where "NDIRECT \<equiv> 12"
abbreviation (input) NINDIRECT :: nat where "NINDIRECT \<equiv> 128"
abbreviation (input) MAXFILE :: nat where "MAXFILE \<equiv> NDIRECT + NINDIRECT"
abbreviation (input) DINODE :: nat where "DINODE \<equiv> 64"
abbreviation (input) IPB :: nat where "IPB \<equiv> 8"
abbreviation (input) BPB :: nat where "BPB \<equiv> BSIZE * 8"
abbreviation (input) DIRSIZ :: nat where "DIRSIZ \<equiv> 14"
abbreviation (input) ROOTINO :: u32 where "ROOTINO \<equiv> 1"
abbreviation (input) T_DIR :: u16 where "T_DIR \<equiv> 1"
abbreviation (input) T_FILE :: u16 where "T_FILE \<equiv> 2"
abbreviation (input) T_DEV :: u16 where "T_DEV \<equiv> 3"

section \<open>Data\<close>

record dinode =
  d_type :: u16
  d_major :: u16
  d_minor :: u16
  d_nlink :: u16
  d_size :: u32
  d_addrs :: "nat \<Rightarrow> u32"

record inode =
  i_dev :: u32
  i_inum :: u32
  i_ref :: int
  i_lock :: sleeplock
  i_valid :: bool
  i_type :: u16
  i_major :: u16
  i_minor :: u16
  i_nlink :: u16
  i_size :: u32
  i_addrs :: "nat \<Rightarrow> u32"

record fs = klog +
  sb :: superblock
  icache :: "nat \<Rightarrow> inode"

definition upd_inode :: "nat \<Rightarrow> (inode \<Rightarrow> inode) \<Rightarrow> 'a fs_scheme \<Rightarrow> 'a fs_scheme" where
  "upd_inode ip f s = s\<lparr>icache := (icache s)(ip := f (icache s ip))\<rparr>"

definition IBLOCK :: "u32 \<Rightarrow> superblock \<Rightarrow> u32" where
  "IBLOCK i x = i div of_nat IPB + sb_inodestart x"

definition BBLOCK :: "u32 \<Rightarrow> superblock \<Rightarrow> u32" where
  "BBLOCK b x = b div of_nat BPB + sb_bmapstart x"

text \<open>An inode on disk: 64 bytes, little endian, at offset \<open>p\<close> of its block.\<close>

definition ld_dinode :: "bytes \<Rightarrow> nat \<Rightarrow> dinode" where
  "ld_dinode b p = \<lparr>d_type = ld16 b p, d_major = ld16 b (p + 2), d_minor = ld16 b (p + 4), d_nlink = ld16 b (p + 6),
     d_size = ld32 b (p + 8), d_addrs = (\<lambda>i. ld32 b (p + 12 + 4 * i))\<rparr>"

definition st_dinode :: "bytes \<Rightarrow> nat \<Rightarrow> dinode \<Rightarrow> bytes" where
  "st_dinode b p d =
     fold (\<lambda>i b. st32 b (p + 12 + 4 * i) (d_addrs d i)) [0..<NDIRECT + 1]
       (st32 (st16 (st16 (st16 (st16 b p (d_type d)) (p + 2) (d_major d)) (p + 4) (d_minor d)) (p + 6) (d_nlink d))
         (p + 8) (d_size d))"

section \<open>Blocks\<close>

definition bzero :: "u32 \<Rightarrow> u32 \<Rightarrow> 'a klog_scheme \<Rightarrow> 'a klog_scheme res" where
  "bzero dev bno s =
     bindR (bread dev bno s) (\<lambda>(bp, s).
     bindR (log_write bp (upd_buf bp (\<lambda>bf. bf\<lparr>b_data := fill (b_data bf) 0 0 BSIZE\<rparr>) s)) (brelse bp))"

text \<open>The bit of a block in the bytes of its map block.\<close>

definition map_bit :: "bytes \<Rightarrow> nat \<Rightarrow> bool" where
  "map_bit d bi \<longleftrightarrow> d (bi div 8) AND push_bit (bi mod 8) 1 \<noteq> 0"

definition set_map_bit :: "nat \<Rightarrow> bytes \<Rightarrow> bytes" where
  "set_map_bit bi d = d(bi div 8 := d (bi div 8) OR push_bit (bi mod 8) 1)"

definition clear_map_bit :: "nat \<Rightarrow> bytes \<Rightarrow> bytes" where
  "clear_map_bit bi d = d(bi div 8 := d (bi div 8) AND NOT (push_bit (bi mod 8) 1))"

text \<open>The inner loop of balloc: the first free bit of a map block, for the blocks below \<open>sb.size\<close>.\<close>

definition free_bit :: "bytes \<Rightarrow> nat \<Rightarrow> nat \<Rightarrow> nat option" where
  "free_bit d b sz = List.find (\<lambda>bi. \<not> map_bit d bi) [0..<min BPB (sz - b)]"

primrec balloc_loop :: "u32 \<Rightarrow> nat list \<Rightarrow> 'a fs_scheme \<Rightarrow> (u32 \<times> 'a fs_scheme) res" where
  "balloc_loop dev [] s = Err (Panic ''balloc: out of blocks'')"
| "balloc_loop dev (b # bs) s =
     bindR (bread dev (BBLOCK (of_nat b) (sb s)) s) (\<lambda>(bp, s).
       case free_bit (b_data (bufs s bp)) b (unat (sb_size (sb s))) of
         Some bi \<Rightarrow>
           bindR (log_write bp (upd_buf bp (\<lambda>bf. bf\<lparr>b_data := set_map_bit bi (b_data bf)\<rparr>) s)) (\<lambda>s.
           bindR (brelse bp s) (\<lambda>s.
           bindR (bzero dev (of_nat (b + bi)) s) (\<lambda>s. Ok (of_nat (b + bi), s))))
       | None \<Rightarrow> bindR (brelse bp s) (balloc_loop dev bs))"

definition balloc :: "u32 \<Rightarrow> 'a fs_scheme \<Rightarrow> (u32 \<times> 'a fs_scheme) res" where
  "balloc dev s = balloc_loop dev (map (\<lambda>k. k * BPB) [0..<(unat (sb_size (sb s)) + BPB - 1) div BPB]) s"

definition bfree :: "u32 \<Rightarrow> u32 \<Rightarrow> 'a fs_scheme \<Rightarrow> 'a fs_scheme res" where
  "bfree dev b s =
     bindR (bread dev (BBLOCK b (sb s)) s) (\<lambda>(bp, s).
       let bi = unat b mod BPB
       in if \<not> map_bit (b_data (bufs s bp)) bi then Err (Panic ''freeing free block'')
          else bindR (log_write bp (upd_buf bp (\<lambda>bf. bf\<lparr>b_data := clear_map_bit bi (b_data bf)\<rparr>) s)) (brelse bp))"

section \<open>Inodes\<close>

definition iinit :: "u32 \<Rightarrow> 'a fs_scheme \<Rightarrow> 'a fs_scheme res" where
  "iinit dev s =
     (let s = s\<lparr>icache := (\<lambda>i. if i < NINODE then (icache s i)\<lparr>i_lock := initsleeplock\<rparr> else icache s i)\<rparr>
      in bindR (readsb dev s) (\<lambda>(b, s). Ok (s\<lparr>sb := b\<rparr>)))"

definition iget :: "u32 \<Rightarrow> u32 \<Rightarrow> 'a fs_scheme \<Rightarrow> (nat \<times> 'a fs_scheme) res" where
  "iget dev inum s =
     (case List.find (\<lambda>ip. i_ref (icache s ip) > 0 \<and> i_dev (icache s ip) = dev \<and> i_inum (icache s ip) = inum) [0..<NINODE] of
        Some ip \<Rightarrow> Ok (ip, upd_inode ip (\<lambda>i. i\<lparr>i_ref := i_ref i + 1\<rparr>) s)
      | None \<Rightarrow>
          (case List.find (\<lambda>ip. i_ref (icache s ip) = 0) [0..<NINODE] of
             None \<Rightarrow> Err (Panic ''iget: no inodes'')
           | Some ip \<Rightarrow> Ok (ip, upd_inode ip (\<lambda>i. i\<lparr>i_dev := dev, i_inum := inum, i_ref := 1, i_valid := False\<rparr>) s)))"

text \<open>The offset of an inode in its block.\<close>

definition dinode_off :: "u32 \<Rightarrow> nat" where
  "dinode_off inum = (unat inum mod IPB) * DINODE"

primrec ialloc_loop :: "u32 \<Rightarrow> u16 \<Rightarrow> nat list \<Rightarrow> 'a fs_scheme \<Rightarrow> (nat \<times> 'a fs_scheme) res" where
  "ialloc_loop dev type [] s = Err (Panic ''ialloc: no inodes'')"
| "ialloc_loop dev type (n # ns) s =
     (let inum = of_nat n :: u32; p = dinode_off inum
      in bindR (bread dev (IBLOCK inum (sb s)) s) (\<lambda>(bp, s).
           if ld16 (b_data (bufs s bp)) p = 0 then
             bindR (log_write bp (upd_buf bp (\<lambda>bf. bf\<lparr>b_data := st16 (fill (b_data bf) p 0 DINODE) p type\<rparr>) s)) (\<lambda>s.
             bindR (brelse bp s) (iget dev inum))
           else bindR (brelse bp s) (ialloc_loop dev type ns)))"

definition ialloc :: "u32 \<Rightarrow> u16 \<Rightarrow> 'a fs_scheme \<Rightarrow> (nat \<times> 'a fs_scheme) res" where
  "ialloc dev type s = ialloc_loop dev type [1..<unat (sb_ninodes (sb s))] s"

definition dinode_of :: "inode \<Rightarrow> dinode" where
  "dinode_of i = \<lparr>d_type = i_type i, d_major = i_major i, d_minor = i_minor i, d_nlink = i_nlink i,
     d_size = i_size i, d_addrs = i_addrs i\<rparr>"

definition iupdate :: "nat \<Rightarrow> 'a fs_scheme \<Rightarrow> 'a fs_scheme res" where
  "iupdate ip s =
     (let i = icache s ip
      in bindR (bread (i_dev i) (IBLOCK (i_inum i) (sb s)) s) (\<lambda>(bp, s).
         bindR (log_write bp (upd_buf bp
           (\<lambda>bf. bf\<lparr>b_data := st_dinode (b_data bf) (dinode_off (i_inum i)) (dinode_of i)\<rparr>) s)) (brelse bp)))"

definition idup :: "nat \<Rightarrow> 'a fs_scheme \<Rightarrow> nat \<times> 'a fs_scheme" where
  "idup ip s = (ip, upd_inode ip (\<lambda>i. i\<lparr>i_ref := i_ref i + 1\<rparr>) s)"

text \<open>The copy ilock makes of the inode on disk; the cache keeps the \<open>NDIRECT + 1\<close> addresses.\<close>

definition load_inode :: "dinode \<Rightarrow> inode \<Rightarrow> inode" where
  "load_inode d i = i\<lparr>i_type := d_type d, i_major := d_major d, i_minor := d_minor d, i_nlink := d_nlink d,
     i_size := d_size d, i_addrs := (\<lambda>k. if k < NDIRECT + 1 then d_addrs d k else i_addrs i k)\<rparr>"

definition ilock :: "nat \<Rightarrow> 'a fs_scheme \<Rightarrow> 'a fs_scheme res" where
  "ilock ip s =
     (if i_ref (icache s ip) < 1 then Err (Panic ''ilock'')
      else bindR (acquiresleep (ChInodeLock ip) (i_lock (icache s ip)) s) (\<lambda>lk.
        let s = upd_inode ip (\<lambda>i. i\<lparr>i_lock := lk\<rparr>) s; i = icache s ip
        in if i_valid i then Ok s
           else bindR (bread (i_dev i) (IBLOCK (i_inum i) (sb s)) s) (\<lambda>(bp, s).
             let d = ld_dinode (b_data (bufs s bp)) (dinode_off (i_inum i));
                 s = upd_inode ip (load_inode d) s
             in bindR (brelse bp s) (\<lambda>s.
                let s = upd_inode ip (\<lambda>i. i\<lparr>i_valid := True\<rparr>) s
                in if i_type (icache s ip) = 0 then Err (Panic ''ilock: no type'') else Ok s))))"

definition iunlock :: "nat \<Rightarrow> 'a fs_scheme \<Rightarrow> 'a fs_scheme res" where
  "iunlock ip s =
     bindR (holdingsleep (i_lock (icache s ip)) s) (\<lambda>h.
       if \<not> h \<or> i_ref (icache s ip) < 1 then Err (Panic ''iunlock'')
       else
         let (lk, s) = releasesleep (ChInodeLock ip) (i_lock (icache s ip)) s
         in Ok (upd_inode ip (\<lambda>i. i\<lparr>i_lock := lk\<rparr>) s))"

section \<open>Inode content\<close>

definition bmap :: "nat \<Rightarrow> u32 \<Rightarrow> 'a fs_scheme \<Rightarrow> (u32 \<times> 'a fs_scheme) res" where
  "bmap ip bn s =
     (if unat bn < NDIRECT then
        (if i_addrs (icache s ip) (unat bn) = 0 then
           bindR (balloc (i_dev (icache s ip)) s) (\<lambda>(addr, s).
             Ok (addr, upd_inode ip (\<lambda>i. i\<lparr>i_addrs := (i_addrs i)(unat bn := addr)\<rparr>) s))
         else Ok (i_addrs (icache s ip) (unat bn), s))
      else if unat bn - NDIRECT < NINDIRECT then
        bindR (if i_addrs (icache s ip) NDIRECT = 0 then
                 bindR (balloc (i_dev (icache s ip)) s) (\<lambda>(addr, s).
                   Ok (addr, upd_inode ip (\<lambda>i. i\<lparr>i_addrs := (i_addrs i)(NDIRECT := addr)\<rparr>) s))
               else Ok (i_addrs (icache s ip) NDIRECT, s)) (\<lambda>(ind, s).
        bindR (bread (i_dev (icache s ip)) ind s) (\<lambda>(bp, s).
          let k = 4 * (unat bn - NDIRECT); addr = ld32 (b_data (bufs s bp)) k
          in bindR (if addr = 0 then
                      bindR (balloc (i_dev (icache s ip)) s) (\<lambda>(addr, s).
                      bindR (log_write bp (upd_buf bp (\<lambda>bf. bf\<lparr>b_data := st32 (b_data bf) k addr\<rparr>) s)) (\<lambda>s. Ok (addr, s)))
                    else Ok (addr, s)) (\<lambda>(addr, s).
             bindR (brelse bp s) (\<lambda>s. Ok (addr, s)))))
      else Err (Panic ''bmap: out of range''))"

text \<open>The two loops of itrunc.\<close>

definition trunc_direct :: "nat \<Rightarrow> nat \<Rightarrow> 'a fs_scheme \<Rightarrow> 'a fs_scheme res" where
  "trunc_direct ip i s =
     (if i_addrs (icache s ip) i \<noteq> 0 then
        bindR (bfree (i_dev (icache s ip)) (i_addrs (icache s ip) i) s) (\<lambda>s.
          Ok (upd_inode ip (\<lambda>x. x\<lparr>i_addrs := (i_addrs x)(i := 0)\<rparr>) s))
      else Ok s)"

definition trunc_indirect :: "nat \<Rightarrow> nat \<Rightarrow> nat \<Rightarrow> 'a fs_scheme \<Rightarrow> 'a fs_scheme res" where
  "trunc_indirect ip bp j s =
     (let a = ld32 (b_data (bufs s bp)) (4 * j)
      in if a \<noteq> 0 then bfree (i_dev (icache s ip)) a s else Ok s)"

definition itrunc :: "nat \<Rightarrow> 'a fs_scheme \<Rightarrow> 'a fs_scheme res" where
  "itrunc ip s =
     bindR (foldR (trunc_direct ip) [0..<NDIRECT] s) (\<lambda>s.
     bindR (if i_addrs (icache s ip) NDIRECT \<noteq> 0 then
              bindR (bread (i_dev (icache s ip)) (i_addrs (icache s ip) NDIRECT) s) (\<lambda>(bp, s).
              bindR (foldR (trunc_indirect ip bp) [0..<NINDIRECT] s) (\<lambda>s.
              bindR (brelse bp s) (\<lambda>s.
              bindR (bfree (i_dev (icache s ip)) (i_addrs (icache s ip) NDIRECT) s) (\<lambda>s.
                Ok (upd_inode ip (\<lambda>i. i\<lparr>i_addrs := (i_addrs i)(NDIRECT := 0)\<rparr>) s)))))
            else Ok s) (\<lambda>s.
       iupdate ip (upd_inode ip (\<lambda>i. i\<lparr>i_size := 0\<rparr>) s)))"

definition iput :: "nat \<Rightarrow> 'a fs_scheme \<Rightarrow> 'a fs_scheme res" where
  "iput ip s =
     bindR (acquiresleep (ChInodeLock ip) (i_lock (icache s ip)) s) (\<lambda>lk.
     bindR (let s = upd_inode ip (\<lambda>i. i\<lparr>i_lock := lk\<rparr>) s
            in if i_valid (icache s ip) \<and> i_nlink (icache s ip) = 0 \<and> i_ref (icache s ip) = 1 then
                 bindR (itrunc ip s) (\<lambda>s.
                 bindR (iupdate ip (upd_inode ip (\<lambda>i. i\<lparr>i_type := 0\<rparr>) s)) (\<lambda>s.
                   Ok (upd_inode ip (\<lambda>i. i\<lparr>i_valid := False\<rparr>) s)))
               else Ok s) (\<lambda>s.
       let (lk, s) = releasesleep (ChInodeLock ip) (i_lock (icache s ip)) s
       in Ok (upd_inode ip (\<lambda>i. i\<lparr>i_lock := lk, i_ref := i_ref i - 1\<rparr>) s)))"

definition iunlockput :: "nat \<Rightarrow> 'a fs_scheme \<Rightarrow> 'a fs_scheme res" where
  "iunlockput ip s = bindR (iunlock ip s) (iput ip)"

record kstat =
  st_type :: u16
  st_dev :: u32
  st_ino :: u32
  st_nlink :: u16
  st_size :: u32

definition stati :: "nat \<Rightarrow> 'a fs_scheme \<Rightarrow> kstat" where
  "stati ip s = (let i = icache s ip in
     \<lparr>st_type = i_type i, st_dev = i_dev i, st_ino = i_inum i, st_nlink = i_nlink i, st_size = i_size i\<rparr>)"

end
