(* ===== verification/Format.thy ===== *)
theory Format
  imports CString
begin

text \<open>
  The two formatted printers: cprintf of console.c and printf of printf.c, as functions from a format and
  its arguments to the bytes they put out. An argument is a word or a string, whose pointer may be null;
  taking more arguments than were passed is an error.
\<close>

unbundle bit_operations_syntax

definition chr :: "char \<Rightarrow> u8" where
  "chr c = of_char c"

definition str :: "string \<Rightarrow> u8 list" where
  "str = map chr"

text \<open>A string literal in memory, with its terminator.\<close>

definition c_string :: "u8 list \<Rightarrow> bytes" where
  "c_string xs = (\<lambda>i. if i < length xs then xs ! i else 0)"

datatype arg = Word u32 | Str "u8 list option"

text \<open>The value a \<open>%d\<close> or \<open>%x\<close> sees: a pointer printed as a number is not given a value here.\<close>

fun word_arg :: "arg \<Rightarrow> u32 res" where
  "word_arg (Word w) = Ok w"
| "word_arg (Str p) = Err OutOfBounds"

fun str_arg :: "arg \<Rightarrow> u8 list res" where
  "str_arg (Str None) = Ok (str ''(null)'')"
| "str_arg (Str (Some xs)) = Ok xs"
| "str_arg (Word w) = (if w = 0 then Ok (str ''(null)'') else Err (BadAddr w))"

section \<open>Numbers\<close>

text \<open>The do-while loop of printint: the digits, the lowest first.\<close>

function digits_of :: "nat \<Rightarrow> nat \<Rightarrow> nat list" where
  "digits_of base x = x mod base # (if base < 2 \<or> x div base = 0 then [] else digits_of base (x div base))"
  by pat_completeness auto
termination
  by (relation "measure snd") (auto, metis div_less_dividend not_less less_2_cases_iff One_nat_def
      bot_nat_0.not_eq_extremum div_0 nat_neq_iff numeral_2_eq_2 Suc_lessI)

definition kdigits :: "u8 list" where "kdigits = str ''0123456789abcdef''"
definition udigits :: "u8 list" where "udigits = str ''0123456789ABCDEF''"

text \<open>console.c\<close>

definition printint :: "u32 \<Rightarrow> nat \<Rightarrow> bool \<Rightarrow> u8 list" where
  "printint xx base sg =
     (let neg = (sg \<and> xx <s 0); x = (if neg then - xx else xx);
          buf = map (\<lambda>d. kdigits ! d) (digits_of base (unat x));
          buf = (if neg then buf @ [chr CHR ''-''] else buf)
      in rev buf)"

text \<open>printf.c\<close>

definition uprintint :: "u32 \<Rightarrow> nat \<Rightarrow> bool \<Rightarrow> u8 list" where
  "uprintint xx base sg =
     (let (neg, x) = (if sg \<and> xx <s 0 then (True, - xx) else (False, xx));
          buf = map (\<lambda>d. udigits ! d) (digits_of base (unat x));
          buf = (if neg then buf @ [chr CHR ''-''] else buf)
      in rev buf)"

section \<open>Formats\<close>

text \<open>Taking the next argument.\<close>

definition next_arg :: "arg list \<Rightarrow> (arg \<times> arg list) res" where
  "next_arg as = (case as of [] \<Rightarrow> Err OutOfBounds | a # as \<Rightarrow> Ok (a, as))"

text \<open>cprintf, on the bytes of the format before its terminator.\<close>

fun cformat :: "u8 list \<Rightarrow> arg list \<Rightarrow> u8 list res" where
  "cformat [] as = Ok []"
| "cformat [c] as = Ok (if c \<noteq> chr CHR ''%'' then [c] else [])"
| "cformat (c # d # fmt) as =
     (if c \<noteq> chr CHR ''%'' then bindR (cformat (d # fmt) as) (\<lambda>r. Ok (c # r))
      else if d = chr CHR ''d'' then
        bindR (next_arg as) (\<lambda>(a, as). bindR (word_arg a) (\<lambda>w.
        bindR (cformat fmt as) (\<lambda>r. Ok (printint w 10 True @ r))))
      else if d = chr CHR ''x'' \<or> d = chr CHR ''p'' then
        bindR (next_arg as) (\<lambda>(a, as). bindR (word_arg a) (\<lambda>w.
        bindR (cformat fmt as) (\<lambda>r. Ok (printint w 16 False @ r))))
      else if d = chr CHR ''s'' then
        bindR (next_arg as) (\<lambda>(a, as). bindR (str_arg a) (\<lambda>xs.
        bindR (cformat fmt as) (\<lambda>r. Ok (xs @ r))))
      else if d = chr CHR ''%'' then bindR (cformat fmt as) (\<lambda>r. Ok (chr CHR ''%'' # r))
      else bindR (cformat fmt as) (\<lambda>r. Ok (chr CHR ''%'' # d # r)))"

text \<open>printf, with its state variable.\<close>

fun uformat :: "bool \<Rightarrow> u8 list \<Rightarrow> arg list \<Rightarrow> u8 list res" where
  "uformat st [] as = Ok []"
| "uformat False (c # fmt) as =
     (if c = chr CHR ''%'' then uformat True fmt as
      else bindR (uformat False fmt as) (\<lambda>r. Ok (c # r)))"
| "uformat True (c # fmt) as =
     (if c = chr CHR ''d'' then
        bindR (next_arg as) (\<lambda>(a, as). bindR (word_arg a) (\<lambda>w.
        bindR (uformat False fmt as) (\<lambda>r. Ok (uprintint w 10 True @ r))))
      else if c = chr CHR ''x'' \<or> c = chr CHR ''p'' then
        bindR (next_arg as) (\<lambda>(a, as). bindR (word_arg a) (\<lambda>w.
        bindR (uformat False fmt as) (\<lambda>r. Ok (uprintint w 16 False @ r))))
      else if c = chr CHR ''s'' then
        bindR (next_arg as) (\<lambda>(a, as). bindR (str_arg a) (\<lambda>xs.
        bindR (uformat False fmt as) (\<lambda>r. Ok (xs @ r))))
      else if c = chr CHR ''c'' then
        bindR (next_arg as) (\<lambda>(a, as). bindR (word_arg a) (\<lambda>w.
        bindR (uformat False fmt as) (\<lambda>r. Ok (ucast w # r))))
      else if c = chr CHR ''%'' then bindR (uformat False fmt as) (\<lambda>r. Ok (c # r))
      else bindR (uformat False fmt as) (\<lambda>r. Ok (chr CHR ''%'' # c # r)))"

section \<open>Numbers as text\<close>

declare digits_of.simps [simp del]

lemma digits_range: "1 < base \<Longrightarrow> d \<in> set (digits_of base x) \<Longrightarrow> d < base"
proof (induction base x rule: digits_of.induct)
  case (1 base x)
  then show ?case by (subst (asm) digits_of.simps) (auto split: if_splits)
qed

lemma digits_length:
  assumes "1 < base" "x < base ^ Suc k"
  shows "length (digits_of base x) \<le> Suc k"
  using assms
proof (induction k arbitrary: x)
  case 0
  then show ?case by (subst digits_of.simps) simp
next
  case (Suc k)
  have "x div base < base ^ Suc k" using Suc.prems by (simp add: div_less_iff_less_mult mult.commute)
  from Suc.IH [OF Suc.prems(1) this] show ?case by (subst digits_of.simps) simp
qed

lemma digits_value: "foldl (\<lambda>n d. n * 10 + of_nat d) 0 (rev (digits_of 10 x)) = (of_nat x :: u32)"
proof (induction "10 :: nat" x rule: digits_of.induct)
  case (1 x)
  show ?case
  proof (cases "x div 10 = 0")
    case True
    then show ?thesis by (subst digits_of.simps) (simp add: div_eq_0_iff)
  next
    case False
    have "of_nat (x div 10) * 10 + of_nat (x mod 10) = (of_nat (x div 10 * 10 + x mod 10) :: u32)"
      by (simp only: of_nat_add of_nat_mult of_nat_numeral)
    also have "\<dots> = of_nat x" by (simp only: div_mult_mod_eq)
    finally show ?thesis using 1 False by (subst digits_of.simps) simp
  qed
qed

lemma digit_char: "d < 10 \<Longrightarrow> udigits ! d = 48 + of_nat d \<and> kdigits ! d = 48 + of_nat d"
proof -
  assume "d < 10"
  then have "d \<in> {0, 1, 2, 3, 4, 5, 6, 7, 8, 9}" by auto
  then show ?thesis by (auto simp: udigits_def kdigits_def str_def chr_def of_char_def)
qed

lemma digit_byte: "d < 10 \<Longrightarrow> is_digit (48 + of_nat d) \<and> ucast (48 + of_nat d :: u8) - (48 :: u32) = of_nat d"
proof -
  assume "d < 10"
  then have "d \<in> {0, 1, 2, 3, 4, 5, 6, 7, 8, 9}" by auto
  then show ?thesis by (auto simp: is_digit_def)
qed

lemma atoi_digits:
  assumes "\<forall>d \<in> set ds. d < 10" "\<forall>i < length ds. m (p + i) = 48 + of_nat (ds ! i)" "\<not> is_digit (m (p + length ds))"
  shows "atoi_from m p n = Some (foldl (\<lambda>n d. n * 10 + of_nat d) n ds)"
  using assms
proof (induction ds arbitrary: p n)
  case Nil
  then show ?case by (subst atoi_from.simps) simp
next
  case (Cons d ds)
  have d: "d < 10" using Cons.prems(1) by simp
  have mp: "m p = 48 + of_nat d" using Cons.prems(2) by force
  have "m (p + 1 + i) = 48 + of_nat (ds ! i)" if "i < length ds" for i
    using that Cons.prems(2) by force
  moreover have "\<not> is_digit (m (p + 1 + length ds))" using Cons.prems(3) by simp
  ultimately have ih: "atoi_from m (p + 1) k = Some (foldl (\<lambda>n d. n * 10 + of_nat d) k ds)" for k
    using Cons.IH [of "p + 1" k] Cons.prems(1) by simp
  have k: "n * 10 + ucast (48 + of_nat d :: u8) - 48 = n * 10 + (of_nat d :: u32)"
    using digit_byte [OF d] by (metis add_diff_eq)
  have "atoi_from m p n = atoi_from m (p + 1) (n * 10 + ucast (m p) - 48)"
    using digit_byte [OF d] by (subst atoi_from.simps) (simp add: mp)
  also have "\<dots> = Some (foldl (\<lambda>n d. n * 10 + of_nat d) (n * 10 + of_nat d) ds)" unfolding mp k ih ..
  finally show ?case by simp
qed


lemma unat_bound: "unat (x :: u32) < 4294967296"
proof -
  have "unat x < 2 ^ LENGTH(32)" by (rule unsigned_less)
  then show ?thesis by simp
qed

text \<open>
  C31. The 16-byte buffer of printint is large enough: at most 11 characters in base ten and 8 in base
  sixteen are ever put into it.
\<close>

theorem printint_fits:
  "length (printint w 10 s) \<le> 11 \<and> length (printint w 16 False) \<le> 8 \<and>
   length (uprintint w 10 s) \<le> 11 \<and> length (uprintint w 16 False) \<le> 8"
proof -
  have "length (digits_of 10 (unat x)) \<le> Suc 9" "length (digits_of 16 (unat x)) \<le> Suc 7" for x :: u32
    using unat_bound [of x] by (intro digits_length; simp)+
  from this [of w] this [of "- w"] show ?thesis by (simp add: printint_def uprintint_def Let_def)
qed

end
