(* ===== verification/Kbd.thy ===== *)
theory Kbd
  imports Bytes
begin

text \<open>
  The keyboard driver of kbd.c with the translation tables of kbd.h. The controller is its queue of scan
  codes: a code is there when the status port says so.
\<close>

unbundle bit_operations_syntax

definition KSHIFT :: u32 where "KSHIFT = 1"
definition KCTL :: u32 where "KCTL = 2"
definition CAPSLOCK :: u32 where "CAPSLOCK = 8"
definition E0ESC :: u32 where "E0ESC = 64"

lemmas kbd_flag_defs = KSHIFT_def KCTL_def CAPSLOCK_def E0ESC_def

section \<open>Tables\<close>

definition shiftcode :: "nat \<Rightarrow> u8" where
  "shiftcode i =
     (if i = 0x1D then 2
      else if i = 0x2A then 1
      else if i = 0x36 then 1
      else if i = 0x38 then 4
      else if i = 0x9D then 2
      else if i = 0xB8 then 4
      else 0)"

definition togglecode :: "nat \<Rightarrow> u8" where
  "togglecode i =
     (if i = 0x3A then 8
      else if i = 0x45 then 0x10
      else if i = 0x46 then 0x20
      else 0)"

definition normalmap :: "nat \<Rightarrow> u8" where
  "normalmap i =
     (if i < 88 then
        [0, 27, 49, 50, 51, 52, 53, 54, 55, 56, 57, 48, 45, 61, 8, 9,
         113, 119, 101, 114, 116, 121, 117, 105, 111, 112, 91, 93, 10, 0, 97, 115,
         100, 102, 103, 104, 106, 107, 108, 59, 39, 96, 0, 92, 122, 120, 99, 118,
         98, 110, 109, 44, 46, 47, 0, 42, 0, 32, 0, 0, 0, 0, 0, 0,
         0, 0, 0, 0, 0, 0, 0, 55, 56, 57, 45, 52, 53, 54, 43, 49,
         50, 51, 48, 46, 0, 0, 0, 0] ! i
      else if i = 0x9C then 0xA
      else if i = 0xB5 then 0x2F
      else if i = 0xC8 then 0xE2
      else if i = 0xD0 then 0xE3
      else if i = 0xC9 then 0xE6
      else if i = 0xD1 then 0xE7
      else if i = 0xCB then 0xE4
      else if i = 0xCD then 0xE5
      else if i = 0x97 then 0xE0
      else if i = 0xCF then 0xE1
      else if i = 0xD2 then 0xE8
      else if i = 0xD3 then 0xE9
      else 0)"

definition shiftmap :: "nat \<Rightarrow> u8" where
  "shiftmap i =
     (if i < 88 then
        [0, 27, 33, 64, 35, 36, 37, 94, 38, 42, 40, 41, 95, 43, 8, 9,
         81, 87, 69, 82, 84, 89, 85, 73, 79, 80, 123, 125, 10, 0, 65, 83,
         68, 70, 71, 72, 74, 75, 76, 58, 34, 126, 0, 124, 90, 88, 67, 86,
         66, 78, 77, 60, 62, 63, 0, 42, 0, 32, 0, 0, 0, 0, 0, 0,
         0, 0, 0, 0, 0, 0, 0, 55, 56, 57, 45, 52, 53, 54, 43, 49,
         50, 51, 48, 46, 0, 0, 0, 0] ! i
      else if i = 0x9C then 0xA
      else if i = 0xB5 then 0x2F
      else if i = 0xC8 then 0xE2
      else if i = 0xD0 then 0xE3
      else if i = 0xC9 then 0xE6
      else if i = 0xD1 then 0xE7
      else if i = 0xCB then 0xE4
      else if i = 0xCD then 0xE5
      else if i = 0x97 then 0xE0
      else if i = 0xCF then 0xE1
      else if i = 0xD2 then 0xE8
      else if i = 0xD3 then 0xE9
      else 0)"

definition ctlmap :: "nat \<Rightarrow> u8" where
  "ctlmap i =
     (if i < 56 then
        [0, 0, 0, 0, 0, 0, 0, 0, 0, 0, 0, 0, 0, 0, 0, 0,
         17, 23, 5, 18, 20, 25, 21, 9, 15, 16, 0, 0, 13, 0, 1, 19,
         4, 6, 7, 8, 10, 11, 12, 0, 0, 0, 0, 28, 26, 24, 3, 22,
         2, 14, 13, 0, 0, 239, 0, 0] ! i
      else if i = 0x9C then 0xD
      else if i = 0xB5 then 0xEF
      else if i = 0xC8 then 0xE2
      else if i = 0xD0 then 0xE3
      else if i = 0xC9 then 0xE6
      else if i = 0xD1 then 0xE7
      else if i = 0xCB then 0xE4
      else if i = 0xCD then 0xE5
      else if i = 0x97 then 0xE0
      else if i = 0xCF then 0xE1
      else if i = 0xD2 then 0xE8
      else if i = 0xD3 then 0xE9
      else 0)"


section \<open>The driver\<close>

definition charcode :: "nat \<Rightarrow> nat \<Rightarrow> u8" where
  "charcode k = [normalmap, shiftmap, ctlmap, ctlmap] ! k"

text \<open>What kbdgetc makes of one scan code: the character, or 0, and the new shift state.\<close>

definition kbd_decode :: "u8 \<Rightarrow> u32 \<Rightarrow> int \<times> u32" where
  "kbd_decode code sh =
     (if code = 0xE0 then (0, sh OR E0ESC)
      else if code AND 0x80 \<noteq> 0 then
        let data = (if sh AND E0ESC \<noteq> 0 then code else code AND 0x7F)
        in (0, sh AND NOT (ucast (shiftcode (unat data)) OR E0ESC))
      else
        let (data, sh) = (if sh AND E0ESC \<noteq> 0 then (code OR 0x80, sh AND NOT E0ESC) else (code, sh));
            sh = sh OR ucast (shiftcode (unat data));
            sh = sh XOR ucast (togglecode (unat data));
            c = uint (charcode (unat (sh AND (KCTL OR KSHIFT))) (unat data));
            c = (if sh AND CAPSLOCK \<noteq> 0 then
                   (if 97 \<le> c \<and> c \<le> 122 then c - 32
                    else if 65 \<le> c \<and> c \<le> 90 then c + 32 else c)
                 else c)
        in (c, sh))"

definition kbdgetc :: "u8 list \<times> u32 \<Rightarrow> int \<times> u8 list \<times> u32" where
  "kbdgetc = (\<lambda>(q, sh). case q of
     [] \<Rightarrow> (-1, [], sh)
   | code # q \<Rightarrow> (let (c, sh) = kbd_decode code sh in (c, q, sh)))"

section \<open>Letters\<close>

definition is_lower :: "u8 \<Rightarrow> bool" where
  "is_lower c \<longleftrightarrow> 97 \<le> uint c \<and> uint c \<le> 122"

lemma letter_table:
  "list_all (\<lambda>i. is_lower (normalmap i) \<longrightarrow>
     shiftcode i = 0 \<and> togglecode i = 0 \<and> uint (shiftmap i) = uint (normalmap i) - 32 \<and>
     uint (ctlmap i) = uint (normalmap i) - 96) [0..<128]"
  by code_simp

lemma letter_keys:
  assumes "i < 128" "is_lower (normalmap i)"
  shows "shiftcode i = 0" "togglecode i = 0" "uint (shiftmap i) = uint (normalmap i) - 32"
    "uint (ctlmap i) = uint (normalmap i) - 96"
  using letter_table assms by (auto simp: list_all_iff)

lemma shift_index:
  "sh AND KCTL = 0 \<Longrightarrow> unat (sh AND (KCTL OR KSHIFT)) = (if sh AND KSHIFT = 0 then 0 else 1)"
  "sh AND KCTL \<noteq> 0 \<Longrightarrow> unat (sh AND (KCTL OR KSHIFT)) \<in> {2, 3}"
proof -
  have s: "sh AND KSHIFT = 0 \<or> sh AND KSHIFT = 1" by (auto simp: KSHIFT_def and_one_eq odd_iff_mod_2_eq_one)
  have "sh AND KCTL = 0 \<or> sh AND KCTL = 2"
  proof -
    have "sh AND 2 = (if bit sh 1 then 2 else 0)"
      by (rule bit_word_eqI) (auto simp: bit_and_iff bit_iff_odd [of "2 :: u32"] bit_2_iff)
    then show ?thesis by (simp add: KCTL_def)
  qed
  moreover have "sh AND (KCTL OR KSHIFT) = (sh AND KCTL) OR (sh AND KSHIFT)" by (simp add: bit.conj_disj_distrib)
  ultimately show "sh AND KCTL = 0 \<Longrightarrow> unat (sh AND (KCTL OR KSHIFT)) = (if sh AND KSHIFT = 0 then 0 else 1)"
    "sh AND KCTL \<noteq> 0 \<Longrightarrow> unat (sh AND (KCTL OR KSHIFT)) \<in> {2, 3}" using s by auto
qed

text \<open>
  C38. The code of a letter key that is pressed, with no E0 prefix before it, gives the letter's control
  character, 1 to 26, while control is held. Otherwise it gives the letter in upper case exactly when one of
  shift and caps lock is active, and in lower case when none or both are. The shift state stays as it is.
\<close>

theorem kbd_letters:
  assumes "unat code < 128" and "is_lower (normalmap (unat code))" and "sh AND E0ESC = 0"
  shows "kbd_decode code sh =
    ((if sh AND KCTL \<noteq> 0 then uint (normalmap (unat code)) - 96
      else if (sh AND KSHIFT \<noteq> 0) \<noteq> (sh AND CAPSLOCK \<noteq> 0) then uint (normalmap (unat code)) - 32
      else uint (normalmap (unat code))), sh)"
proof -
  have c: "code \<noteq> 0xE0" "code AND 0x80 = 0"
  proof -
    show "code \<noteq> 0xE0" using assms(1) by auto
    have "\<not> bit code 7"
    proof -
      have "unat code < 2 ^ 7" using assms(1) by simp
      then have "take_bit 7 (unat code) = unat code" by (simp add: take_bit_nat_eq_self)
      then have "\<not> bit (unat code) 7" by (metis bit_take_bit_iff less_irrefl)
      then show ?thesis by (auto simp: bit_unsigned_iff dest: bit_imp_le_length)
    qed
    moreover have "bit ((2 :: u8) ^ k) n \<longleftrightarrow> n = k" if "k < 8" for k n using that by (auto simp: bit_simps)
    ultimately have "\<not> bit (code AND 2 ^ 7) n" for n by (cases "n = 7") (simp_all add: bit_and_iff del: power_numeral)
    then have "code AND 2 ^ 7 = 0" by (intro bit_word_eqI) simp
    then show "code AND 0x80 = 0" by simp
  qed
  note k = letter_keys [OF assms(1,2)]
  have lo: "97 \<le> uint (normalmap (unat code))" "uint (normalmap (unat code)) \<le> 122" using assms(2) by (auto simp: is_lower_def)
  show ?thesis
  proof (cases "sh AND KCTL = 0")
    case True
    then show ?thesis using c assms(3) lo by (auto simp: kbd_decode_def k shift_index(1) charcode_def Let_def)
  next
    case False
    have "charcode (unat (sh AND (KCTL OR KSHIFT))) = ctlmap" using shift_index(2) [OF False] by (auto simp: charcode_def)
    then show ?thesis using False c assms(3) lo by (simp add: kbd_decode_def k Let_def)
  qed
qed

theorem kbd_letters_witness:
  "kbd_decode 0x1E (KSHIFT OR CAPSLOCK) = (97, KSHIFT OR CAPSLOCK) \<and> kbd_decode 0x1E CAPSLOCK = (65, CAPSLOCK) \<and>
   kbd_decode 0x1E (KCTL OR KSHIFT) = (1, KCTL OR KSHIFT)"
proof -
  have a: "unat (0x1E :: u8) < 128" and l: "is_lower (normalmap (unat (0x1E :: u8)))" and n: "normalmap 30 = 97"
    by (simp_all add: is_lower_def normalmap_def)
  have "(KSHIFT OR CAPSLOCK) AND E0ESC = 0" "CAPSLOCK AND E0ESC = 0" "(KCTL OR KSHIFT) AND E0ESC = 0"
    by (simp_all add: kbd_flag_defs)
  from kbd_letters [OF a l this(1)] kbd_letters [OF a l this(2)] kbd_letters [OF a l this(3)] n show ?thesis by (simp add: kbd_flag_defs)
qed

end
