(* ===== verification/Spinlock.thy ===== *)
theory Spinlock
  imports Kmem
begin

text \<open>
  Spin locks and interrupt nesting of spinlock.c, on a machine with any number of processors: a processor
  is an index, its interrupt flag and the nesting depth of pushcli are its state. The loop on xchg is a
  step relation of its own, since several processors may be in it at once.
\<close>

section \<open>Data\<close>

record cpu =
  ncli :: int
  intena :: bool
  if_flag :: bool

record spinlock =
  locked :: bool
  lk_cpu :: "nat option"
  lk_pcs :: "nat \<Rightarrow> u32"

definition initlock :: "spinlock \<Rightarrow> spinlock" where
  "initlock lk = lk\<lparr>locked := False, lk_cpu := None\<rparr>"

section \<open>Interrupts\<close>

definition pushcli :: "cpu \<Rightarrow> cpu" where
  "pushcli c =
     (let eflags = if_flag c; c = c\<lparr>if_flag := False\<rparr>;
          c = (if ncli c = 0 then c\<lparr>intena := eflags\<rparr> else c)
      in c\<lparr>ncli := ncli c + 1\<rparr>)"

definition popcli :: "cpu \<Rightarrow> cpu res" where
  "popcli c =
     (if if_flag c then Err (Panic ''popcli - interruptible'')
      else
        let c = c\<lparr>ncli := ncli c - 1\<rparr>
        in if ncli c < 0 then Err (Panic ''popcli'')
           else Ok (if ncli c = 0 \<and> intena c then c\<lparr>if_flag := True\<rparr> else c))"

section \<open>Locks\<close>

definition holding :: "nat \<Rightarrow> spinlock \<Rightarrow> cpu \<Rightarrow> (bool \<times> cpu) res" where
  "holding me lk c =
     (let c = pushcli c; r = (locked lk \<and> lk_cpu lk = Some me)
      in bindR (popcli c) (\<lambda>c. Ok (r, c)))"

text \<open>The chain of saved frame pointers, from the frame of the caller on; the tenth is the last.\<close>

primrec pcs_loop :: "nat \<Rightarrow> u32 \<Rightarrow> 'a vm_scheme \<Rightarrow> u32 list res" where
  "pcs_loop 0 ebp s = Ok []"
| "pcs_loop (Suc n) ebp s =
     (if ebp = 0 \<or> ebp < KERNBASE \<or> ebp = 0xFFFFFFFF then Ok (replicate (Suc n) 0)
      else bindR (kload (ebp + 4) s) (\<lambda>pc.
           bindR (kload ebp s) (\<lambda>ebp'.
           bindR (pcs_loop n ebp' s) (\<lambda>r. Ok (pc # r)))))"

definition getcallerpcs :: "u32 \<Rightarrow> 'a vm_scheme \<Rightarrow> u32 list res" where
  "getcallerpcs v s = pcs_loop 10 (v - 8) s"

text \<open>
  acquire up to its loop, one round of the loop, and the part after it; \<open>pcs\<close> is the call stack that is
  recorded for debugging.
\<close>

definition acquire_enter :: "nat \<Rightarrow> spinlock \<Rightarrow> cpu \<Rightarrow> cpu res" where
  "acquire_enter me lk c =
     bindR (holding me lk (pushcli c)) (\<lambda>(h, c).
       if h then Err (Panic ''acquire'') else Ok c)"

definition xchg_lock :: "spinlock \<Rightarrow> bool \<times> spinlock" where
  "xchg_lock lk = (locked lk, lk\<lparr>locked := True\<rparr>)"

definition acquire_done :: "nat \<Rightarrow> (nat \<Rightarrow> u32) \<Rightarrow> spinlock \<Rightarrow> spinlock" where
  "acquire_done me pcs lk = lk\<lparr>lk_cpu := Some me, lk_pcs := pcs\<rparr>"

definition release :: "nat \<Rightarrow> spinlock \<Rightarrow> cpu \<Rightarrow> (spinlock \<times> cpu) res" where
  "release me lk c =
     bindR (holding me lk c) (\<lambda>(h, c).
       if \<not> h then Err (Panic ''release'')
       else
         let lk = lk\<lparr>lk_pcs := (lk_pcs lk)(0 := 0), lk_cpu := None\<rparr>;
             lk = lk\<lparr>locked := False\<rparr>
         in bindR (popcli c) (\<lambda>c. Ok (lk, c)))"

text \<open>acquire on a lock that is free: what a single processor sees, where nobody else can hold it.\<close>

definition acquire :: "nat \<Rightarrow> (nat \<Rightarrow> u32) \<Rightarrow> spinlock \<Rightarrow> cpu \<Rightarrow> (spinlock \<times> cpu) res" where
  "acquire me pcs lk c =
     bindR (acquire_enter me lk c) (\<lambda>c.
       let (old, lk) = xchg_lock lk
       in if old then Err Hang else Ok (acquire_done me pcs lk, c))"

section \<open>Several processors on one lock\<close>

datatype where_is = Outside | Spinning | Gained | Inside

record smp =
  sm_lock :: spinlock
  sm_cpu :: "nat \<Rightarrow> cpu"
  sm_pc :: "nat \<Rightarrow> where_is"

text \<open>
  A processor enters acquire, spins, wins the exchange, records itself, and releases; the steps of
  different processors interleave freely.
\<close>

inductive smp_step :: "smp \<Rightarrow> smp \<Rightarrow> bool" where
  enter: "sm_pc s i = Outside \<Longrightarrow> acquire_enter i (sm_lock s) (sm_cpu s i) = Ok c
    \<Longrightarrow> smp_step s (s\<lparr>sm_cpu := (sm_cpu s)(i := c), sm_pc := (sm_pc s)(i := Spinning)\<rparr>)"
| spin: "sm_pc s i = Spinning \<Longrightarrow> xchg_lock (sm_lock s) = (True, lk)
    \<Longrightarrow> smp_step s (s\<lparr>sm_lock := lk\<rparr>)"
| gain: "sm_pc s i = Spinning \<Longrightarrow> xchg_lock (sm_lock s) = (False, lk)
    \<Longrightarrow> smp_step s (s\<lparr>sm_lock := lk, sm_pc := (sm_pc s)(i := Gained)\<rparr>)"
| mark: "sm_pc s i = Gained
    \<Longrightarrow> smp_step s (s\<lparr>sm_lock := acquire_done i pcs (sm_lock s), sm_pc := (sm_pc s)(i := Inside)\<rparr>)"
| leave: "sm_pc s i = Inside \<Longrightarrow> release i (sm_lock s) (sm_cpu s i) = Ok (lk, c)
    \<Longrightarrow> smp_step s (s\<lparr>sm_lock := lk, sm_cpu := (sm_cpu s)(i := c), sm_pc := (sm_pc s)(i := Outside)\<rparr>)"

inductive_cases smp_stepE: "smp_step s t"

inductive smp_reach :: "smp \<Rightarrow> smp \<Rightarrow> bool" where
  start: "smp_reach s s"
| more: "smp_reach s t \<Longrightarrow> smp_step t u \<Longrightarrow> smp_reach s u"

text \<open>
  Who holds the lock: nobody while it is free; otherwise one processor between its exchange and its
  release, the one recorded in the lock once it has recorded itself. Interrupts are off inside.
\<close>

definition smp_inv :: "smp \<Rightarrow> bool" where
  "smp_inv s \<longleftrightarrow>
     (\<forall>i j. sm_pc s i \<in> {Gained, Inside} \<and> sm_pc s j \<in> {Gained, Inside} \<longrightarrow> i = j) \<and>
     (locked (sm_lock s) \<longleftrightarrow> (\<exists>i. sm_pc s i \<in> {Gained, Inside})) \<and>
     (\<forall>i. sm_pc s i = Inside \<longrightarrow> lk_cpu (sm_lock s) = Some i) \<and>
     (\<forall>i. sm_pc s i \<noteq> Outside \<longrightarrow> 0 < ncli (sm_cpu s i) \<and> \<not> if_flag (sm_cpu s i)) \<and>
     (\<forall>i. 0 \<le> ncli (sm_cpu s i) \<and> (0 < ncli (sm_cpu s i) \<longrightarrow> \<not> if_flag (sm_cpu s i)))"

lemma pushcli_sel [simp]: "ncli (pushcli c) = ncli c + 1" "\<not> if_flag (pushcli c)"
  "intena (pushcli c) = (if ncli c = 0 then if_flag c else intena c)"
  by (simp_all add: pushcli_def Let_def)

lemma pop_push:
  assumes "0 \<le> ncli c" "0 < ncli c \<Longrightarrow> \<not> if_flag c"
  shows "popcli (pushcli c) = Ok (c\<lparr>intena := intena (pushcli c)\<rparr>)"
  using assms by (cases c) (auto simp: popcli_def pushcli_def Let_def)

lemma holding_spec:
  assumes "0 \<le> ncli c" "0 < ncli c \<Longrightarrow> \<not> if_flag c"
  shows "holding me lk c = Ok (locked lk \<and> lk_cpu lk = Some me, c\<lparr>intena := intena (pushcli c)\<rparr>)"
  using pop_push [OF assms] by (simp add: holding_def Let_def)

lemma enter_spec:
  assumes "0 \<le> ncli c" "0 < ncli c \<Longrightarrow> \<not> if_flag c" and ok: "acquire_enter me lk c = Ok c'"
  shows "ncli c' = ncli c + 1" "\<not> if_flag c'" "intena c' = (if ncli c = 0 then if_flag c else intena c)"
    "\<not> (locked lk \<and> lk_cpu lk = Some me)"
  using ok holding_spec [of "pushcli c" me lk] assms(1,2) by (auto simp: acquire_enter_def split: if_splits)

lemma release_spec:
  assumes "0 < ncli c" "\<not> if_flag c" and ok: "release me lk c = Ok (lk', c')"
  shows "ncli c' = ncli c - 1" "if_flag c' = (ncli c = 1 \<and> intena c)" "\<not> locked lk'" "lk_cpu lk' = None"
    "locked lk" "lk_cpu lk = Some me" "intena c' = intena c"
  using ok holding_spec [of c me lk] assms(1,2)
  by (auto simp: release_def popcli_def Let_def split: if_splits)

lemma smp_inv_step: "smp_step s t \<Longrightarrow> smp_inv s \<Longrightarrow> smp_inv t"
proof (induction rule: smp_step.induct)
  case (enter s i c)
  then have c: "ncli c = ncli (sm_cpu s i) + 1" "\<not> if_flag c"
    using enter_spec [of "sm_cpu s i" i "sm_lock s" c] by (auto simp: smp_inv_def)
  have "(\<exists>j. ((sm_pc s)(i := Spinning)) j \<in> {Gained, Inside}) = (\<exists>j. sm_pc s j \<in> {Gained, Inside})"
    using enter.hyps(1) by (metis (mono_tags) empty_iff fun_upd_apply insertE where_is.distinct(3,5,7,9))
  with enter c show ?case by (auto simp: smp_inv_def)
next
  case (spin s i lk)
  then show ?case by (auto simp: smp_inv_def xchg_lock_def)
next
  case (gain s i lk)
  then show ?case by (auto simp: smp_inv_def xchg_lock_def)
next
  case (mark s i pcs)
  then show ?case by (auto simp: smp_inv_def acquire_done_def)
next
  case (leave s i lk c)
  then have c: "ncli c = ncli (sm_cpu s i) - 1" "0 < ncli c \<longrightarrow> \<not> if_flag c" "\<not> locked lk"
    using release_spec [of "sm_cpu s i" i "sm_lock s" lk c] by (auto simp: smp_inv_def)
  with leave show ?case by (fastforce simp: smp_inv_def)
qed

lemma smp_inv_reach: "smp_reach s t \<Longrightarrow> smp_inv s \<Longrightarrow> smp_inv t"
  by (induction rule: smp_reach.induct) (auto intro: smp_inv_step)

section \<open>Mutual exclusion and progress\<close>

definition smp_start :: "smp \<Rightarrow> bool" where
  "smp_start s \<longleftrightarrow> (\<forall>i. sm_pc s i = Outside \<and> ncli (sm_cpu s i) = 0) \<and> \<not> locked (sm_lock s)"

lemma smp_start_inv: "smp_start s \<Longrightarrow> smp_inv s"
  by (simp add: smp_start_def smp_inv_def)

lemma smp_reach_trans: "smp_reach t u \<Longrightarrow> smp_reach s t \<Longrightarrow> smp_reach s u"
  by (induction rule: smp_reach.induct) (auto intro: smp_reach.more)

lemma smp_one: "smp_step s t \<Longrightarrow> smp_reach s t"
  by (rule smp_reach.more [OF smp_reach.start])

text \<open>The lock of a state becomes free, by the steps of its holder alone.\<close>

lemma release_ok:
  assumes "0 < ncli c" "\<not> if_flag c" "locked lk" "lk_cpu lk = Some me"
  shows "\<exists>lk' c'. release me lk c = Ok (lk', c')"
  using assms holding_spec [of c me lk] by (simp add: release_def popcli_def Let_def)

lemma unlock_reach:
  assumes inv: "smp_inv s" and sp: "sm_pc s i = Spinning"
  shows "\<exists>t. smp_reach s t \<and> sm_pc t i = Spinning \<and> \<not> locked (sm_lock t) \<and> smp_inv t"
proof (cases "locked (sm_lock s)")
  case True
  then obtain j where j: "sm_pc s j \<in> {Gained, Inside}" using inv unfolding smp_inv_def by blast
  then have ij: "i \<noteq> j" using sp by auto
  obtain t where t: "smp_reach s t" "sm_pc t j = Inside" "sm_pc t i = Spinning"
  proof (cases "sm_pc s j = Gained")
    case True
    let ?t = "s\<lparr>sm_lock := acquire_done j (\<lambda>_. 0) (sm_lock s), sm_pc := (sm_pc s)(j := Inside)\<rparr>"
    have "smp_step s ?t" by (rule smp_step.mark [OF True])
    then show thesis using sp ij by (intro that [of ?t] smp_one) simp_all
  next
    case False
    then show thesis using j sp by (intro that [of s] smp_reach.start) auto
  qed
  have it: "smp_inv t" using t(1) inv by (rule smp_inv_reach)
  then have "0 < ncli (sm_cpu t j)" "\<not> if_flag (sm_cpu t j)" "locked (sm_lock t)" "lk_cpu (sm_lock t) = Some j"
    using t(2) unfolding smp_inv_def by auto
  from release_ok [OF this] obtain lk c where rl: "release j (sm_lock t) (sm_cpu t j) = Ok (lk, c)" by blast
  let ?u = "t\<lparr>sm_lock := lk, sm_cpu := (sm_cpu t)(j := c), sm_pc := (sm_pc t)(j := Outside)\<rparr>"
  have st: "smp_step t ?u" using t(2) rl by (rule smp_step.leave)
  moreover have "\<not> locked lk" using release_spec(3) [OF _ _ rl] it t(2) unfolding smp_inv_def by auto
  ultimately show ?thesis
    using t ij smp_inv_step [OF st it] by (intro exI [of _ ?u]) (auto intro: smp_reach.more)
qed (use assms in \<open>auto intro: smp_reach.start\<close>)

text \<open>
  C4. On any number of processors that take and release a spin lock in any interleaving, at most one is
  between its exchange and its release, it is the one the lock names, and it runs with interrupts off.
\<close>

theorem mutual_exclusion:
  assumes "smp_start s" and "smp_reach s t" and "sm_pc t i = Inside"
  shows "(\<forall>j. sm_pc t j \<in> {Gained, Inside} \<longleftrightarrow> j = i) \<and> locked (sm_lock t) \<and> lk_cpu (sm_lock t) = Some i \<and>
    \<not> if_flag (sm_cpu t i)"
proof -
  have inv: "smp_inv t" using assms smp_start_inv smp_inv_reach by blast
  then have "locked (sm_lock t)" "lk_cpu (sm_lock t) = Some i" "\<not> if_flag (sm_cpu t i)"
    using assms(3) unfolding smp_inv_def by auto
  moreover have "sm_pc t j \<in> {Gained, Inside} \<longleftrightarrow> j = i" for j
    using inv assms(3) unfolding smp_inv_def by (metis insertCI)
  ultimately show ?thesis by blast
qed

definition smp0 :: smp where
  "smp0 = \<lparr>sm_lock = \<lparr>locked = False, lk_cpu = None, lk_pcs = \<lambda>_. 0\<rparr>,
     sm_cpu = (\<lambda>_. \<lparr>ncli = 0, intena = False, if_flag = True\<rparr>), sm_pc = (\<lambda>_. Outside)\<rparr>"

definition smp1 :: smp where
  "smp1 = smp0\<lparr>sm_cpu := (sm_cpu smp0)(3 := \<lparr>ncli = 1, intena = True, if_flag = False\<rparr>), sm_pc := (\<lambda>_. Outside)(3 := Spinning)\<rparr>"

definition smp2 :: smp where
  "smp2 = smp1\<lparr>sm_lock := \<lparr>locked = True, lk_cpu = None, lk_pcs = \<lambda>_. 0\<rparr>, sm_pc := (\<lambda>_. Outside)(3 := Gained)\<rparr>"

definition smp3 :: smp where
  "smp3 = smp2\<lparr>sm_lock := \<lparr>locked = True, lk_cpu = Some 3, lk_pcs = \<lambda>_. 0\<rparr>, sm_pc := (\<lambda>_. Outside)(3 := Inside)\<rparr>"

lemma smp_run: "smp_reach smp0 smp1" "smp_reach smp0 smp3"
proof -
  have "acquire_enter 3 (sm_lock smp0) (sm_cpu smp0 3) = Ok \<lparr>ncli = 1, intena = True, if_flag = False\<rparr>"
    by (simp add: acquire_enter_def holding_def pushcli_def popcli_def smp0_def Let_def)
  from smp_step.enter [OF _ this] have a: "smp_step smp0 smp1" by (simp add: smp0_def smp1_def)
  have "xchg_lock (sm_lock smp1) = (False, \<lparr>locked = True, lk_cpu = None, lk_pcs = \<lambda>_. 0\<rparr>)"
    by (simp add: xchg_lock_def smp1_def smp0_def)
  from smp_step.gain [OF _ this, of 3] have b: "smp_step smp1 smp2" by (simp add: smp1_def smp2_def)
  have "smp_step smp2 (smp2\<lparr>sm_lock := acquire_done 3 (\<lambda>_. 0) (sm_lock smp2), sm_pc := (sm_pc smp2)(3 := Inside)\<rparr>)"
    by (rule smp_step.mark) (simp add: smp2_def)
  then have c: "smp_step smp2 smp3" by (simp add: smp2_def smp3_def acquire_done_def)
  show "smp_reach smp0 smp1" by (rule smp_one [OF a])
  then show "smp_reach smp0 smp3" using b c by (blast intro: smp_reach.more)
qed

theorem mutual_exclusion_witness:
  "smp_start smp0 \<and> smp_reach smp0 smp3 \<and> lk_cpu (sm_lock smp3) = Some 3 \<and> sm_pc smp3 4 \<noteq> Inside"
proof -
  have s: "smp_start smp0" and i: "sm_pc smp3 3 = Inside" by (simp_all add: smp_start_def smp0_def smp3_def)
  note m = mutual_exclusion [OF s smp_run(2) i]
  have "(sm_pc smp3 4 \<in> {Gained, Inside}) = ((4::nat) = 3)" using m by blast
  then have "lk_cpu (sm_lock smp3) = Some 3" "sm_pc smp3 4 \<noteq> Inside" using m by auto
  then show ?thesis using s smp_run(2) by blast
qed

text \<open>
  C24. A processor that spins on a lock can always get it: from every reachable state there is a run in
  which the holder releases and the spinning processor enters.
\<close>

theorem spin_progress:
  assumes "smp_start s" and "smp_reach s t" and "sm_pc t i = Spinning"
  shows "\<exists>u. smp_reach t u \<and> sm_pc u i = Inside"
proof -
  have "smp_inv t" using assms smp_start_inv smp_inv_reach by blast
  from unlock_reach [OF this assms(3)] obtain u where u: "smp_reach t u" "sm_pc u i = Spinning" "\<not> locked (sm_lock u)" by blast
  let ?v = "u\<lparr>sm_lock := (sm_lock u)\<lparr>locked := True\<rparr>, sm_pc := (sm_pc u)(i := Gained)\<rparr>"
  have "xchg_lock (sm_lock u) = (False, (sm_lock u)\<lparr>locked := True\<rparr>)" using u(3) by (simp add: xchg_lock_def)
  from smp_step.gain [OF u(2) this] have "smp_reach t ?v" using u(1) by (blast intro: smp_reach.more)
  moreover define w where "w = ?v\<lparr>sm_lock := acquire_done i (\<lambda>_. 0) (sm_lock ?v), sm_pc := (sm_pc ?v)(i := Inside)\<rparr>"
  moreover have "smp_step ?v w" unfolding w_def by (rule smp_step.mark) simp
  moreover have "sm_pc w i = Inside" by (simp add: w_def)
  ultimately show ?thesis by (blast intro: smp_reach.more)
qed

theorem spin_progress_witness:
  "smp_start smp0 \<and> smp_reach smp0 smp1 \<and> (\<exists>u. smp_reach smp1 u \<and> sm_pc u 3 = Inside)"
proof -
  have s: "smp_start smp0" and i: "sm_pc smp1 3 = Spinning" by (simp_all add: smp_start_def smp0_def smp1_def)
  from spin_progress [OF s smp_run(1) i] show ?thesis using s smp_run(1) by blast
qed

text \<open>
  C25. A critical section gives the processor back as it found it: the nesting depth and the interrupt flag
  after acquire and release are those before, for a nested section too, and a lock that is already held
  makes the second acquire panic instead of spinning forever.
\<close>

theorem critical_section_restores:
  assumes "0 \<le> ncli c" and "0 < ncli c \<longrightarrow> \<not> if_flag c" and "\<not> locked lk"
  shows "\<exists>lk1 c1 lk2 c2. acquire me pcs lk c = Ok (lk1, c1) \<and> \<not> if_flag c1 \<and>
    acquire me pcs lk1 c1 = Err (Panic ''acquire'') \<and>
    release me lk1 c1 = Ok (lk2, c2) \<and> \<not> locked lk2 \<and> ncli c2 = ncli c \<and> if_flag c2 = if_flag c"
proof -
  let ?lk = "acquire_done me pcs (lk\<lparr>locked := True\<rparr>)" and ?c = "pushcli c"
  have a: "acquire me pcs lk c = Ok (?lk, ?c\<lparr>intena := intena (pushcli ?c)\<rparr>)"
    using assms holding_spec [of ?c me lk] by (simp add: acquire_def acquire_enter_def xchg_lock_def)
  let ?c1 = "?c\<lparr>intena := intena (pushcli ?c)\<rparr>"
  have "acquire me pcs ?lk ?c1 = Err (Panic ''acquire'')"
    using assms holding_spec [of "pushcli ?c1" me ?lk] by (simp add: acquire_def acquire_enter_def acquire_done_def)
  moreover from release_ok [of ?c1 ?lk me] assms obtain lk2 c2 where r: "release me ?lk ?c1 = Ok (lk2, c2)"
    by (auto simp: acquire_done_def)
  moreover have "ncli c2 = ncli c" "if_flag c2 = if_flag c" "\<not> locked lk2"
    using release_spec [OF _ _ r] assms by auto
  moreover have "\<not> if_flag ?c1" by simp
  ultimately show ?thesis using a by blast
qed

theorem critical_section_restores_witness:
  "\<exists>lk1 c1 lk2 c2. acquire 0 (\<lambda>_. 0) (sm_lock smp0) (sm_cpu smp0 0) = Ok (lk1, c1) \<and> \<not> if_flag c1 \<and>
    release 0 lk1 c1 = Ok (lk2, c2) \<and> if_flag c2"
proof -
  have "0 \<le> ncli (sm_cpu smp0 0)" "0 < ncli (sm_cpu smp0 0) \<longrightarrow> \<not> if_flag (sm_cpu smp0 0)" "\<not> locked (sm_lock smp0)"
    by (simp_all add: smp0_def)
  from critical_section_restores [OF this, of 0 "\<lambda>_. 0"] show ?thesis by (auto simp: smp0_def)
qed

end
