(* ===== verification/Console.thy ===== *)
theory Console
  imports Inode Format Kbd Spinlock
begin

text \<open>
  The console of console.c with the serial port of uart.c: output goes to the CGA screen, whose cursor
  the hardware keeps, and to the serial line; input is edited in a ring buffer that readers consume line
  by line. The devices are what their ports hold: characters that wait to be read, bytes that were sent.
\<close>

unbundle bit_operations_syntax

section \<open>Data\<close>

abbreviation (input) INPUT_BUF :: u32 where "INPUT_BUF \<equiv> 128"
abbreviation (input) BACKSPACE :: int where "BACKSPACE \<equiv> 0x100"
abbreviation (input) CONSOLE :: nat where "CONSOLE \<equiv> 1"

datatype devfn = ConsoleRead | ConsoleWrite

record console = fs +
  cons_locking :: bool
  panicked :: bool
  crt :: "nat \<Rightarrow> u16"
  crt_pos :: int
  uart :: bool
  serial :: "u8 list"
  uart_in :: "u8 list"
  kbd_in :: "u8 list"
  kbd_shift :: u32
  input_buf :: "nat \<Rightarrow> u8"
  input_r :: u32
  input_w :: u32
  input_e :: u32
  dev_read :: "nat \<Rightarrow> devfn option"
  dev_write :: "nat \<Rightarrow> devfn option"

section \<open>Output\<close>

definition uartputc :: "int \<Rightarrow> 'a console_scheme \<Rightarrow> 'a console_scheme" where
  "uartputc c s = (if uart s then s\<lparr>serial := serial s @ [of_int c]\<rparr> else s)"

text \<open>
  The screen as rows of 80 cells. A scroll moves the rows up by one and blanks from the cursor to the
  end of row 23.
\<close>

definition scroll :: "int \<Rightarrow> (nat \<Rightarrow> u16) \<Rightarrow> (nat \<Rightarrow> u16)" where
  "scroll pos m =
     (let m = (\<lambda>i. if i < 23 * 80 then m (i + 80) else m i)
      in (\<lambda>i. if nat pos \<le> i \<and> i < 24 * 80 then 0 else m i))"

definition cgaputc :: "int \<Rightarrow> 'a console_scheme \<Rightarrow> 'a console_scheme res" where
  "cgaputc c s =
     (let pos = crt_pos s;
          (pos, m) =
            (if c = 10 then (pos + (80 - pos mod 80), crt s)
             else if c = BACKSPACE then (if pos > 0 then pos - 1 else pos, crt s)
             else (pos + 1, (crt s)(nat pos := (of_int c AND 0xFF) OR 0x0700)))
      in if pos < 0 \<or> pos > 25 * 80 then Err (Panic ''pos under/overflow'')
         else
           let (pos, m) = (if pos div 80 \<ge> 24 then (pos - 80, scroll (pos - 80) m) else (pos, m))
           in Ok (s\<lparr>crt := m(nat pos := 0x20 OR 0x0700), crt_pos := pos\<rparr>))"

definition consputc :: "int \<Rightarrow> 'a console_scheme \<Rightarrow> 'a console_scheme res" where
  "consputc c s =
     (if panicked s then Err Hang
      else
        let s = (if c = BACKSPACE then uartputc 8 (uartputc 32 (uartputc 8 s)) else uartputc c s)
        in cgaputc c s)"

definition cputs :: "u8 list \<Rightarrow> 'a console_scheme \<Rightarrow> 'a console_scheme res" where
  "cputs xs s = foldR (\<lambda>c. consputc (uint c)) xs s"

definition cprintf :: "u8 list \<Rightarrow> arg list \<Rightarrow> 'a console_scheme \<Rightarrow> 'a console_scheme res" where
  "cprintf fmt as s = bindR (cformat fmt as) (\<lambda>out. cputs out s)"

text \<open>
  panic prints and stops the machine; \<open>cpu\<close> is the number of the processor, \<open>v\<close> the address of the
  argument, from which the call stack is read.
\<close>

definition panic :: "u32 \<Rightarrow> u32 \<Rightarrow> u8 list \<Rightarrow> 'a console_scheme \<Rightarrow> 'a console_scheme res" where
  "panic cpu v msg s =
     (let s = s\<lparr>cons_locking := False\<rparr>
      in bindR (cprintf (str ''lapicid %d: panic: '') [Word cpu] s) (\<lambda>s.
         bindR (cprintf msg [] s) (\<lambda>s.
         bindR (cprintf [10] [] s) (\<lambda>s.
         bindR (getcallerpcs v s) (\<lambda>pcs.
         bindR (foldR (\<lambda>pc. cprintf (str '' %p'') [Word pc]) pcs s) (\<lambda>s.
           Ok (s\<lparr>panicked := True\<rparr>)))))))"

text \<open>procdump: one line for every process, with the call stack of those that sleep.\<close>

definition dump_proc :: "nat \<Rightarrow> 'a console_scheme \<Rightarrow> 'a console_scheme res" where
  "dump_proc i s =
     (let p = ptable s i
      in if p_state p = UNUSED then Ok s
         else
           bindR (cprintf (str ''%d %s %s'') [Word (of_int (p_pid p)), Str (Some (str (state_name (p_state p)))),
             Str (Some (takeWhile (\<lambda>c. c \<noteq> 0) (bytes_of (p_name p) 0 16)))] s) (\<lambda>s.
           bindR (if p_state p = SLEEPING then
                    bindR (getcallerpcs (c_ebp (p_context p) + 8) s) (\<lambda>pcs.
                      foldR (\<lambda>pc. cprintf (str '' %p'') [Word pc]) (takeWhile (\<lambda>pc. pc \<noteq> 0) pcs) s)
                  else Ok s) (cprintf [10] [])))"

definition procdump :: "'a console_scheme \<Rightarrow> 'a console_scheme res" where
  "procdump s = foldR dump_proc [0..<NPROC] s"

section \<open>Input\<close>

text \<open>Control-x is the letter's code less that of the at sign.\<close>

definition ctl :: "char \<Rightarrow> int" where
  "ctl c = of_char c - of_char CHR ''@''"

definition at_buf :: "u32 \<Rightarrow> 'a console_scheme \<Rightarrow> u8" where
  "at_buf i s = input_buf s (unat (i mod INPUT_BUF))"

lemma uartputc_sel [simp]:
  "input_e (uartputc c s) = input_e s" "input_w (uartputc c s) = input_w s" "input_r (uartputc c s) = input_r s"
  "input_buf (uartputc c s) = input_buf s" "crt (uartputc c s) = crt s" "crt_pos (uartputc c s) = crt_pos s"
  "panicked (uartputc c s) = panicked s" "uart (uartputc c s) = uart s"
  by (simp_all add: uartputc_def)

lemma consputc_input:
  assumes "consputc c s = Ok s'"
  shows "input_e s' = input_e s" "input_w s' = input_w s" "input_r s' = input_r s" "input_buf s' = input_buf s"
  using assms by (auto simp: consputc_def cgaputc_def Let_def split: if_splits prod.splits)

text \<open>The loop that kills the line: back to the last newline, or to what readers may already take.\<close>

function kill_line :: "'a console_scheme \<Rightarrow> 'a console_scheme res" where
  "kill_line s =
     (if input_e s \<noteq> input_w s \<and> at_buf (input_e s - 1) s \<noteq> 10
      then bindR (consputc BACKSPACE (s\<lparr>input_e := input_e s - 1\<rparr>)) kill_line
      else Ok s)"
  by pat_completeness auto
termination
proof (relation "measure (\<lambda>s. unat (input_e s - input_w s))", goal_cases)
  case (2 s s')
  then have ne: "input_e s - input_w s \<noteq> 0" by simp
  have "input_e s' - input_w s' = (input_e s - input_w s) - 1" using consputc_input [OF 2(2)] by simp
  then show ?case using unat_minus_one [OF ne] ne by (simp add: unat_gt_0)
qed simp

text \<open>One character: the flag says that a process listing was asked for.\<close>

definition console_char :: "int \<Rightarrow> bool \<times> 'a console_scheme \<Rightarrow> (bool \<times> 'a console_scheme) res" where
  "console_char c = (\<lambda>(dump, s).
     if c = ctl CHR ''P'' then Ok (True, s)
     else if c = ctl CHR ''U'' then bindR (kill_line s) (\<lambda>s. Ok (dump, s))
     else if c = ctl CHR ''H'' \<or> c = 0x7F then
       (if input_e s \<noteq> input_w s
        then bindR (consputc BACKSPACE (s\<lparr>input_e := input_e s - 1\<rparr>)) (\<lambda>s. Ok (dump, s))
        else Ok (dump, s))
     else if c \<noteq> 0 \<and> input_e s - input_r s < INPUT_BUF then
       let c = (if c = 13 then 10 else c);
           s = s\<lparr>input_buf := (input_buf s)(unat (input_e s mod INPUT_BUF) := of_int c), input_e := input_e s + 1\<rparr>
       in bindR (consputc c s) (\<lambda>s.
            if c = 10 \<or> c = ctl CHR ''D'' \<or> input_e s = input_r s + INPUT_BUF
            then Ok (dump, wakeup ChInput (s\<lparr>input_w := input_e s\<rparr>))
            else Ok (dump, s))
     else Ok (dump, s))"

text \<open>The interrupt handler, on the characters that the device's getc returns before its -1.\<close>

definition consoleintr :: "int list \<Rightarrow> 'a console_scheme \<Rightarrow> 'a console_scheme res" where
  "consoleintr cs s =
     bindR (foldR console_char cs (False, s)) (\<lambda>(dump, s). if dump then procdump s else Ok s)"

definition uartintr :: "'a console_scheme \<Rightarrow> 'a console_scheme res" where
  "uartintr s = consoleintr (if uart s then map uint (uart_in s) else []) (if uart s then s\<lparr>uart_in := []\<rparr> else s)"

text \<open>All the scan codes that wait in the controller.\<close>

fun kbd_drain :: "u8 list \<Rightarrow> u32 \<Rightarrow> int list \<times> u32" where
  "kbd_drain [] sh = ([], sh)"
| "kbd_drain (code # q) sh =
     (let (c, sh) = kbd_decode code sh; (cs, sh) = kbd_drain q sh in (c # cs, sh))"

definition kbdintr :: "'a console_scheme \<Rightarrow> 'a console_scheme res" where
  "kbdintr s =
     (let (cs, sh) = kbd_drain (kbd_in s) (kbd_shift s)
      in consoleintr cs (s\<lparr>kbd_in := [], kbd_shift := sh\<rparr>))"

section \<open>Reading and writing\<close>

text \<open>
  The loop of consoleread: what was read so far and how much is still wanted, up to the point where it
  returns, finds the process killed, or has to sleep for more input.
\<close>

primrec cread_loop :: "nat \<Rightarrow> nat \<Rightarrow> bool \<Rightarrow> u8 list \<Rightarrow> 'a console_scheme \<Rightarrow> pause \<times> u8 list \<times> 'a console_scheme" where
  "cread_loop 0 target killed acc s = (Finished, acc, s)"
| "cread_loop (Suc n) target killed acc s =
     (if input_r s = input_w s then (if killed then Killed else Blocked, acc, s)
      else
        let c = at_buf (input_r s) s; s = s\<lparr>input_r := input_r s + 1\<rparr>
        in if int (unat c) = ctl CHR ''D'' then
             (Finished, acc, if Suc n < target then s\<lparr>input_r := input_r s - 1\<rparr> else s)
           else if c = 10 then (Finished, acc @ [c], s)
           else cread_loop n target killed (acc @ [c]) s)"

definition consoleread :: "nat \<Rightarrow> int \<Rightarrow> 'a console_scheme \<Rightarrow> (int \<times> u8 list \<times> 'a console_scheme) res" where
  "consoleread ip n s =
     bindR (iunlock ip s) (\<lambda>s.
     bindR (myproc s) (\<lambda>i.
       let (w, dst, s) = cread_loop (nat n) (nat n) (p_killed (ptable s i)) [] s
       in (case w of
             Blocked \<Rightarrow> Err (Sleep ChInput)
           | Killed \<Rightarrow> bindR (ilock ip s) (\<lambda>s. Ok (-1, dst, s))
           | Finished \<Rightarrow> bindR (ilock ip s) (\<lambda>s. Ok (int (length dst), dst, s)))))"

definition consolewrite :: "nat \<Rightarrow> u8 list \<Rightarrow> 'a console_scheme \<Rightarrow> (int \<times> 'a console_scheme) res" where
  "consolewrite ip buf s =
     bindR (iunlock ip s) (\<lambda>s.
     bindR (cputs buf s) (\<lambda>s.
     bindR (ilock ip s) (\<lambda>s. Ok (int (length buf), s))))"

definition consoleinit :: "'a console_scheme \<Rightarrow> 'a console_scheme" where
  "consoleinit s = s\<lparr>dev_write := (dev_write s)(CONSOLE := Some ConsoleWrite),
     dev_read := (dev_read s)(CONSOLE := Some ConsoleRead), cons_locking := True\<rparr>"

text \<open>The announcement of the serial port, when there is one; the ports it sets up are not state here.\<close>

definition uartinit :: "bool \<Rightarrow> 'a console_scheme \<Rightarrow> 'a console_scheme" where
  "uartinit present s =
     (if \<not> present then s
      else fold (\<lambda>c. uartputc (uint c)) (str ''xv6...'' @ [10]) (s\<lparr>uart := True, uart_in := drop 1 (uart_in s)\<rparr>))"

text \<open>A quiet machine with a console that nobody has used.\<close>

definition quiet_cons :: "(nat \<Rightarrow> proc) \<Rightarrow> (u32 \<Rightarrow> u32 \<Rightarrow> bytes) \<Rightarrow> 'a \<Rightarrow> 'a console_scheme" where
  "quiet_cons tab d rest = quiet_vm tab d
     \<lparr>log_start = 2, log_size = 30, outstanding = 0, committing = False, log_dev = ROOTDEV, lh_n = 0, lh_block = (\<lambda>_. 0),
      sb = sb_of (\<lambda>_. 0), icache = (\<lambda>_. \<lparr>i_dev = 0, i_inum = 0, i_ref = 0, i_lock = initsleeplock, i_valid = False,
        i_type = 0, i_major = 0, i_minor = 0, i_nlink = 0, i_size = 0, i_addrs = (\<lambda>_. 0)\<rparr>),
      cons_locking = True, panicked = False, crt = (\<lambda>_. 0), crt_pos = 0, uart = True, serial = [], uart_in = [],
      kbd_in = [], kbd_shift = 0, input_buf = (\<lambda>_. 0), input_r = 0, input_w = 0, input_e = 0,
      dev_read = (\<lambda>_. None), dev_write = (\<lambda>_. None), \<dots> = rest\<rparr>"

lemmas quiet_defs = quiet_cons_def quiet_vm_def quiet_ext_def

end
