(* ===== verification/Fs.thy ===== *)
theory Fs
  imports Console
begin

text \<open>
  Inode contents, directories and paths of fs.c. The buffer a read fills is returned as the bytes it
  received, for the caller to store; a path is the bytes of the string before its terminator; a path
  element is a buffer of \<open>DIRSIZ\<close> bytes.
\<close>

unbundle bit_operations_syntax

section \<open>Reading and writing inodes\<close>

text \<open>How much of the rest of a transfer lies in the block of offset \<open>off\<close>.\<close>

definition chunk :: "nat \<Rightarrow> nat \<Rightarrow> nat" where
  "chunk off left = min left (BSIZE - off mod BSIZE)"

lemma chunk_pos: "0 < left \<Longrightarrow> 0 < chunk off left" "chunk off left \<le> left"
  by (simp_all add: chunk_def)

function readi_loop :: "nat \<Rightarrow> nat \<Rightarrow> nat \<Rightarrow> u8 list \<Rightarrow> 'a console_scheme \<Rightarrow> (u8 list \<times> 'a console_scheme) res" where
  "readi_loop ip off left dst s =
     (if left = 0 then Ok (dst, s)
      else
        bindR (bmap ip (of_nat (off div BSIZE)) s) (\<lambda>(addr, s).
        bindR (bread (i_dev (icache s ip)) addr s) (\<lambda>(bp, s).
          let m = chunk off left; xs = bytes_of (b_data (bufs s bp)) (off mod BSIZE) m
          in bindR (brelse bp s) (\<lambda>s. readi_loop ip (off + chunk off left) (left - chunk off left) (dst @ xs) s))))"
  by pat_completeness auto
termination
  by (relation "measure (\<lambda>(ip, off, left, dst, s). left)") (auto simp: chunk_pos)

text \<open>The handler of a device inode, if its major number has one.\<close>

definition dev_handler :: "(nat \<Rightarrow> devfn option) \<Rightarrow> u16 \<Rightarrow> devfn option" where
  "dev_handler tab major = (if sint major < 0 \<or> sint major \<ge> int NDEV then None else tab (unat major))"

definition readi :: "nat \<Rightarrow> u32 \<Rightarrow> u32 \<Rightarrow> 'a console_scheme \<Rightarrow> (int \<times> u8 list \<times> 'a console_scheme) res" where
  "readi ip off n s =
     (let i = icache s ip
      in if i_type i = T_DEV then
           (case dev_handler (dev_read s) (i_major i) of
              None \<Rightarrow> Ok (-1, [], s)
            | Some _ \<Rightarrow> consoleread ip (sint n) s)
         else if off > i_size i \<or> off + n < off then Ok (-1, [], s)
         else
           let n = (if off + n > i_size i then i_size i - off else n)
           in bindR (readi_loop ip (unat off) (unat n) [] s) (\<lambda>(dst, s). Ok (sint n, dst, s)))"

function writei_loop :: "nat \<Rightarrow> nat \<Rightarrow> nat \<Rightarrow> u8 list \<Rightarrow> 'a console_scheme \<Rightarrow> 'a console_scheme res" where
  "writei_loop ip off left src s =
     (if left = 0 then Ok s
      else
        bindR (bmap ip (of_nat (off div BSIZE)) s) (\<lambda>(addr, s).
        bindR (bread (i_dev (icache s ip)) addr s) (\<lambda>(bp, s).
          let m = chunk off left
          in bindR (log_write bp (upd_buf bp (\<lambda>bf. bf\<lparr>b_data := put_bytes (b_data bf) (off mod BSIZE) (take m src)\<rparr>) s)) (\<lambda>s.
             bindR (brelse bp s) (\<lambda>s. writei_loop ip (off + chunk off left) (left - chunk off left) (drop (chunk off left) src) s)))))"
  by pat_completeness auto
termination
  by (relation "measure (\<lambda>(ip, off, left, src, s). left)") (auto simp: chunk_pos)

definition writei :: "nat \<Rightarrow> u8 list \<Rightarrow> u32 \<Rightarrow> u32 \<Rightarrow> 'a console_scheme \<Rightarrow> (int \<times> 'a console_scheme) res" where
  "writei ip src off n s =
     (let i = icache s ip
      in if i_type i = T_DEV then
           (case dev_handler (dev_write s) (i_major i) of
              None \<Rightarrow> Ok (-1, s)
            | Some _ \<Rightarrow> consolewrite ip (take (nat (sint n)) src) s)
         else if off > i_size i \<or> off + n < off then Ok (-1, s)
         else if unat (off + n) > MAXFILE * BSIZE then Ok (-1, s)
         else
           bindR (writei_loop ip (unat off) (unat n) src s) (\<lambda>s.
             if n > 0 \<and> off + n > i_size (icache s ip)
             then bindR (iupdate ip (upd_inode ip (\<lambda>i. i\<lparr>i_size := off + n\<rparr>) s)) (\<lambda>s. Ok (sint n, s))
             else Ok (sint n, s)))"

section \<open>Directories\<close>

abbreviation (input) DIRENT :: nat where "DIRENT \<equiv> 16"

text \<open>Two buffers in one memory, for the routines of string.c.\<close>

definition beside :: "bytes \<Rightarrow> bytes \<Rightarrow> bytes" where
  "beside a b = (\<lambda>i. if i < 64 then a i else b (i - 64))"

definition namecmp :: "bytes \<Rightarrow> bytes \<Rightarrow> int" where
  "namecmp s t = strncmp (beside s t) 0 64 DIRSIZ"

text \<open>The entry that a directory holds at an offset: its inode number and its name.\<close>

definition de_inum :: "u8 list \<Rightarrow> u16" where
  "de_inum xs = ld16 (\<lambda>i. xs ! i) 0"

definition de_name :: "u8 list \<Rightarrow> bytes" where
  "de_name xs = (\<lambda>i. xs ! (i + 2))"

definition read_dirent :: "string \<Rightarrow> nat \<Rightarrow> nat \<Rightarrow> 'a console_scheme \<Rightarrow> (u8 list \<times> 'a console_scheme) res" where
  "read_dirent msg dp off s =
     bindR (readi dp (of_nat off) (of_nat DIRENT) s) (\<lambda>(r, de, s).
       if r \<noteq> int DIRENT then Err (Panic msg) else Ok (de, s))"

text \<open>The offsets that the loops over a directory visit.\<close>

definition dir_offs :: "nat \<Rightarrow> nat list" where
  "dir_offs sz = map (\<lambda>k. k * DIRENT) [0..<(sz + DIRENT - 1) div DIRENT]"

primrec dirlookup_loop :: "nat \<Rightarrow> bytes \<Rightarrow> nat list \<Rightarrow> 'a console_scheme \<Rightarrow> ((nat \<times> nat) option \<times> 'a console_scheme) res" where
  "dirlookup_loop dp name [] s = Ok (None, s)"
| "dirlookup_loop dp name (off # offs) s =
     bindR (read_dirent ''dirlookup read'' dp off s) (\<lambda>(de, s).
       if de_inum de = 0 then dirlookup_loop dp name offs s
       else if namecmp name (de_name de) = 0 then
         bindR (iget (i_dev (icache s dp)) (ucast (de_inum de)) s) (\<lambda>(ip, s). Ok (Some (ip, off), s))
       else dirlookup_loop dp name offs s)"

text \<open>The inode and the offset of the entry, which the caller may ignore.\<close>

definition dirlookup :: "nat \<Rightarrow> bytes \<Rightarrow> 'a console_scheme \<Rightarrow> ((nat \<times> nat) option \<times> 'a console_scheme) res" where
  "dirlookup dp name s =
     (if i_type (icache s dp) \<noteq> T_DIR then Err (Panic ''dirlookup not DIR'')
      else dirlookup_loop dp name (dir_offs (unat (i_size (icache s dp)))) s)"

text \<open>The first empty entry, or the end of the directory.\<close>

primrec empty_dirent :: "nat \<Rightarrow> nat list \<Rightarrow> 'a console_scheme \<Rightarrow> (nat option \<times> 'a console_scheme) res" where
  "empty_dirent dp [] s = Ok (None, s)"
| "empty_dirent dp (off # offs) s =
     bindR (read_dirent ''dirlink read'' dp off s) (\<lambda>(de, s).
       if de_inum de = 0 then Ok (Some off, s) else empty_dirent dp offs s)"

text \<open>The entry written: the number's low half and the name, padded with NUL bytes.\<close>

definition new_dirent :: "bytes \<Rightarrow> u32 \<Rightarrow> u8 list" where
  "new_dirent name inum =
     (let nm = strncpy (beside (\<lambda>_. 0) name) 0 64 DIRSIZ
      in bytes_of (st16 (\<lambda>_. 0) 0 (ucast inum)) 0 2 @ bytes_of nm 0 DIRSIZ)"

definition dirlink :: "nat \<Rightarrow> bytes \<Rightarrow> u32 \<Rightarrow> 'a console_scheme \<Rightarrow> (int \<times> 'a console_scheme) res" where
  "dirlink dp name inum s =
     bindR (dirlookup dp name s) (\<lambda>(r, s).
       case r of
         Some (ip, _) \<Rightarrow> bindR (iput ip s) (\<lambda>s. Ok (-1, s))
       | None \<Rightarrow>
           let offs = dir_offs (unat (i_size (icache s dp)))
           in bindR (empty_dirent dp offs s) (\<lambda>(e, s).
              let off = (case e of Some off \<Rightarrow> off | None \<Rightarrow> length offs * DIRENT)
              in bindR (writei dp (new_dirent name inum) (of_nat off) (of_nat DIRENT) s) (\<lambda>(r, s).
                 if r \<noteq> int DIRENT then Err (Panic ''dirlink'') else Ok (0, s))))"

section \<open>Paths\<close>

definition slash :: u8 where "slash = chr CHR ''/''"

definition skipelem :: "u8 list \<Rightarrow> bytes \<Rightarrow> (u8 list \<times> bytes) option" where
  "skipelem path name =
     (let path = dropWhile (\<lambda>c. c = slash) path
      in if path = [] then None
         else
           let s = takeWhile (\<lambda>c. c \<noteq> slash) path; path = dropWhile (\<lambda>c. c \<noteq> slash) path; len = length s;
               name = (if len \<ge> DIRSIZ then put_bytes name 0 (take DIRSIZ s) else (put_bytes name 0 s)(len := 0))
           in Some (dropWhile (\<lambda>c. c = slash) path, name))"

lemma skipelem_shorter: "skipelem path name = Some (path', name') \<Longrightarrow> length path' < length path"
proof -
  assume sk: "skipelem path name = Some (path', name')"
  define p where "p = dropWhile (\<lambda>c. c = slash) path"
  have ne: "p \<noteq> []" and p': "path' = dropWhile (\<lambda>c. c = slash) (dropWhile (\<lambda>c. c \<noteq> slash) p)"
    using sk by (auto simp: skipelem_def Let_def p_def split: if_splits)
  have "hd p \<noteq> slash" using ne hd_dropWhile [of "\<lambda>c. c = slash" path] unfolding p_def by auto
  then have "length (dropWhile (\<lambda>c. c \<noteq> slash) p) < length p"
    using ne length_dropWhile_le [of _ "tl p"] by (cases p) (auto simp: less_Suc_eq_le)
  then have "length path' < length p"
    unfolding p' by (rule le_less_trans [OF length_dropWhile_le])
  then show ?thesis using length_dropWhile_le [of "\<lambda>c. c = slash" path] by (simp add: p_def)
qed

function namex_loop :: "bool \<Rightarrow> u8 list \<Rightarrow> bytes \<Rightarrow> nat \<Rightarrow> 'a console_scheme
    \<Rightarrow> (nat option \<times> bytes \<times> 'a console_scheme) res" where
  "namex_loop parent path name ip s =
     (case skipelem path name of
        None \<Rightarrow> if parent then bindR (iput ip s) (\<lambda>s. Ok (None, name, s)) else Ok (Some ip, name, s)
      | Some (path, name) \<Rightarrow>
          bindR (ilock ip s) (\<lambda>s.
            if i_type (icache s ip) \<noteq> T_DIR then bindR (iunlockput ip s) (\<lambda>s. Ok (None, name, s))
            else if parent \<and> path = [] then bindR (iunlock ip s) (\<lambda>s. Ok (Some ip, name, s))
            else
              bindR (dirlookup ip name s) (\<lambda>(r, s).
                case r of
                  None \<Rightarrow> bindR (iunlockput ip s) (\<lambda>s. Ok (None, name, s))
                | Some (next, _) \<Rightarrow> bindR (iunlockput ip s) (\<lambda>s. namex_loop parent path name next s))))"
  by pat_completeness auto
termination
  by (relation "measure (\<lambda>(parent, path, name, ip, s). length path)") (auto dest: skipelem_shorter)

definition namex :: "u8 list \<Rightarrow> bool \<Rightarrow> bytes \<Rightarrow> 'a console_scheme \<Rightarrow> (nat option \<times> bytes \<times> 'a console_scheme) res" where
  "namex path parent name s =
     bindR (if path \<noteq> [] \<and> hd path = slash then iget ROOTDEV ROOTINO s
            else bindR (myproc s) (\<lambda>i.
              case p_cwd (ptable s i) of None \<Rightarrow> Err (BadAddr 0) | Some d \<Rightarrow> Ok (idup d s))) (\<lambda>(ip, s).
       namex_loop parent path name ip s)"

definition namei :: "u8 list \<Rightarrow> 'a console_scheme \<Rightarrow> (nat option \<times> 'a console_scheme) res" where
  "namei path s = bindR (namex path False (\<lambda>_. 0) s) (\<lambda>(ip, name, s). Ok (ip, s))"

definition nameiparent :: "u8 list \<Rightarrow> bytes \<Rightarrow> 'a console_scheme \<Rightarrow> (nat option \<times> bytes \<times> 'a console_scheme) res" where
  "nameiparent path name s = namex path True name s"

end
