(* ===== verification/Ring.thy ===== *)
theory Ring
  imports Prelude
begin

text \<open>
  Ring buffers with free-running 32-bit indices, as pipes and the console's input use them: the slot of an
  index is the index modulo the size, the number of elements is the difference of the indices, both
  modulo \<open>2 ^ 32\<close>. The content is a list, the oldest element first.
\<close>

definition ring_q :: "nat \<Rightarrow> (nat \<Rightarrow> 'a) \<Rightarrow> u32 \<Rightarrow> u32 \<Rightarrow> 'a list" where
  "ring_q n d r w = map (\<lambda>i. d (unat (r + of_nat i) mod n)) [0..<unat (w - r)]"

lemma ring_q_length [simp]: "length (ring_q n d r w) = unat (w - r)"
  by (simp add: ring_q_def)

lemma unat_less_size: "unat (w :: u32) < 2 ^ 32"
  using unsigned_less [of w] by simp

lemma ring_q_empty [simp]: "ring_q n d r r = []"
  by (simp add: ring_q_def)

lemma ring_q_Nil_iff: "ring_q n d r w = [] \<longleftrightarrow> w = r"
  by (simp add: ring_q_def unat_eq_0)

text \<open>Splitting the content at an index in between, and taking the newest element off.\<close>

lemma ring_q_split:
  assumes "unat (w - r) \<le> unat (e - r)"
  shows "ring_q n d r e = ring_q n d r w @ ring_q n d w e"
proof -
  have "unat (e - w) = unat ((e - r) - (w - r))" by simp
  also have "\<dots> = unat (e - r) - unat (w - r)" using assms by (intro unat_sub) (simp add: word_le_nat_alt)
  finally have l: "unat (e - w) = unat (e - r) - unat (w - r)" .
  have "[0..<unat (e - r)] = [0..<unat (w - r)] @ map (\<lambda>i. i + unat (w - r)) [0..<unat (e - w)]"
    using assms upt_add_eq_append [of 0 "unat (w - r)" "unat (e - r) - unat (w - r)"] by (simp add: map_add_upt l)
  moreover have "r + of_nat (i + unat (w - r)) = w + of_nat i" for i by (simp add: algebra_simps)
  ultimately show ?thesis by (simp add: ring_q_def ac_simps)
qed

lemma ring_count_pred: "e \<noteq> w \<Longrightarrow> unat (e - w) = Suc (unat (e - 1 - w))"
proof -
  assume "e \<noteq> w"
  then have ne: "e - w \<noteq> 0" by simp
  have e: "e - 1 - w = e - w - 1" by simp
  show ?thesis unfolding e using unat_minus_one [OF ne] ne unat_gt_0 [of "e - w"] by simp
qed

lemma ring_q_pred:
  assumes "e \<noteq> w"
  shows "ring_q n d w e = ring_q n d w (e - 1) @ [d (unat (e - 1) mod n)]"
proof -
  have "w + of_nat (unat (e - 1 - w)) = e - 1" by simp
  then show ?thesis using ring_count_pred [OF assms] by (simp add: ring_q_def)
qed

locale ring =
  fixes N :: nat
  assumes pos: "0 < N" and wraps: "N dvd 2 ^ 32" and small: "N < 2 ^ 32"
begin

text \<open>Indices less than \<open>N\<close> apart have different slots, across the wrap-around of the counters too.\<close>

lemma slots_differ:
  assumes "i < j" "j \<le> i + (N - 1)" "j < 2 ^ 32"
  shows "unat (r + of_nat i :: u32) mod N \<noteq> unat (r + of_nat j :: u32) mod N"
proof
  assume eq: "unat (r + of_nat i :: u32) mod N = unat (r + of_nat j :: u32) mod N"
  have *: "unat (r + of_nat k :: u32) mod N = (unat r + k) mod N" if "k < 2 ^ 32" for k
    using that wraps by (simp add: unat_word_ariths unat_of_nat take_bit_nat_eq_self mod_mod_cancel)
  have "(unat r + i) mod N = (unat r + j) mod N" using eq * [of i] * [of j] assms by simp
  then have "N dvd (unat r + j) - (unat r + i)" by (metis mod_eq_dvd_iff_nat nat_add_left_cancel_le assms(1) less_imp_le)
  then have "N dvd j - i" by simp
  then show False using assms pos by (auto dest: dvd_imp_le)
qed

lemma push:
  assumes "unat (w - r) < N"
  shows "ring_q N (d(unat w mod N := c)) r (w + 1) = ring_q N d r w @ [c]"
proof -
  let ?k = "unat (w - r)"
  have k: "unat (w + 1 - r) = Suc ?k"
  proof -
    have "w - r + 1 \<noteq> 0"
    proof
      assume "w - r + 1 = 0"
      then have "w - r = - 1" by (simp add: add_eq_0_iff2)
      then have "?k = unat (- 1 :: u32)" by simp
      then have "?k = 2 ^ 32 - 1" by (simp add: unsigned_minus_1_eq_mask mask_eq_exp_minus_1)
      then show False using assms small by simp
    qed
    then have "unat (1 + (w - r)) = Suc ?k" by (intro unatSuc) (simp add: add.commute)
    moreover have "w + 1 - r = 1 + (w - r)" by simp
    ultimately show ?thesis by (simp only:)
  qed
  have wk: "r + of_nat ?k = w" by simp
  have ne: "unat (r + of_nat i) mod N \<noteq> unat w mod N" if "i < ?k" for i
    using slots_differ [of i ?k r] that assms unat_less_size unfolding wk by simp
  show ?thesis using ne by (simp add: ring_q_def k wk)
qed

lemma pop:
  assumes "r \<noteq> w"
  shows "ring_q N d r w = d (unat r mod N) # ring_q N d (r + 1) w"
proof -
  have ne: "w - r \<noteq> 0" using assms by simp
  have e: "w - (r + 1) = w - r - 1" by simp
  have k: "unat (w - r) = Suc (unat (w - (r + 1)))"
    unfolding e using unat_minus_one [OF ne] ne unat_gt_0 [of "w - r"] by simp
  have "[0..<Suc n] = 0 # map Suc [0..<n]" for n by (simp add: map_Suc_upt upt_conv_Cons)
  then show ?thesis by (simp add: ring_q_def k ac_simps del: upt_Suc)
qed

lemma keep:
  assumes "unat (e - r) < N" "unat (w - r) \<le> unat (e - r)"
  shows "ring_q N (d(unat e mod N := c)) r w = ring_q N d r w"
proof -
  have ek: "r + of_nat (unat (e - r)) = e" by simp
  have "unat (r + of_nat i) mod N \<noteq> unat e mod N" if "i < unat (w - r)" for i
    using slots_differ [of i "unat (e - r)" r] that assms unat_less_size [of "e - r"] unfolding ek by simp
  then show ?thesis by (simp add: ring_q_def)
qed

end

end
