(* ===== verification/Pipe.thy ===== *)
theory Pipe
  imports Ring
begin

text \<open>
  The loops of pipe.c over one pipe: a ring of \<open>PIPESIZE\<close> bytes. A loop runs until it is done, finds that
  it must give up, or has to sleep; the sleeper starts again with the bytes it still has to move.
\<close>

abbreviation (input) PIPESIZE :: nat where "PIPESIZE \<equiv> 512"

record pipe =
  pi_data :: "nat \<Rightarrow> u8"
  nread :: u32
  nwrite :: u32
  readopen :: bool
  writeopen :: bool

section \<open>Operations\<close>

text \<open>pipealloc's initialisation of the page it got.\<close>

definition init_pipe :: "pipe \<Rightarrow> pipe" where
  "init_pipe p = p\<lparr>readopen := True, writeopen := True, nwrite := 0, nread := 0\<rparr>"

text \<open>The loop of pipewrite: the bytes that are not written yet come back with the pipe.\<close>

primrec pipewrite_loop :: "bool \<Rightarrow> u8 list \<Rightarrow> pipe \<Rightarrow> pause \<times> u8 list \<times> pipe" where
  "pipewrite_loop killed [] p = (Finished, [], p)"
| "pipewrite_loop killed (c # cs) p =
     (if nwrite p = nread p + of_nat PIPESIZE then
        (if \<not> readopen p \<or> killed then (Killed, c # cs, p) else (Blocked, c # cs, p))
      else pipewrite_loop killed cs
        (p\<lparr>pi_data := (pi_data p)(unat (nwrite p mod of_nat PIPESIZE) := c), nwrite := nwrite p + 1\<rparr>))"

text \<open>The copying loop of piperead, for at most \<open>n\<close> bytes.\<close>

primrec piperead_loop :: "nat \<Rightarrow> pipe \<Rightarrow> u8 list \<times> pipe" where
  "piperead_loop 0 p = ([], p)"
| "piperead_loop (Suc n) p =
     (if nread p = nwrite p then ([], p)
      else
        let c = pi_data p (unat (nread p mod of_nat PIPESIZE));
            (cs, p) = piperead_loop n (p\<lparr>nread := nread p + 1\<rparr>)
        in (c # cs, p))"

text \<open>piperead as a whole: it waits while the pipe is empty and a writer may still come.\<close>

definition piperead_try :: "bool \<Rightarrow> nat \<Rightarrow> pipe \<Rightarrow> pause \<times> u8 list \<times> pipe" where
  "piperead_try killed n p =
     (if nread p = nwrite p \<and> writeopen p then (if killed then Killed else Blocked, [], p)
      else let (cs, p) = piperead_loop n p in (Finished, cs, p))"

section \<open>The queue\<close>

interpretation pring: ring PIPESIZE
  by unfold_locales simp_all

definition pipe_q :: "pipe \<Rightarrow> u8 list" where
  "pipe_q p = ring_q PIPESIZE (pi_data p) (nread p) (nwrite p)"

definition pipe_ok :: "pipe \<Rightarrow> bool" where
  "pipe_ok p \<longleftrightarrow> unat (nwrite p - nread p) \<le> PIPESIZE"

lemma mod_PIPESIZE: "unat (x mod of_nat PIPESIZE :: u32) = unat x mod PIPESIZE"
  by (simp add: unat_mod)

lemma full_iff: "pipe_ok p \<Longrightarrow> nwrite p = nread p + of_nat PIPESIZE \<longleftrightarrow> unat (nwrite p - nread p) = PIPESIZE"
proof
  assume "unat (nwrite p - nread p) = PIPESIZE"
  then have "nwrite p - nread p = of_nat PIPESIZE" by (simp add: word_unat_eq_iff)
  then show "nwrite p = nread p + of_nat PIPESIZE" by (simp add: diff_eq_eq add.commute)
qed simp

lemma Suc_count:
  assumes "unat (w - r :: u32) < 512"
  shows "unat (w + 1 - r) = Suc (unat (w - r))"
  using arg_cong [OF pring.push [OF assms, of "\<lambda>_. 0 :: nat"], of length] by simp

text \<open>A burst of writing appends a prefix of the message; it stops early only when the pipe is full.\<close>

lemma write_burst:
  assumes "pipe_ok p" "pipewrite_loop killed cs p = (w, rest, p')"
  shows "pipe_ok p' \<and> pipe_q p' @ rest = pipe_q p @ cs \<and> readopen p' = readopen p \<and> writeopen p' = writeopen p \<and>
    (w = Finished \<longleftrightarrow> rest = []) \<and> (w \<noteq> Finished \<longrightarrow> length (pipe_q p') = PIPESIZE) \<and>
    (w = Killed \<longleftrightarrow> rest \<noteq> [] \<and> (killed \<or> \<not> readopen p))"
  using assms
proof (induction cs arbitrary: p)
  case (Cons c cs)
  show ?case
  proof (cases "nwrite p = nread p + of_nat PIPESIZE")
    case True
    then have "unat (nwrite p - nread p) = PIPESIZE" by simp
    then show ?thesis using Cons.prems True by (auto simp: pipe_q_def split: if_splits)
  next
    case False
    let ?p = "p\<lparr>pi_data := (pi_data p)(unat (nwrite p mod of_nat PIPESIZE) := c), nwrite := nwrite p + 1\<rparr>"
    have lt: "unat (nwrite p - nread p) < PIPESIZE"
      using False full_iff [OF Cons.prems(1)] Cons.prems(1) by (simp add: pipe_ok_def)
    have "pipe_ok ?p" using Suc_count [OF lt] lt by (simp add: pipe_ok_def)
    moreover have "pipe_q ?p = pipe_q p @ [c]"
      using pring.push [OF lt] by (simp add: pipe_q_def unat_mod)
    moreover have "pipewrite_loop killed cs ?p = (w, rest, p')" using Cons.prems(2) False by simp
    ultimately show ?thesis using Cons.IH [of ?p] by auto
  qed
qed (auto simp: pipe_q_def)

lemma read_burst:
  assumes "piperead_loop n p = (cs, p')"
  shows "pipe_q p = cs @ pipe_q p' \<and> (pipe_ok p \<longrightarrow> pipe_ok p') \<and> length cs = min n (length (pipe_q p)) \<and>
    readopen p' = readopen p \<and> writeopen p' = writeopen p"
  using assms
proof (induction n arbitrary: p cs)
  case (Suc n)
  show ?case
  proof (cases "nread p = nwrite p")
    case True
    then show ?thesis using Suc.prems by (auto simp: pipe_q_def)
  next
    case False
    let ?p = "p\<lparr>nread := nread p + 1\<rparr>"
    obtain ds q where ds: "piperead_loop n ?p = (ds, q)" by fastforce
    then have cs: "cs = pi_data p (unat (nread p) mod PIPESIZE) # ds" "q = p'"
      using Suc.prems False by (auto simp: unat_mod)
    have q: "pipe_q p = pi_data p (unat (nread p) mod PIPESIZE) # pipe_q ?p"
      using pring.pop [OF False] by (simp add: pipe_q_def)
    have ok: "pipe_ok p \<longrightarrow> pipe_ok ?p" using arg_cong [OF q, of length] by (simp add: pipe_ok_def pipe_q_def)
    note ih = Suc.IH [OF ds [unfolded cs(2)]]
    have "pipe_q p = cs @ pipe_q p'" using ih unfolding q cs(1) by (metis append_Cons)
    moreover have "length cs = min (Suc n) (length (pipe_q p))" using ih unfolding q cs(1) by (metis length_Cons min_Suc_Suc)
    moreover have "readopen p' = readopen p" "writeopen p' = writeopen p" using ih by simp_all
    ultimately show ?thesis using ih ok by blast
  qed
qed (auto simp: pipe_q_def)

section \<open>A writer and a reader\<close>

text \<open>A message on its way: what is not written yet, the pipe, what has been read.\<close>

record courier =
  co_unsent :: "u8 list"
  co_pipe :: pipe
  co_got :: "u8 list"

text \<open>
  The writer and the reader take turns in any order; each turn runs its loop until it returns or sleeps.
  Either side may close its end.
\<close>

inductive pipe_step :: "courier \<Rightarrow> courier \<Rightarrow> bool" where
  put: "pipewrite_loop killed (co_unsent s) (co_pipe s) = (w, rest, p)
    \<Longrightarrow> pipe_step s (s\<lparr>co_unsent := rest, co_pipe := p\<rparr>)"
| take: "piperead_try killed n (co_pipe s) = (w, cs, p)
    \<Longrightarrow> pipe_step s (s\<lparr>co_got := co_got s @ cs, co_pipe := p\<rparr>)"
| close_read: "pipe_step s (s\<lparr>co_pipe := (co_pipe s)\<lparr>readopen := False\<rparr>\<rparr>)"
| close_write: "pipe_step s (s\<lparr>co_pipe := (co_pipe s)\<lparr>writeopen := False\<rparr>\<rparr>)"

inductive pipe_run :: "courier \<Rightarrow> courier \<Rightarrow> bool" where
  start: "pipe_run s s"
| more: "pipe_run s t \<Longrightarrow> pipe_step t u \<Longrightarrow> pipe_run s u"

definition in_flight :: "courier \<Rightarrow> u8 list" where
  "in_flight s = co_got s @ pipe_q (co_pipe s) @ co_unsent s"

definition new_courier :: "u8 list \<Rightarrow> pipe \<Rightarrow> courier" where
  "new_courier msg p = \<lparr>co_unsent = msg, co_pipe = init_pipe p, co_got = []\<rparr>"

lemma read_try:
  assumes "piperead_try killed n p = (w, cs, p')"
  shows "pipe_q p = cs @ pipe_q p' \<and> (pipe_ok p \<longrightarrow> pipe_ok p')"
proof (cases "nread p = nwrite p \<and> writeopen p")
  case True
  then show ?thesis using assms by (simp add: piperead_try_def split: if_splits)
next
  case False
  then have "piperead_loop n p = (cs, p')" using assms by (auto simp: piperead_try_def split: prod.splits if_splits)
  then show ?thesis using read_burst by blast
qed

lemma pipe_step_inv:
  "pipe_step s t \<Longrightarrow> pipe_ok (co_pipe s) \<Longrightarrow> pipe_ok (co_pipe t) \<and> in_flight t = in_flight s"
proof (induction rule: pipe_step.induct)
  case (put killed s w rest p)
  then show ?case using write_burst [OF put.prems put.hyps] by (simp add: in_flight_def)
next
  case (take killed n s w cs p)
  then show ?case using read_try [OF take.hyps] by (simp add: in_flight_def)
qed (simp_all add: in_flight_def pipe_q_def pipe_ok_def)

lemma pipe_run_inv: "pipe_run s t \<Longrightarrow> pipe_ok (co_pipe s) \<Longrightarrow> pipe_ok (co_pipe t) \<and> in_flight t = in_flight s"
  by (induction rule: pipe_run.induct) (auto dest: pipe_step_inv)

lemma new_courier_ok: "pipe_ok (co_pipe (new_courier msg p))" "in_flight (new_courier msg p) = msg"
  by (simp_all add: new_courier_def init_pipe_def pipe_ok_def in_flight_def pipe_q_def)

text \<open>
  C14. A pipe is a queue: in every run of a writer and a reader, what was read, what is in the ring and what
  is not written yet are together the message, in order; the ring never holds more than its 512 bytes,
  however often the 32-bit counters have wrapped.
\<close>

theorem pipe_fifo:
  assumes "pipe_run (new_courier msg p) t"
  shows "co_got t @ pipe_q (co_pipe t) @ co_unsent t = msg \<and> length (pipe_q (co_pipe t)) \<le> PIPESIZE"
  using pipe_run_inv [OF assms new_courier_ok(1)] new_courier_ok(2) [of msg p]
  by (simp add: in_flight_def pipe_ok_def pipe_q_def)

definition pipe0 :: pipe where
  "pipe0 = \<lparr>pi_data = (\<lambda>_. 0), nread = 7, nwrite = 9, readopen = False, writeopen = False\<rparr>"

definition sent2 :: courier where
  "sent2 = \<lparr>co_unsent = [], co_pipe = \<lparr>pi_data = (\<lambda>_. 0)(0 := 104, 1 := 105), nread = 0, nwrite = 2,
     readopen = True, writeopen = True\<rparr>, co_got = []\<rparr>"

theorem pipe_fifo_witness:
  "pipe_run (new_courier [104, 105] pipe0) sent2 \<and> pipe_q (co_pipe sent2) = [104, 105]"
proof -
  have "pipewrite_loop False [104, 105] (init_pipe pipe0) = (Finished, [], co_pipe sent2)"
    by (simp add: init_pipe_def pipe0_def sent2_def)
  then have "pipe_step (new_courier [104, 105] pipe0) sent2"
    using pipe_step.put [of False "new_courier [104, 105] pipe0"] by (simp add: new_courier_def sent2_def)
  then have run: "pipe_run (new_courier [104, 105] pipe0) sent2" by (rule pipe_run.more [OF pipe_run.start])
  then show ?thesis using pipe_fifo [OF run] by (simp add: sent2_def)
qed

section \<open>Delivery\<close>

text \<open>A round: the writer runs until it returns or sleeps, then the reader asks for \<open>n\<close> bytes.\<close>

definition pipe_round :: "nat \<Rightarrow> courier \<Rightarrow> courier" where
  "pipe_round n s =
     (let (_, rest, p) = pipewrite_loop False (co_unsent s) (co_pipe s);
          (_, cs, p) = piperead_try False n p
      in \<lparr>co_unsent = rest, co_pipe = p, co_got = co_got s @ cs\<rparr>)"

lemma round_progress:
  assumes ok: "pipe_ok (co_pipe s)" and n: "0 < n" and u: "s' = pipe_round n s"
    and left: "length (co_got s) < length (in_flight s)"
  shows "pipe_ok (co_pipe s') \<and> in_flight s' = in_flight s \<and> length (co_got s) < length (co_got s')"
proof -
  obtain w rest p where wr: "pipewrite_loop False (co_unsent s) (co_pipe s) = (w, rest, p)" by (metis prod_cases3)
  obtain v cs q where rd: "piperead_try False n p = (v, cs, q)" by (metis prod_cases3)
  note b = write_burst [OF ok wr] and r = read_try [OF rd]
  have s': "s' = \<lparr>co_unsent = rest, co_pipe = q, co_got = co_got s @ cs\<rparr>" using u wr rd by (simp add: pipe_round_def)
  have ne: "pipe_q p \<noteq> []"
  proof
    assume e: "pipe_q p = []"
    then have "w = Finished" using b by (cases w) auto
    then have "rest = []" using b by simp
    then have "pipe_q (co_pipe s) @ co_unsent s = []" using b e by simp
    then show False using left by (simp add: in_flight_def)
  qed
  then have "nread p \<noteq> nwrite p" by (auto simp: pipe_q_def)
  then have "piperead_loop n p = (cs, q)" using rd by (auto simp: piperead_try_def split: prod.splits)
  from read_burst [OF this] have "length cs = min n (length (pipe_q p))" by blast
  with ne n have "cs \<noteq> []" by (metis gr0_conv_Suc length_0_conv length_greater_0_conv min_Suc_Suc nat.simps(3))
  moreover have "in_flight s' = in_flight s" using b r by (simp add: s' in_flight_def)
  moreover have "pipe_ok q" using b r by blast
  ultimately show ?thesis by (simp add: s')
qed

lemma round_done:
  assumes "pipe_ok (co_pipe s)" "length (co_got s) = length (in_flight s)"
  shows "pipe_ok (co_pipe (pipe_round n s)) \<and> in_flight (pipe_round n s) = in_flight s \<and> co_got (pipe_round n s) = co_got s"
proof -
  have e: "pipe_q (co_pipe s) = []" "co_unsent s = []" using assms(2) by (simp_all add: in_flight_def)
  obtain v cs q where rd: "piperead_try False n (co_pipe s) = (v, cs, q)" by (metis prod_cases3)
  have "cs = []" "pipe_q q = []" using read_try [OF rd] e by simp_all
  then show ?thesis using assms rd e read_try [OF rd] by (simp add: pipe_round_def in_flight_def)
qed

lemma rounds_deliver:
  assumes "pipe_ok (co_pipe s)" "0 < n"
  shows "pipe_ok (co_pipe ((pipe_round n ^^ k) s)) \<and> in_flight ((pipe_round n ^^ k) s) = in_flight s \<and>
    min (length (in_flight s)) (length (co_got s) + k) \<le> length (co_got ((pipe_round n ^^ k) s))"
proof (induction k)
  case (Suc k)
  let ?t = "(pipe_round n ^^ k) s"
  have "length (co_got ?t) \<le> length (in_flight ?t)" by (simp add: in_flight_def)
  then consider "length (co_got ?t) < length (in_flight ?t)" | "length (co_got ?t) = length (in_flight ?t)" by linarith
  then show ?case
  proof cases
    case 1
    then show ?thesis using round_progress [of ?t n "pipe_round n ?t"] Suc assms(2) by auto
  next
    case 2
    then show ?thesis using round_done [of ?t n] Suc by auto
  qed
qed (simp add: assms in_flight_def)

text \<open>
  C15. Every message gets through: when the writer and the reader take turns, with a reader that asks for
  at least one byte each time, then after as many rounds as the message has bytes the reader has it all.
\<close>

theorem pipe_delivers:
  assumes "0 < n"
  shows "co_got ((pipe_round n ^^ length msg) (new_courier msg p)) = msg"
proof -
  let ?t = "(pipe_round n ^^ length msg) (new_courier msg p)"
  have "in_flight ?t = msg" "length msg \<le> length (co_got ?t)"
    using rounds_deliver [OF new_courier_ok(1) [of msg p] assms, of "length msg"] new_courier_ok(2) [of msg p] by auto
  then show ?thesis by (metis append_eq_conv_conj in_flight_def take_all)
qed

theorem pipe_delivers_witness:
  "co_got ((pipe_round 1 ^^ 600) (new_courier (replicate 600 42) pipe0)) = replicate 600 42"
  using pipe_delivers [of 1 "replicate 600 42" pipe0] by simp

end
