(* ===== verification/File.thy ===== *)
theory File
  imports Fs Pipe
begin

text \<open>
  Open files and pipes: file.c and the part of pipe.c that allocates and frees. \<open>struct file *\<close> is an
  index into the file table. A pipe lives in a page of its own and is named by the address of that page;
  its fields are kept beside the bytes of memory.
\<close>

unbundle bit_operations_syntax

section \<open>Data\<close>

datatype fdtype = FD_NONE | FD_PIPE | FD_INODE

record ofile =
  f_type :: fdtype
  f_ref :: int
  f_readable :: bool
  f_writable :: bool
  f_pipe :: u32
  f_ip :: nat
  f_off :: u32

record files = console +
  ftable :: "nat \<Rightarrow> ofile"
  pipes :: "u32 \<Rightarrow> pipe"

definition upd_file :: "nat \<Rightarrow> (ofile \<Rightarrow> ofile) \<Rightarrow> 'a files_scheme \<Rightarrow> 'a files_scheme" where
  "upd_file f g s = s\<lparr>ftable := (ftable s)(f := g (ftable s f))\<rparr>"

definition upd_pipe :: "u32 \<Rightarrow> (pipe \<Rightarrow> pipe) \<Rightarrow> 'a files_scheme \<Rightarrow> 'a files_scheme" where
  "upd_pipe p g s = s\<lparr>pipes := (pipes s)(p := g (pipes s p))\<rparr>"

section \<open>The file table\<close>

definition filealloc :: "'a files_scheme \<Rightarrow> nat option \<times> 'a files_scheme" where
  "filealloc s =
     (case List.find (\<lambda>f. f_ref (ftable s f) = 0) [0..<NFILE] of
        None \<Rightarrow> (None, s)
      | Some f \<Rightarrow> (Some f, upd_file f (\<lambda>x. x\<lparr>f_ref := 1\<rparr>) s))"

definition filedup :: "nat \<Rightarrow> 'a files_scheme \<Rightarrow> (nat \<times> 'a files_scheme) res" where
  "filedup f s =
     (if f_ref (ftable s f) < 1 then Err (Panic ''filedup'')
      else Ok (f, upd_file f (\<lambda>x. x\<lparr>f_ref := f_ref x + 1\<rparr>) s))"

definition pipeclose :: "u32 \<Rightarrow> bool \<Rightarrow> 'a files_scheme \<Rightarrow> 'a files_scheme res" where
  "pipeclose p writable s =
     (let s = (if writable then wakeup (ChPipeRead (unat p)) (upd_pipe p (\<lambda>x. x\<lparr>writeopen := False\<rparr>) s)
               else wakeup (ChPipeWrite (unat p)) (upd_pipe p (\<lambda>x. x\<lparr>readopen := False\<rparr>) s))
      in if \<not> readopen (pipes s p) \<and> \<not> writeopen (pipes s p) then kfree p s else Ok s)"

definition fileclose :: "nat \<Rightarrow> 'a files_scheme \<Rightarrow> 'a files_scheme res" where
  "fileclose f s =
     (if f_ref (ftable s f) < 1 then Err (Panic ''fileclose'')
      else
        let s = upd_file f (\<lambda>x. x\<lparr>f_ref := f_ref x - 1\<rparr>) s
        in if f_ref (ftable s f) > 0 then Ok s
           else
             let ff = ftable s f; s = upd_file f (\<lambda>x. x\<lparr>f_ref := 0, f_type := FD_NONE\<rparr>) s
             in (case f_type ff of
                   FD_PIPE \<Rightarrow> pipeclose (f_pipe ff) (f_writable ff) s
                 | FD_INODE \<Rightarrow> bindR (begin_op s) (\<lambda>s. bindR (iput (f_ip ff) s) end_op)
                 | FD_NONE \<Rightarrow> Ok s))"

definition filestat :: "nat \<Rightarrow> 'a files_scheme \<Rightarrow> (kstat option \<times> 'a files_scheme) res" where
  "filestat f s =
     (if f_type (ftable s f) = FD_INODE then
        let ip = f_ip (ftable s f)
        in bindR (ilock ip s) (\<lambda>s.
             let st = stati ip s in bindR (iunlock ip s) (\<lambda>s. Ok (Some st, s)))
      else Ok (None, s))"

section \<open>Pipes\<close>

text \<open>pipewrite and piperead with the wake-ups; a caller that must sleep does not return.\<close>

definition pipewrite :: "u32 \<Rightarrow> u8 list \<Rightarrow> 'a files_scheme \<Rightarrow> (int \<times> 'a files_scheme) res" where
  "pipewrite p src s =
     bindR (myproc s) (\<lambda>i.
       let (w, rest, x) = pipewrite_loop (p_killed (ptable s i)) src (pipes s p);
           s = upd_pipe p (\<lambda>_. x) s
       in (case w of
             Finished \<Rightarrow> Ok (int (length src), wakeup (ChPipeRead (unat p)) s)
           | Killed \<Rightarrow> Ok (-1, s)
           | Blocked \<Rightarrow> Err (Sleep (ChPipeWrite (unat p)))))"

definition piperead :: "u32 \<Rightarrow> int \<Rightarrow> 'a files_scheme \<Rightarrow> (int \<times> u8 list \<times> 'a files_scheme) res" where
  "piperead p n s =
     bindR (myproc s) (\<lambda>i.
       let (w, xs, x) = piperead_try (p_killed (ptable s i)) (nat n) (pipes s p);
           s = upd_pipe p (\<lambda>_. x) s
       in (case w of
             Finished \<Rightarrow> Ok (int (length xs), xs, wakeup (ChPipeWrite (unat p)) s)
           | Killed \<Rightarrow> Ok (-1, [], s)
           | Blocked \<Rightarrow> Err (Sleep (ChPipeRead (unat p)))))"

text \<open>The error exit of pipealloc gives back what was taken.\<close>

definition close_opt :: "nat option \<Rightarrow> 'a files_scheme \<Rightarrow> 'a files_scheme res" where
  "close_opt fo s = (case fo of None \<Rightarrow> Ok s | Some f \<Rightarrow> fileclose f s)"

definition pipealloc :: "'a files_scheme \<Rightarrow> ((nat \<times> nat) option \<times> 'a files_scheme) res" where
  "pipealloc s =
     (let (f0, s) = filealloc s; (f1, s) = (if f0 = None then (None, s) else filealloc s)
      in (case (f0, f1) of
            (Some a, Some b) \<Rightarrow>
              bindR (kalloc s) (\<lambda>(p, s).
                if p = 0 then bindR (fileclose a s) (\<lambda>s. bindR (fileclose b s) (\<lambda>s. Ok (None, s)))
                else
                  let s = upd_pipe p init_pipe s;
                      s = upd_file a (\<lambda>x. x\<lparr>f_type := FD_PIPE, f_readable := True, f_writable := False, f_pipe := p\<rparr>) s;
                      s = upd_file b (\<lambda>x. x\<lparr>f_type := FD_PIPE, f_readable := False, f_writable := True, f_pipe := p\<rparr>) s
                  in Ok (Some (a, b), s))
          | _ \<Rightarrow> bindR (close_opt f0 s) (\<lambda>s. bindR (close_opt f1 s) (\<lambda>s. Ok (None, s)))))"

section \<open>Reading and writing\<close>

definition fileread :: "nat \<Rightarrow> int \<Rightarrow> 'a files_scheme \<Rightarrow> (int \<times> u8 list \<times> 'a files_scheme) res" where
  "fileread f n s =
     (let x = ftable s f
      in if \<not> f_readable x then Ok (-1, [], s)
         else (case f_type x of
             FD_PIPE \<Rightarrow> piperead (f_pipe x) n s
           | FD_INODE \<Rightarrow>
               bindR (ilock (f_ip x) s) (\<lambda>s.
               bindR (readi (f_ip x) (f_off x) (of_int n) s) (\<lambda>(r, xs, s).
                 let s = (if r > 0 then upd_file f (\<lambda>x. x\<lparr>f_off := f_off x + of_int r\<rparr>) s else s)
                 in bindR (iunlock (f_ip x) s) (\<lambda>s. Ok (r, xs, s))))
           | FD_NONE \<Rightarrow> Err (Panic ''fileread'')))"

text \<open>filewrite's chunks keep each transaction within \<open>MAXOPBLOCKS\<close> blocks.\<close>

definition max_write :: nat where
  "max_write = ((MAXOPBLOCKS - 1 - 1 - 2) div 2) * 512"

definition write_chunk :: "nat \<Rightarrow> u8 list \<Rightarrow> nat \<Rightarrow> 'a files_scheme \<Rightarrow> (int \<times> 'a files_scheme) res" where
  "write_chunk f src n1 s =
     (let ip = f_ip (ftable s f)
      in bindR (begin_op s) (\<lambda>s.
         bindR (ilock ip s) (\<lambda>s.
         bindR (writei ip src (f_off (ftable s f)) (of_nat n1) s) (\<lambda>(r, s).
           let s = (if r > 0 then upd_file f (\<lambda>x. x\<lparr>f_off := f_off x + of_int r\<rparr>) s else s)
           in bindR (iunlock ip s) (\<lambda>s.
              bindR (end_op s) (\<lambda>s. Ok (r, s)))))))"

function filewrite_loop :: "nat \<Rightarrow> u8 list \<Rightarrow> 'a files_scheme \<Rightarrow> (bool \<times> 'a files_scheme) res" where
  "filewrite_loop f src s =
     (if src = [] then Ok (True, s)
      else
        let n1 = min (length src) max_write
        in bindR (write_chunk f src n1 s) (\<lambda>(r, s).
             if r < 0 then Ok (False, s)
             else if r \<noteq> int n1 then Err (Panic ''short filewrite'')
             else filewrite_loop f (drop (min (length src) max_write) src) s))"
  by pat_completeness auto
termination
  by (relation "measure (\<lambda>(f, src, s). length src)") (auto simp: max_write_def)

definition filewrite :: "nat \<Rightarrow> u8 list \<Rightarrow> 'a files_scheme \<Rightarrow> (int \<times> 'a files_scheme) res" where
  "filewrite f src s =
     (let x = ftable s f
      in if \<not> f_writable x then Ok (-1, s)
         else (case f_type x of
             FD_PIPE \<Rightarrow> pipewrite (f_pipe x) src s
           | FD_INODE \<Rightarrow> bindR (filewrite_loop f src s) (\<lambda>(ok, s). Ok (if ok then int (length src) else -1, s))
           | FD_NONE \<Rightarrow> Err (Panic ''filewrite'')))"

end
