(* ===== verification/Proc.thy ===== *)
theory Proc
  imports File Vm
begin

text \<open>
  Processes of proc.c: creation, fork, exit and wait, growth, and the scheduler. A switch to the
  scheduler ends an operation: what the process does when it runs again starts from the state it finds
  then. The addresses the linker gives to code are fields of the state, as the kernel's end is.
\<close>

unbundle bit_operations_syntax

record kern = files +
  ticks :: u32
  idt :: "nat \<Rightarrow> gatedesc"
  vectors :: "nat \<Rightarrow> u32"
  cr2 :: u32
  forkret_pc :: u32
  trapret_pc :: u32
  forkret_first :: bool
  initcode :: bytes
  initcode_size :: u32

section \<open>Creation\<close>

abbreviation (input) TFSIZE :: u32 where "TFSIZE \<equiv> 76"

text \<open>
  The kernel stack of a new process holds, from the top, its trap frame, the return address trapret and
  the context with which swtch enters forkret.
\<close>

definition allocproc :: "'a kern_scheme \<Rightarrow> (nat option \<times> 'a kern_scheme) res" where
  "allocproc s =
     (case find_proc (\<lambda>p. p_state p = UNUSED) (ptable s) of
        None \<Rightarrow> Ok (None, s)
      | Some i \<Rightarrow>
          let s = upd_proc i (\<lambda>p. p\<lparr>p_state := EMBRYO, p_pid := nextpid s\<rparr>) s; s = s\<lparr>nextpid := nextpid s + 1\<rparr>
          in bindR (kalloc s) (\<lambda>(stack, s).
             let s = upd_proc i (\<lambda>p. p\<lparr>p_kstack := stack\<rparr>) s
             in if stack = 0 then Ok (None, upd_proc i (\<lambda>p. p\<lparr>p_state := UNUSED\<rparr>) s)
                else bindR (kstore (stack + KSTACKSIZE - TFSIZE - 4) (trapret_pc s) s) (\<lambda>s.
                  Ok (Some i, upd_proc i (\<lambda>p. p\<lparr>p_context := zero_context\<lparr>c_eip := forkret_pc s\<rparr>\<rparr>) s))))"

definition user_tf :: trapframe where
  "user_tf = (let ds = of_nat SEG_UDATA * 8 OR ucast DPL_USER
     in zero_tf\<lparr>tf_cs := of_nat SEG_UCODE * 8 OR ucast DPL_USER, tf_ds := ds, tf_es := ds, tf_ss := ds,
          tf_eflags := FL_IF, tf_esp := PGSIZE, tf_eip := 0\<rparr>)"

text \<open>safestrcpy between two buffers of a process.\<close>

definition copy_name :: "bytes \<Rightarrow> bytes \<Rightarrow> bytes" where
  "copy_name dst src = (\<lambda>i. if i < 16 then safestrcpy (beside dst src) 0 64 16 i else dst i)"

definition userinit :: "'a kern_scheme \<Rightarrow> 'a kern_scheme res" where
  "userinit s =
     bindR (allocproc s) (\<lambda>(po, s).
       case po of
         None \<Rightarrow> Err (BadAddr 0)
       | Some p \<Rightarrow>
           let s = s\<lparr>initproc := Some p\<rparr>
           in bindR (setupkvm s) (\<lambda>(d, s).
              let s = upd_proc p (\<lambda>q. q\<lparr>p_pgdir := d\<rparr>) s
              in if d = 0 then Err (Panic ''userinit: out of memory?'')
                 else bindR (inituvm d (initcode s) (initcode_size s) s) (\<lambda>s.
                   let s = upd_proc p (\<lambda>q. q\<lparr>p_sz := PGSIZE, p_tf := user_tf,
                             p_name := copy_name (p_name q) (c_string (str ''initcode''))\<rparr>) s
                   in bindR (namei [slash] s) (\<lambda>(ip, s).
                      Ok (upd_proc p (\<lambda>q. q\<lparr>p_cwd := ip, p_state := RUNNABLE\<rparr>) s)))))"

definition growproc :: "int \<Rightarrow> 'a kern_scheme \<Rightarrow> (int \<times> 'a kern_scheme) res" where
  "growproc n s =
     bindR (myproc s) (\<lambda>i.
       let sz = p_sz (ptable s i); d = p_pgdir (ptable s i)
       in bindR (if n > 0 then allocuvm d sz (sz + of_int n) s
                 else if n < 0 then deallocuvm d sz (sz + of_int n) s
                 else Ok (sz, s)) (\<lambda>(sz, s).
          if n \<noteq> 0 \<and> sz = 0 then Ok (-1, s)
          else bindR (switchuvm (Some i) (upd_proc i (\<lambda>p. p\<lparr>p_sz := sz\<rparr>) s)) (\<lambda>s. Ok (0, s))))"

section \<open>fork, exit, wait\<close>

text \<open>The descriptors of the child: every open file gets one more reference.\<close>

definition dup_fd :: "nat \<Rightarrow> nat \<Rightarrow> nat \<Rightarrow> 'a kern_scheme \<Rightarrow> 'a kern_scheme res" where
  "dup_fd cur np fd s =
     (case p_ofile (ptable s cur) fd of
        None \<Rightarrow> Ok s
      | Some f \<Rightarrow> bindR (filedup f s) (\<lambda>(f, s).
          Ok (upd_proc np (\<lambda>p. p\<lparr>p_ofile := (p_ofile p)(fd := Some f)\<rparr>) s)))"

definition fork :: "'a kern_scheme \<Rightarrow> (int \<times> 'a kern_scheme) res" where
  "fork s =
     bindR (myproc s) (\<lambda>cur.
     bindR (allocproc s) (\<lambda>(npo, s).
       case npo of
         None \<Rightarrow> Ok (-1, s)
       | Some np \<Rightarrow>
           bindR (copyuvm_cow (p_pgdir (ptable s cur)) (p_sz (ptable s cur)) np s) (\<lambda>(d, s).
             let s = upd_proc np (\<lambda>p. p\<lparr>p_pgdir := d\<rparr>) s
             in if d = 0 then
                  bindR (kfree (p_kstack (ptable s np)) s) (\<lambda>s.
                    Ok (-1, upd_proc np (\<lambda>p. p\<lparr>p_kstack := 0, p_state := UNUSED\<rparr>) s))
                else
                  let s = upd_proc np (\<lambda>p. p\<lparr>p_sz := p_sz (ptable s cur), p_parent := Some cur,
                            p_tf := (p_tf (ptable s cur))\<lparr>tf_eax := 0\<rparr>\<rparr>) s
                  in bindR (foldR (dup_fd cur np) [0..<NOFILE] s) (\<lambda>s.
                     bindR (case p_cwd (ptable s cur) of None \<Rightarrow> Err (BadAddr 0) | Some c \<Rightarrow> Ok (idup c s)) (\<lambda>(c, s).
                       let s = upd_proc np (\<lambda>p. p\<lparr>p_cwd := Some c, p_name := copy_name (p_name p) (p_name (ptable s cur))\<rparr>) s
                       in Ok (p_pid (ptable s np), upd_proc np (\<lambda>p. p\<lparr>p_state := RUNNABLE\<rparr>) s))))))"

definition close_fd :: "nat \<Rightarrow> nat \<Rightarrow> 'a kern_scheme \<Rightarrow> 'a kern_scheme res" where
  "close_fd cur fd s =
     (case p_ofile (ptable s cur) fd of
        None \<Rightarrow> Ok s
      | Some f \<Rightarrow> bindR (fileclose f s) (\<lambda>s.
          Ok (upd_proc cur (\<lambda>p. p\<lparr>p_ofile := (p_ofile p)(fd := None)\<rparr>) s)))"

definition wakeup_proc :: "nat option \<Rightarrow> 'a kern_scheme \<Rightarrow> 'a kern_scheme" where
  "wakeup_proc po s = (case po of None \<Rightarrow> s | Some i \<Rightarrow> wakeup1 (ChProc i) s)"

text \<open>One abandoned child passes to init.\<close>

definition reparent :: "nat \<Rightarrow> nat \<Rightarrow> 'a kern_scheme \<Rightarrow> 'a kern_scheme" where
  "reparent cur i s =
     (if p_parent (ptable s i) = Some cur then
        let s = upd_proc i (\<lambda>p. p\<lparr>p_parent := initproc s\<rparr>) s
        in if p_state (ptable s i) = ZOMBIE then wakeup_proc (initproc s) s else s
      else s)"

section \<open>The scheduler\<close>

text \<open>The switch from a process to the scheduler, up to the end of the scheduler's loop body.\<close>

definition sched :: "'a kern_scheme \<Rightarrow> 'a kern_scheme res" where
  "sched s =
     bindR (myproc s) (\<lambda>i.
       if p_state (ptable s i) = RUNNING then Err (Panic ''sched running'')
       else Ok ((switchkvm s)\<lparr>curproc := None\<rparr>))"

definition yield :: "'a kern_scheme \<Rightarrow> 'a kern_scheme res" where
  "yield s = bindR (myproc s) (\<lambda>i. sched (upd_proc i (\<lambda>p. p\<lparr>p_state := RUNNABLE\<rparr>) s))"

definition sleep :: "chan \<Rightarrow> 'a kern_scheme \<Rightarrow> 'a kern_scheme res" where
  "sleep ch s =
     (case curproc s of
        None \<Rightarrow> Err (Panic ''sleep'')
      | Some i \<Rightarrow> sched (upd_proc i (\<lambda>p. p\<lparr>p_chan := Some ch, p_state := SLEEPING\<rparr>) s))"

text \<open>What sleep does when the process runs again.\<close>

definition sleep_resume :: "'a kern_scheme \<Rightarrow> 'a kern_scheme res" where
  "sleep_resume s = bindR (myproc s) (\<lambda>i. Ok (upd_proc i (\<lambda>p. p\<lparr>p_chan := None\<rparr>) s))"

text \<open>
  The process the scanning loop comes to next after entry \<open>prev\<close>: the scan goes on to the end of the table
  and starts again from the first entry.
\<close>

definition scan_next :: "nat \<Rightarrow> 'a kern_scheme \<Rightarrow> nat option" where
  "scan_next prev s = List.find (\<lambda>i. p_state (ptable s i) = RUNNABLE) ([Suc prev..<NPROC] @ [0..<NPROC])"

definition dispatch :: "nat \<Rightarrow> 'a kern_scheme \<Rightarrow> 'a kern_scheme res" where
  "dispatch p s =
     bindR (switchuvm (Some p) (s\<lparr>curproc := Some p\<rparr>)) (\<lambda>s.
       Ok (upd_proc p (\<lambda>q. q\<lparr>p_state := RUNNING\<rparr>) s))"

text \<open>One turn of the scheduler: nothing when no process can run.\<close>

definition scheduler_turn :: "nat \<Rightarrow> 'a kern_scheme \<Rightarrow> 'a kern_scheme res" where
  "scheduler_turn prev s = (case scan_next prev s of None \<Rightarrow> Ok s | Some p \<Rightarrow> dispatch p s)"

definition forkret :: "'a kern_scheme \<Rightarrow> 'a kern_scheme res" where
  "forkret s =
     (if forkret_first s then
        bindR (iinit ROOTDEV (s\<lparr>forkret_first := False\<rparr>)) (\<lambda>s.
        bindR (initlog ROOTDEV s) (\<lambda>s. Ok (swapinit s)))
      else Ok s)"

text \<open>exit ends in the scheduler; the zombie never runs again.\<close>

definition exit :: "'a kern_scheme \<Rightarrow> 'a kern_scheme res" where
  "exit s =
     bindR (myproc s) (\<lambda>cur.
       if initproc s = Some cur then Err (Panic ''init exiting'')
       else
         bindR (foldR (close_fd cur) [0..<NOFILE] s) (\<lambda>s.
         bindR (begin_op s) (\<lambda>s.
         bindR (case p_cwd (ptable s cur) of None \<Rightarrow> Err (BadAddr 0) | Some c \<Rightarrow> iput c s) (\<lambda>s.
         bindR (end_op s) (\<lambda>s.
           let s = upd_proc cur (\<lambda>p. p\<lparr>p_cwd := None\<rparr>) s;
               s = wakeup_proc (p_parent (ptable s cur)) s;
               s = fold (reparent cur) [0..<NPROC] s
           in sched (upd_proc cur (\<lambda>p. p\<lparr>p_state := ZOMBIE\<rparr>) s))))))"

text \<open>What wait does with the first zombie child it finds.\<close>

definition reap :: "nat \<Rightarrow> 'a kern_scheme \<Rightarrow> (int \<times> 'a kern_scheme) res" where
  "reap p s =
     bindR (clear_zombie p s) (\<lambda>s.
       let pid = p_pid (ptable s p)
       in bindR (kfree (p_kstack (ptable s p)) s) (\<lambda>s.
          let s = upd_proc p (\<lambda>q. q\<lparr>p_kstack := 0, p_rss := p_rss q - PGSIZE\<rparr>) s
          in bindR (freevm_proc p (p_pgdir (ptable s p)) s) (\<lambda>s.
             Ok (pid, upd_proc p (\<lambda>q. q\<lparr>p_pid := 0, p_parent := None, p_name := (p_name q)(0 := 0),
               p_killed := False, p_state := UNUSED\<rparr>) s))))"

definition wait :: "'a kern_scheme \<Rightarrow> (int \<times> 'a kern_scheme) res" where
  "wait s =
     bindR (myproc s) (\<lambda>cur.
       case find_proc (\<lambda>p. p_parent p = Some cur \<and> p_state p = ZOMBIE) (ptable s) of
         Some p \<Rightarrow> reap p s
       | None \<Rightarrow>
           if find_proc (\<lambda>p. p_parent p = Some cur) (ptable s) = None \<or> p_killed (ptable s cur) then Ok (-1, s)
           else Err (Sleep (ChProc cur)))"

text \<open>A quiet kernel with a given process table.\<close>

definition quiet_kern :: "(nat \<Rightarrow> proc) \<Rightarrow> kern" where
  "quiet_kern tab = quiet_cons tab (\<lambda>_ _ _. 0)
     \<lparr>ftable = (\<lambda>_. \<lparr>f_type = FD_NONE, f_ref = 0, f_readable = False, f_writable = False, f_pipe = 0, f_ip = 0, f_off = 0\<rparr>),
      pipes = (\<lambda>_. pipe0), ticks = 0, idt = (\<lambda>_. SETGATE False 0 0 0), vectors = (\<lambda>_. 0), cr2 = 0, forkret_pc = 0x80104000,
      trapret_pc = 0x80105000, forkret_first = False, initcode = (\<lambda>_. 0), initcode_size = 44\<rparr>"

end
