(* ===== verification/Exec.thy ===== *)
theory Exec
  imports Proc
begin

text \<open>
  exec.c with the loader of vm.c: the ELF headers, the loop over the segments, and the argument stack of
  the new image. The arguments are the strings their pointers refer to.
\<close>

unbundle bit_operations_syntax

record elfhdr =
  e_magic :: u32
  e_entry :: u32
  e_phoff :: u32
  e_phnum :: u16

record proghdr =
  ph_type :: u32
  ph_off :: u32
  ph_vaddr :: u32
  ph_filesz :: u32
  ph_memsz :: u32

abbreviation (input) ELF_MAGIC :: u32 where "ELF_MAGIC \<equiv> 0x464C457F"

definition elf_of :: "u8 list \<Rightarrow> elfhdr" where
  "elf_of xs = (let b = (\<lambda>i. xs ! i)
     in \<lparr>e_magic = ld32 b 0, e_entry = ld32 b 24, e_phoff = ld32 b 28, e_phnum = ld16 b 44\<rparr>)"

definition ph_of :: "u8 list \<Rightarrow> proghdr" where
  "ph_of xs = (let b = (\<lambda>i. xs ! i)
     in \<lparr>ph_type = ld32 b 0, ph_off = ld32 b 4, ph_vaddr = ld32 b 8, ph_filesz = ld32 b 16, ph_memsz = ld32 b 20\<rparr>)"

section \<open>Loading\<close>

fun loaduvm_loop :: "u32 \<Rightarrow> u32 \<Rightarrow> nat \<Rightarrow> u32 \<Rightarrow> u32 \<Rightarrow> u32 list \<Rightarrow> 'a kern_scheme \<Rightarrow> (int \<times> 'a kern_scheme) res" where
  "loaduvm_loop pgdir addr ip offset sz [] s = Ok (0, s)"
| "loaduvm_loop pgdir addr ip offset sz (i # is) s =
     bindR (walkpgdir pgdir (addr + i) False s) (\<lambda>(pte, s).
       if pte = 0 then Err (Panic ''loaduvm: address should exist'')
       else bindR (kload pte s) (\<lambda>x.
         let pa = PTE_ADDR x; n = (if sz - i < PGSIZE then sz - i else PGSIZE)
         in bindR (readi ip (offset + i) n s) (\<lambda>(r, xs, s).
            bindR (kpage_upd (P2V pa) (\<lambda>b. put_bytes b 0 xs) s) (\<lambda>s.
              if (of_int r :: u32) \<noteq> n then Ok (-1, s) else loaduvm_loop pgdir addr ip offset sz is s))))"

definition loaduvm :: "u32 \<Rightarrow> u32 \<Rightarrow> nat \<Rightarrow> u32 \<Rightarrow> u32 \<Rightarrow> 'a kern_scheme \<Rightarrow> (int \<times> 'a kern_scheme) res" where
  "loaduvm pgdir addr ip offset sz s =
     (if addr mod PGSIZE \<noteq> 0 then Err (Panic ''loaduvm: addr must be page aligned'')
      else loaduvm_loop pgdir addr ip offset sz (page_range 0 sz) s)"

text \<open>The loop over the program headers; \<open>None\<close> is the jump to bad.\<close>

primrec load_segments :: "u32 \<Rightarrow> nat \<Rightarrow> nat \<Rightarrow> u32 \<Rightarrow> u32 \<Rightarrow> 'a kern_scheme \<Rightarrow> (u32 option \<times> 'a kern_scheme) res" where
  "load_segments pgdir ip 0 off sz s = Ok (Some sz, s)"
| "load_segments pgdir ip (Suc k) off sz s =
     bindR (readi ip off 32 s) (\<lambda>(r, xs, s).
       if r \<noteq> 32 then Ok (None, s)
       else
         let ph = ph_of xs
         in if ph_type ph \<noteq> 1 then load_segments pgdir ip k (off + 32) sz s
            else if ph_memsz ph < ph_filesz ph then Ok (None, s)
            else if ph_vaddr ph + ph_memsz ph < ph_vaddr ph then Ok (None, s)
            else
              bindR (allocuvm pgdir sz (ph_vaddr ph + ph_memsz ph) s) (\<lambda>(sz, s).
                if sz = 0 then Ok (None, s)
                else if ph_vaddr ph mod PGSIZE \<noteq> 0 then Ok (None, s)
                else
                  bindR (loaduvm pgdir (ph_vaddr ph) ip (ph_off ph) (ph_filesz ph) s) (\<lambda>(r, s).
                    if r < 0 then Ok (None, s) else load_segments pgdir ip k (off + 32) sz s)))"

section \<open>The argument stack\<close>

text \<open>Push the strings; the pointers to them are collected for ustack.\<close>

fun push_args :: "u32 \<Rightarrow> u32 \<Rightarrow> u32 list \<Rightarrow> u8 list list \<Rightarrow> 'a kern_scheme
    \<Rightarrow> ((u32 \<times> u32 list) option \<times> 'a kern_scheme) res" where
  "push_args pgdir sp ptrs [] s = Ok (Some (sp, ptrs), s)"
| "push_args pgdir sp ptrs (a # as) s =
     (if length ptrs \<ge> MAXARG then Ok (None, s)
      else
        let n = of_nat (length a + 1); sp = (sp - n) AND NOT 3
        in bindR (copyout pgdir sp (c_string a) 0 n s) (\<lambda>(r, s).
           if r < 0 then Ok (None, s) else push_args pgdir sp (ptrs @ [sp]) as s))"

definition ustack_words :: "u32 \<Rightarrow> u32 list \<Rightarrow> u32 list" where
  "ustack_words sp ptrs = [0xFFFFFFFF, of_nat (length ptrs), sp - (of_nat (length ptrs) + 1) * 4] @ ptrs @ [0]"

definition words_mem :: "u32 list \<Rightarrow> bytes" where
  "words_mem ws = fold (\<lambda>i b. st32 b (4 * i) (ws ! i)) [0..<length ws] (\<lambda>_. 0)"

text \<open>The part of a path after its last slash.\<close>

definition base_name :: "u8 list \<Rightarrow> u8 list" where
  "base_name path = rev (takeWhile (\<lambda>c. c \<noteq> slash) (rev path))"

section \<open>exec\<close>

text \<open>The error exit: the new directory is freed, and the inode if it is still locked.\<close>

definition exec_bad :: "u32 \<Rightarrow> nat option \<Rightarrow> 'a kern_scheme \<Rightarrow> (int \<times> 'a kern_scheme) res" where
  "exec_bad pgdir ipo s =
     bindR (if pgdir \<noteq> 0 then freevm pgdir s else Ok s) (\<lambda>s.
     bindR (case ipo of None \<Rightarrow> Ok s | Some ip \<Rightarrow> bindR (iunlockput ip s) end_op) (\<lambda>s. Ok (-1, s)))"

text \<open>From the stack pages to the commitment to the new image.\<close>

definition exec_image :: "u8 list \<Rightarrow> u8 list list \<Rightarrow> u32 \<Rightarrow> u32 \<Rightarrow> u32 \<Rightarrow> 'a kern_scheme \<Rightarrow> (int \<times> 'a kern_scheme) res" where
  "exec_image path argv entry pgdir sz s =
     bindR (myproc s) (\<lambda>cur.
       let sz = PGROUNDUP sz
       in bindR (allocuvm pgdir sz (sz + 2 * PGSIZE) s) (\<lambda>(sz, s).
          if sz = 0 then exec_bad pgdir None s
          else
            bindR (clearpteu pgdir (sz - 2 * PGSIZE) s) (\<lambda>s.
            bindR (push_args pgdir sz [] argv s) (\<lambda>(a, s).
              case a of
                None \<Rightarrow> exec_bad pgdir None s
              | Some (sp, ptrs) \<Rightarrow>
                  let ws = ustack_words sp ptrs; n = of_nat (4 * length ws); sp = sp - n
                  in bindR (copyout pgdir sp (words_mem ws) 0 n s) (\<lambda>(r, s).
                     if r < 0 then exec_bad pgdir None s
                     else
                       let old = p_pgdir (ptable s cur);
                           s = upd_proc cur (\<lambda>p. p\<lparr>p_name := copy_name (p_name p) (c_string (base_name path)),
                                 p_pgdir := pgdir, p_sz := sz, p_tf := (p_tf p)\<lparr>tf_eip := entry, tf_esp := sp\<rparr>\<rparr>) s
                       in bindR (switchuvm (Some cur) s) (\<lambda>s.
                          bindR (freevm old s) (\<lambda>s. Ok (0, s))))))))"

definition exec :: "u8 list \<Rightarrow> u8 list list \<Rightarrow> 'a kern_scheme \<Rightarrow> (int \<times> 'a kern_scheme) res" where
  "exec path argv s =
     bindR (begin_op s) (\<lambda>s.
     bindR (namei path s) (\<lambda>(ipo, s).
       case ipo of
         None \<Rightarrow> bindR (end_op s) (\<lambda>s. bindR (cprintf (str ''exec: fail'' @ [10]) [] s) (\<lambda>s. Ok (-1, s)))
       | Some ip \<Rightarrow>
           bindR (ilock ip s) (\<lambda>s.
           bindR (readi ip 0 52 s) (\<lambda>(r, xs, s).
             if r \<noteq> 52 then exec_bad 0 (Some ip) s
             else if e_magic (elf_of xs) \<noteq> ELF_MAGIC then exec_bad 0 (Some ip) s
             else
               bindR (setupkvm s) (\<lambda>(pgdir, s).
                 if pgdir = 0 then exec_bad 0 (Some ip) s
                 else
                   bindR (load_segments pgdir ip (unat (e_phnum (elf_of xs))) (e_phoff (elf_of xs)) 0 s) (\<lambda>(szo, s).
                     case szo of
                       None \<Rightarrow> exec_bad pgdir (Some ip) s
                     | Some sz \<Rightarrow>
                         bindR (iunlockput ip s) (\<lambda>s.
                         bindR (end_op s) (\<lambda>s. exec_image path argv (e_entry (elf_of xs)) pgdir sz s))))))))"

end
