(* ===== verification/Syscall.thy ===== *)
theory Syscall
  imports Exec Umem
begin

text \<open>
  System call arguments (syscall.c) and the calls on processes (sysproc.c). A negative result that makes
  a caller return -1 is \<open>None\<close>. Reading an argument reads user memory, which may bring pages in.
\<close>

unbundle bit_operations_syntax

section \<open>Arguments\<close>

definition fetchint :: "u32 \<Rightarrow> 'a kern_scheme \<Rightarrow> (u32 option \<times> 'a kern_scheme) res" where
  "fetchint addr s =
     bindR (myproc s) (\<lambda>i.
       let sz = p_sz (ptable s i)
       in if addr \<ge> sz \<or> addr + 4 > sz then Ok (None, s)
          else bindR (uload32 addr s) (\<lambda>(w, s). Ok (Some w, s)))"

text \<open>The string at an address, if it ends inside the process.\<close>

primrec fetchstr_loop :: "nat \<Rightarrow> u32 \<Rightarrow> u8 list \<Rightarrow> 'a kern_scheme \<Rightarrow> (u8 list option \<times> 'a kern_scheme) res" where
  "fetchstr_loop 0 a acc s = Ok (None, s)"
| "fetchstr_loop (Suc n) a acc s =
     bindR (uload a s) (\<lambda>(c, s).
       if c = 0 then Ok (Some acc, s) else fetchstr_loop n (a + 1) (acc @ [c]) s)"

definition fetchstr :: "u32 \<Rightarrow> 'a kern_scheme \<Rightarrow> (u8 list option \<times> 'a kern_scheme) res" where
  "fetchstr addr s =
     bindR (myproc s) (\<lambda>i.
       let sz = p_sz (ptable s i)
       in if addr \<ge> sz then Ok (None, s) else fetchstr_loop (unat (sz - addr)) addr [] s)"

definition argint :: "nat \<Rightarrow> 'a kern_scheme \<Rightarrow> (u32 option \<times> 'a kern_scheme) res" where
  "argint n s = bindR (myproc s) (\<lambda>i. fetchint (tf_esp (p_tf (ptable s i)) + 4 + 4 * of_nat n) s)"

definition argptr :: "nat \<Rightarrow> int \<Rightarrow> 'a kern_scheme \<Rightarrow> (u32 option \<times> 'a kern_scheme) res" where
  "argptr n sz s =
     bindR (myproc s) (\<lambda>i.
     bindR (argint n s) (\<lambda>(a, s).
       case a of
         None \<Rightarrow> Ok (None, s)
       | Some p \<Rightarrow>
           if sz < 0 \<or> p \<ge> p_sz (ptable s i) \<or> p + of_int sz > p_sz (ptable s i) then Ok (None, s)
           else Ok (Some p, s)))"

definition argstr :: "nat \<Rightarrow> 'a kern_scheme \<Rightarrow> (u8 list option \<times> 'a kern_scheme) res" where
  "argstr n s =
     bindR (argint n s) (\<lambda>(a, s). case a of None \<Rightarrow> Ok (None, s) | Some addr \<Rightarrow> fetchstr addr s)"

section \<open>Processes\<close>

definition sys_getNumFreePages :: "'a kern_scheme \<Rightarrow> (int \<times> 'a kern_scheme) res" where
  "sys_getNumFreePages s = Ok (sint (num_of_FreePages s), s)"

definition rss_line :: "int \<times> procstate \<times> u32 \<Rightarrow> 'a kern_scheme \<Rightarrow> 'a kern_scheme res" where
  "rss_line = (\<lambda>(pid, st, rss).
     cprintf (str ''((P)) id: %d, state: %d, rss: %d'' @ [10])
       [Word (of_int pid), Word (case st of UNUSED \<Rightarrow> 0 | EMBRYO \<Rightarrow> 1 | SLEEPING \<Rightarrow> 2 | RUNNABLE \<Rightarrow> 3 | RUNNING \<Rightarrow> 4 | ZOMBIE \<Rightarrow> 5),
        Word rss])"

definition sys_getrss :: "'a kern_scheme \<Rightarrow> (int \<times> 'a kern_scheme) res" where
  "sys_getrss s =
     bindR (cprintf (str ''PrintingRSS'' @ [10]) [] s) (\<lambda>s.
     bindR (foldR rss_line (print_rss s) s) (\<lambda>s. Ok (0, s)))"

definition sys_fork :: "'a kern_scheme \<Rightarrow> (int \<times> 'a kern_scheme) res" where
  "sys_fork s = fork s"

definition sys_exit :: "'a kern_scheme \<Rightarrow> (int \<times> 'a kern_scheme) res" where
  "sys_exit s = bindR (exit s) (\<lambda>s. Ok (0, s))"

definition sys_wait :: "'a kern_scheme \<Rightarrow> (int \<times> 'a kern_scheme) res" where
  "sys_wait s = wait s"

definition sys_kill :: "'a kern_scheme \<Rightarrow> (int \<times> 'a kern_scheme) res" where
  "sys_kill s =
     bindR (argint 0 s) (\<lambda>(a, s). case a of None \<Rightarrow> Ok (-1, s) | Some pid \<Rightarrow> Ok (kill (sint pid) s))"

definition sys_getpid :: "'a kern_scheme \<Rightarrow> (int \<times> 'a kern_scheme) res" where
  "sys_getpid s = bindR (myproc s) (\<lambda>i. Ok (p_pid (ptable s i), s))"

definition sys_sbrk :: "'a kern_scheme \<Rightarrow> (int \<times> 'a kern_scheme) res" where
  "sys_sbrk s =
     bindR (argint 0 s) (\<lambda>(a, s).
       case a of
         None \<Rightarrow> Ok (-1, s)
       | Some n \<Rightarrow>
           bindR (myproc s) (\<lambda>i.
             let addr = p_sz (ptable s i)
             in bindR (growproc (sint n) s) (\<lambda>(r, s). Ok (if r < 0 then -1 else sint addr, s))))"

text \<open>
  The loop of sys_sleep, for the ticks that pass: \<open>ticks - ticks0 < n\<close> compares unsigned numbers. Each
  element of the list is the clock and the killed flag at a wake-up.
\<close>

primrec sleep_loop :: "u32 \<Rightarrow> u32 \<Rightarrow> (u32 \<times> bool) list \<Rightarrow> int option" where
  "sleep_loop ticks0 n [] = None"
| "sleep_loop ticks0 n (w # ws) =
     (if \<not> fst w - ticks0 < n then Some 0 else if snd w then Some (-1) else sleep_loop ticks0 n ws)"

definition sys_sleep :: "'a kern_scheme \<Rightarrow> (int \<times> 'a kern_scheme) res" where
  "sys_sleep s =
     bindR (argint 0 s) (\<lambda>(a, s).
       case a of
         None \<Rightarrow> Ok (-1, s)
       | Some n \<Rightarrow>
           bindR (myproc s) (\<lambda>i.
             case sleep_loop (ticks s) n [(ticks s, p_killed (ptable s i))] of
               None \<Rightarrow> Err (Sleep ChTicks)
             | Some r \<Rightarrow> Ok (r, s)))"

definition sys_uptime :: "'a kern_scheme \<Rightarrow> (int \<times> 'a kern_scheme) res" where
  "sys_uptime s = Ok (sint (ticks s), s)"

end
