(* ===== verification/Sysfile.thy ===== *)
theory Sysfile
  imports Syscall
begin

text \<open>
  The system calls on files (sysfile.c), the dispatcher of syscall.c and the trap handler of trap.c. A
  call's error exits undo what it did so far in the order the code does.
\<close>

unbundle bit_operations_syntax

section \<open>Descriptors\<close>

definition argfd :: "nat \<Rightarrow> 'a kern_scheme \<Rightarrow> ((nat \<times> nat) option \<times> 'a kern_scheme) res" where
  "argfd n s =
     bindR (argint n s) (\<lambda>(a, s).
       case a of
         None \<Rightarrow> Ok (None, s)
       | Some w \<Rightarrow>
           if sint w < 0 \<or> sint w \<ge> int NOFILE then Ok (None, s)
           else bindR (myproc s) (\<lambda>i.
             case p_ofile (ptable s i) (unat w) of
               None \<Rightarrow> Ok (None, s)
             | Some f \<Rightarrow> Ok (Some (unat w, f), s)))"

definition fdalloc :: "nat \<Rightarrow> 'a kern_scheme \<Rightarrow> (nat option \<times> 'a kern_scheme) res" where
  "fdalloc f s =
     bindR (myproc s) (\<lambda>i.
       case List.find (\<lambda>fd. p_ofile (ptable s i) fd = None) [0..<NOFILE] of
         None \<Rightarrow> Ok (None, s)
       | Some fd \<Rightarrow> Ok (Some fd, upd_proc i (\<lambda>p. p\<lparr>p_ofile := (p_ofile p)(fd := Some f)\<rparr>) s))"

definition sys_dup :: "'a kern_scheme \<Rightarrow> (int \<times> 'a kern_scheme) res" where
  "sys_dup s =
     bindR (argfd 0 s) (\<lambda>(a, s).
       case a of
         None \<Rightarrow> Ok (-1, s)
       | Some (_, f) \<Rightarrow>
           bindR (fdalloc f s) (\<lambda>(fd, s).
             case fd of
               None \<Rightarrow> Ok (-1, s)
             | Some fd \<Rightarrow> bindR (filedup f s) (\<lambda>(_, s). Ok (int fd, s))))"

text \<open>The three arguments of read and write.\<close>

definition arg_rw :: "'a kern_scheme \<Rightarrow> ((nat \<times> int \<times> u32) option \<times> 'a kern_scheme) res" where
  "arg_rw s =
     bindR (argfd 0 s) (\<lambda>(a, s).
       case a of
         None \<Rightarrow> Ok (None, s)
       | Some (_, f) \<Rightarrow>
           bindR (argint 2 s) (\<lambda>(n, s).
             case n of
               None \<Rightarrow> Ok (None, s)
             | Some n \<Rightarrow>
                 bindR (argptr 1 (sint n) s) (\<lambda>(p, s).
                   case p of None \<Rightarrow> Ok (None, s) | Some p \<Rightarrow> Ok (Some (f, sint n, p), s))))"

definition sys_read :: "'a kern_scheme \<Rightarrow> (int \<times> 'a kern_scheme) res" where
  "sys_read s =
     bindR (arg_rw s) (\<lambda>(a, s).
       case a of
         None \<Rightarrow> Ok (-1, s)
       | Some (f, n, p) \<Rightarrow>
           bindR (fileread f n s) (\<lambda>(r, xs, s).
           bindR (ustores p xs s) (\<lambda>s. Ok (r, s))))"

definition sys_write :: "'a kern_scheme \<Rightarrow> (int \<times> 'a kern_scheme) res" where
  "sys_write s =
     bindR (arg_rw s) (\<lambda>(a, s).
       case a of
         None \<Rightarrow> Ok (-1, s)
       | Some (f, n, p) \<Rightarrow> bindR (uloads p (nat n) s) (\<lambda>(xs, s). filewrite f xs s))"

definition sys_close :: "'a kern_scheme \<Rightarrow> (int \<times> 'a kern_scheme) res" where
  "sys_close s =
     bindR (argfd 0 s) (\<lambda>(a, s).
       case a of
         None \<Rightarrow> Ok (-1, s)
       | Some (fd, f) \<Rightarrow>
           bindR (myproc s) (\<lambda>i.
             let s = upd_proc i (\<lambda>p. p\<lparr>p_ofile := (p_ofile p)(fd := None)\<rparr>) s
             in bindR (fileclose f s) (\<lambda>s. Ok (0, s))))"

text \<open>The bytes of \<open>struct stat\<close>, with the padding the compiler puts in.\<close>

definition stat_bytes :: "kstat \<Rightarrow> u8 list" where
  "stat_bytes st = bytes_of (st16 (\<lambda>_. 0) 0 (st_type st)) 0 4 @ word_bytes (st_dev st) @ word_bytes (st_ino st)
     @ bytes_of (st16 (\<lambda>_. 0) 0 (st_nlink st)) 0 4 @ word_bytes (st_size st)"

definition sys_fstat :: "'a kern_scheme \<Rightarrow> (int \<times> 'a kern_scheme) res" where
  "sys_fstat s =
     bindR (argfd 0 s) (\<lambda>(a, s).
       case a of
         None \<Rightarrow> Ok (-1, s)
       | Some (_, f) \<Rightarrow>
           bindR (argptr 1 20 s) (\<lambda>(p, s).
             case p of
               None \<Rightarrow> Ok (-1, s)
             | Some p \<Rightarrow>
                 bindR (filestat f s) (\<lambda>(st, s).
                   case st of
                     None \<Rightarrow> Ok (-1, s)
                   | Some st \<Rightarrow> bindR (ustores p (stat_bytes st) s) (\<lambda>s. Ok (0, s)))))"

section \<open>Links\<close>

text \<open>The error exit of sys_link takes the link count back.\<close>

definition link_bad :: "nat \<Rightarrow> 'a kern_scheme \<Rightarrow> (int \<times> 'a kern_scheme) res" where
  "link_bad ip s =
     bindR (ilock ip s) (\<lambda>s.
     bindR (iupdate ip (upd_inode ip (\<lambda>i. i\<lparr>i_nlink := i_nlink i - 1\<rparr>) s)) (\<lambda>s.
     bindR (iunlockput ip s) (\<lambda>s.
     bindR (end_op s) (\<lambda>s. Ok (-1, s)))))"

text \<open>The part of sys_link after the count of the old inode went up.\<close>

definition link_new :: "nat \<Rightarrow> u8 list \<Rightarrow> 'a kern_scheme \<Rightarrow> (int \<times> 'a kern_scheme) res" where
  "link_new ip new s =
     bindR (nameiparent new (\<lambda>_. 0) s) (\<lambda>(dpo, name, s).
       case dpo of
         None \<Rightarrow> link_bad ip s
       | Some dp \<Rightarrow>
           bindR (ilock dp s) (\<lambda>s.
           bindR (if i_dev (icache s dp) \<noteq> i_dev (icache s ip) then Ok (-1, s)
                  else dirlink dp name (i_inum (icache s ip)) s) (\<lambda>(r, s).
             if r < 0 then bindR (iunlockput dp s) (link_bad ip)
             else
               bindR (iunlockput dp s) (\<lambda>s.
               bindR (iput ip s) (\<lambda>s.
               bindR (end_op s) (\<lambda>s. Ok (0, s)))))))"

definition sys_link :: "'a kern_scheme \<Rightarrow> (int \<times> 'a kern_scheme) res" where
  "sys_link s =
     bindR (argstr 0 s) (\<lambda>(o0, s).
       case o0 of
         None \<Rightarrow> Ok (-1, s)
       | Some old \<Rightarrow>
           bindR (argstr 1 s) (\<lambda>(o1, s).
             case o1 of
               None \<Rightarrow> Ok (-1, s)
             | Some new \<Rightarrow>
                 bindR (begin_op s) (\<lambda>s.
                 bindR (namei old s) (\<lambda>(ipo, s).
                   case ipo of
                     None \<Rightarrow> bindR (end_op s) (\<lambda>s. Ok (-1, s))
                   | Some ip \<Rightarrow>
                       bindR (ilock ip s) (\<lambda>s.
                         if i_type (icache s ip) = T_DIR then
                           bindR (iunlockput ip s) (\<lambda>s. bindR (end_op s) (\<lambda>s. Ok (-1, s)))
                         else
                           bindR (iupdate ip (upd_inode ip (\<lambda>i. i\<lparr>i_nlink := i_nlink i + 1\<rparr>) s)) (\<lambda>s.
                           bindR (iunlock ip s) (link_new ip new)))))))"

primrec dirempty_loop :: "nat \<Rightarrow> nat list \<Rightarrow> 'a kern_scheme \<Rightarrow> (bool \<times> 'a kern_scheme) res" where
  "dirempty_loop dp [] s = Ok (True, s)"
| "dirempty_loop dp (off # offs) s =
     bindR (read_dirent ''isdirempty: readi'' dp off s) (\<lambda>(de, s).
       if de_inum de \<noteq> 0 then Ok (False, s) else dirempty_loop dp offs s)"

definition isdirempty :: "nat \<Rightarrow> 'a kern_scheme \<Rightarrow> (bool \<times> 'a kern_scheme) res" where
  "isdirempty dp s = dirempty_loop dp (drop 2 (dir_offs (unat (i_size (icache s dp))))) s"

definition unlink_bad :: "nat \<Rightarrow> 'a kern_scheme \<Rightarrow> (int \<times> 'a kern_scheme) res" where
  "unlink_bad dp s = bindR (iunlockput dp s) (\<lambda>s. bindR (end_op s) (\<lambda>s. Ok (-1, s)))"

text \<open>The part of sys_unlink that has found the entry \<open>off\<close> of the parent and locked its inode.\<close>

definition unlink_entry :: "nat \<Rightarrow> nat \<Rightarrow> nat \<Rightarrow> 'a kern_scheme \<Rightarrow> (int \<times> 'a kern_scheme) res" where
  "unlink_entry dp ip off s =
     (if sint (i_nlink (icache s ip)) < 1 then Err (Panic ''unlink: nlink < 1'')
      else
        bindR (if i_type (icache s ip) = T_DIR then isdirempty ip s else Ok (True, s)) (\<lambda>(empty, s).
          if \<not> empty then bindR (iunlockput ip s) (unlink_bad dp)
          else
            bindR (writei dp (replicate DIRENT 0) (of_nat off) (of_nat DIRENT) s) (\<lambda>(r, s).
              if r \<noteq> int DIRENT then Err (Panic ''unlink: writei'')
              else
                bindR (if i_type (icache s ip) = T_DIR
                       then iupdate dp (upd_inode dp (\<lambda>i. i\<lparr>i_nlink := i_nlink i - 1\<rparr>) s) else Ok s) (\<lambda>s.
                bindR (iunlockput dp s) (\<lambda>s.
                bindR (iupdate ip (upd_inode ip (\<lambda>i. i\<lparr>i_nlink := i_nlink i - 1\<rparr>) s)) (\<lambda>s.
                bindR (iunlockput ip s) (\<lambda>s.
                bindR (end_op s) (\<lambda>s. Ok (0, s)))))))))"

definition sys_unlink :: "'a kern_scheme \<Rightarrow> (int \<times> 'a kern_scheme) res" where
  "sys_unlink s =
     bindR (argstr 0 s) (\<lambda>(a, s).
       case a of
         None \<Rightarrow> Ok (-1, s)
       | Some path \<Rightarrow>
           bindR (begin_op s) (\<lambda>s.
           bindR (nameiparent path (\<lambda>_. 0) s) (\<lambda>(dpo, name, s).
             case dpo of
               None \<Rightarrow> bindR (end_op s) (\<lambda>s. Ok (-1, s))
             | Some dp \<Rightarrow>
                 bindR (ilock dp s) (\<lambda>s.
                   if namecmp name (c_string (str ''.'')) = 0 \<or> namecmp name (c_string (str ''..'')) = 0
                   then unlink_bad dp s
                   else
                     bindR (dirlookup dp name s) (\<lambda>(r, s).
                       case r of
                         None \<Rightarrow> unlink_bad dp s
                       | Some (ip, off) \<Rightarrow> bindR (ilock ip s) (unlink_entry dp ip off))))))"

section \<open>Creation\<close>

text \<open>The new inode of create, once it is locked: its numbers, its dots, its name in the parent.\<close>

definition create_new :: "nat \<Rightarrow> bytes \<Rightarrow> nat \<Rightarrow> u16 \<Rightarrow> u16 \<Rightarrow> u16 \<Rightarrow> 'a kern_scheme \<Rightarrow> (nat option \<times> 'a kern_scheme) res" where
  "create_new dp name ip type major minor s =
     bindR (iupdate ip (upd_inode ip (\<lambda>i. i\<lparr>i_major := major, i_minor := minor, i_nlink := 1\<rparr>) s)) (\<lambda>s.
     bindR (if type = T_DIR then
              bindR (iupdate dp (upd_inode dp (\<lambda>i. i\<lparr>i_nlink := i_nlink i + 1\<rparr>) s)) (\<lambda>s.
              bindR (dirlink ip (c_string (str ''.'')) (i_inum (icache s ip)) s) (\<lambda>(r, s).
                if r < 0 then Err (Panic ''create dots'')
                else bindR (dirlink ip (c_string (str ''..'')) (i_inum (icache s dp)) s) (\<lambda>(r, s).
                  if r < 0 then Err (Panic ''create dots'') else Ok s)))
            else Ok s) (\<lambda>s.
     bindR (dirlink dp name (i_inum (icache s ip)) s) (\<lambda>(r, s).
       if r < 0 then Err (Panic ''create: dirlink'')
       else bindR (iunlockput dp s) (\<lambda>s. Ok (Some ip, s)))))"

definition create :: "u8 list \<Rightarrow> u16 \<Rightarrow> u16 \<Rightarrow> u16 \<Rightarrow> 'a kern_scheme \<Rightarrow> (nat option \<times> 'a kern_scheme) res" where
  "create path type major minor s =
     bindR (nameiparent path (\<lambda>_. 0) s) (\<lambda>(dpo, name, s).
       case dpo of
         None \<Rightarrow> Ok (None, s)
       | Some dp \<Rightarrow>
           bindR (ilock dp s) (\<lambda>s.
           bindR (dirlookup dp name s) (\<lambda>(r, s).
             case r of
               Some (ip, _) \<Rightarrow>
                 bindR (iunlockput dp s) (\<lambda>s.
                 bindR (ilock ip s) (\<lambda>s.
                   if type = T_FILE \<and> i_type (icache s ip) = T_FILE then Ok (Some ip, s)
                   else bindR (iunlockput ip s) (\<lambda>s. Ok (None, s))))
             | None \<Rightarrow>
                 bindR (ialloc (i_dev (icache s dp)) type s) (\<lambda>(ip, s).
                 bindR (ilock ip s) (create_new dp name ip type major minor)))))"

abbreviation (input) O_WRONLY :: u32 where "O_WRONLY \<equiv> 1"
abbreviation (input) O_RDWR :: u32 where "O_RDWR \<equiv> 2"
abbreviation (input) O_CREATE :: u32 where "O_CREATE \<equiv> 0x200"

text \<open>The inode that open works on, locked; or nothing.\<close>

definition open_inode :: "u8 list \<Rightarrow> u32 \<Rightarrow> 'a kern_scheme \<Rightarrow> (nat option \<times> 'a kern_scheme) res" where
  "open_inode path omode s =
     (if has omode O_CREATE then create path T_FILE 0 0 s
      else
        bindR (namei path s) (\<lambda>(ipo, s).
          case ipo of
            None \<Rightarrow> Ok (None, s)
          | Some ip \<Rightarrow>
              bindR (ilock ip s) (\<lambda>s.
                if i_type (icache s ip) = T_DIR \<and> omode \<noteq> 0
                then bindR (iunlockput ip s) (\<lambda>s. Ok (None, s))
                else Ok (Some ip, s))))"

definition open_file :: "nat \<Rightarrow> u32 \<Rightarrow> 'a kern_scheme \<Rightarrow> (int \<times> 'a kern_scheme) res" where
  "open_file ip omode s =
     (let (fo, s) = filealloc s
      in bindR (case fo of None \<Rightarrow> Ok (None, s) | Some f \<Rightarrow> fdalloc f s) (\<lambda>(fd, s).
         case (fo, fd) of
           (Some f, Some fd) \<Rightarrow>
             bindR (iunlock ip s) (\<lambda>s.
             bindR (end_op s) (\<lambda>s.
               Ok (int fd, upd_file f (\<lambda>x. x\<lparr>f_type := FD_INODE, f_ip := ip, f_off := 0,
                 f_readable := \<not> has omode O_WRONLY, f_writable := has omode O_WRONLY \<or> has omode O_RDWR\<rparr>) s)))
         | _ \<Rightarrow>
             bindR (close_opt fo s) (\<lambda>s.
             bindR (iunlockput ip s) (\<lambda>s.
             bindR (end_op s) (\<lambda>s. Ok (-1, s))))))"

definition sys_open :: "'a kern_scheme \<Rightarrow> (int \<times> 'a kern_scheme) res" where
  "sys_open s =
     bindR (argstr 0 s) (\<lambda>(a, s).
       case a of
         None \<Rightarrow> Ok (-1, s)
       | Some path \<Rightarrow>
           bindR (argint 1 s) (\<lambda>(m, s).
             case m of
               None \<Rightarrow> Ok (-1, s)
             | Some omode \<Rightarrow>
                 bindR (begin_op s) (\<lambda>s.
                 bindR (open_inode path omode s) (\<lambda>(ipo, s).
                   case ipo of
                     None \<Rightarrow> bindR (end_op s) (\<lambda>s. Ok (-1, s))
                   | Some ip \<Rightarrow> open_file ip omode s))))"

text \<open>The common end of mkdir and mknod.\<close>

definition put_created :: "nat option \<times> 'a kern_scheme \<Rightarrow> (int \<times> 'a kern_scheme) res" where
  "put_created = (\<lambda>(ipo, s).
     case ipo of
       None \<Rightarrow> bindR (end_op s) (\<lambda>s. Ok (-1, s))
     | Some ip \<Rightarrow> bindR (iunlockput ip s) (\<lambda>s. bindR (end_op s) (\<lambda>s. Ok (0, s))))"

definition sys_mkdir :: "'a kern_scheme \<Rightarrow> (int \<times> 'a kern_scheme) res" where
  "sys_mkdir s =
     bindR (begin_op s) (\<lambda>s.
     bindR (argstr 0 s) (\<lambda>(a, s).
     bindR (case a of None \<Rightarrow> Ok (None, s) | Some path \<Rightarrow> create path T_DIR 0 0 s) put_created))"

definition sys_mknod :: "'a kern_scheme \<Rightarrow> (int \<times> 'a kern_scheme) res" where
  "sys_mknod s =
     bindR (begin_op s) (\<lambda>s.
     bindR (argstr 0 s) (\<lambda>(a, s).
     bindR (case a of
         None \<Rightarrow> Ok (None, s)
       | Some path \<Rightarrow>
           bindR (argint 1 s) (\<lambda>(major, s).
             case major of
               None \<Rightarrow> Ok (None, s)
             | Some major \<Rightarrow>
                 bindR (argint 2 s) (\<lambda>(minor, s).
                   case minor of
                     None \<Rightarrow> Ok (None, s)
                   | Some minor \<Rightarrow> create path T_DEV (ucast major) (ucast minor) s))) put_created))"

definition sys_chdir :: "'a kern_scheme \<Rightarrow> (int \<times> 'a kern_scheme) res" where
  "sys_chdir s =
     bindR (myproc s) (\<lambda>cur.
     bindR (begin_op s) (\<lambda>s.
     bindR (argstr 0 s) (\<lambda>(a, s).
     bindR (case a of None \<Rightarrow> Ok (None, s) | Some path \<Rightarrow> namei path s) (\<lambda>(ipo, s).
       case ipo of
         None \<Rightarrow> bindR (end_op s) (\<lambda>s. Ok (-1, s))
       | Some ip \<Rightarrow>
           bindR (ilock ip s) (\<lambda>s.
             if i_type (icache s ip) \<noteq> T_DIR then bindR (iunlockput ip s) (\<lambda>s. bindR (end_op s) (\<lambda>s. Ok (-1, s)))
             else
               bindR (iunlock ip s) (\<lambda>s.
               bindR (case p_cwd (ptable s cur) of None \<Rightarrow> Err (BadAddr 0) | Some c \<Rightarrow> iput c s) (\<lambda>s.
               bindR (end_op s) (\<lambda>s.
                 Ok (0, upd_proc cur (\<lambda>p. p\<lparr>p_cwd := Some ip\<rparr>) s)))))))))"

text \<open>The loop of sys_exec over the argument vector, at most \<open>MAXARG\<close> entries.\<close>

primrec exec_args :: "nat \<Rightarrow> u32 \<Rightarrow> u8 list list \<Rightarrow> 'a kern_scheme \<Rightarrow> (u8 list list option \<times> 'a kern_scheme) res" where
  "exec_args 0 a argv s = Ok (None, s)"
| "exec_args (Suc n) a argv s =
     bindR (fetchint a s) (\<lambda>(w, s).
       case w of
         None \<Rightarrow> Ok (None, s)
       | Some uarg \<Rightarrow>
           if uarg = 0 then Ok (Some argv, s)
           else bindR (fetchstr uarg s) (\<lambda>(x, s).
             case x of None \<Rightarrow> Ok (None, s) | Some arg \<Rightarrow> exec_args n (a + 4) (argv @ [arg]) s))"

definition sys_exec :: "'a kern_scheme \<Rightarrow> (int \<times> 'a kern_scheme) res" where
  "sys_exec s =
     bindR (argstr 0 s) (\<lambda>(p, s).
       case p of
         None \<Rightarrow> Ok (-1, s)
       | Some path \<Rightarrow>
           bindR (argint 1 s) (\<lambda>(u, s).
             case u of
               None \<Rightarrow> Ok (-1, s)
             | Some uargv \<Rightarrow>
                 bindR (exec_args MAXARG uargv [] s) (\<lambda>(av, s).
                   case av of None \<Rightarrow> Ok (-1, s) | Some argv \<Rightarrow> exec path argv s)))"

definition clear_fd :: "nat \<Rightarrow> 'a kern_scheme \<Rightarrow> 'a kern_scheme res" where
  "clear_fd fd s = bindR (myproc s) (\<lambda>i. Ok (upd_proc i (\<lambda>p. p\<lparr>p_ofile := (p_ofile p)(fd := None)\<rparr>) s))"

definition sys_pipe :: "'a kern_scheme \<Rightarrow> (int \<times> 'a kern_scheme) res" where
  "sys_pipe s =
     bindR (argptr 0 8 s) (\<lambda>(p, s).
       case p of
         None \<Rightarrow> Ok (-1, s)
       | Some p \<Rightarrow>
           bindR (pipealloc s) (\<lambda>(fo, s).
             case fo of
               None \<Rightarrow> Ok (-1, s)
             | Some (rf, wrf) \<Rightarrow>
                 bindR (fdalloc rf s) (\<lambda>(fd0, s).
                 bindR (case fd0 of None \<Rightarrow> Ok (None, s) | Some _ \<Rightarrow> fdalloc wrf s) (\<lambda>(fd1, s).
                   case (fd0, fd1) of
                     (Some a, Some b) \<Rightarrow>
                       bindR (ustores p (word_bytes (of_nat a) @ word_bytes (of_nat b)) s) (\<lambda>s. Ok (0, s))
                   | _ \<Rightarrow>
                       bindR (case fd0 of None \<Rightarrow> Ok s | Some a \<Rightarrow> clear_fd a s) (\<lambda>s.
                       bindR (fileclose rf s) (\<lambda>s.
                       bindR (fileclose wrf s) (\<lambda>s. Ok (-1, s))))))))"

section \<open>The dispatcher\<close>

definition syscalls :: "nat \<Rightarrow> ('a kern_scheme \<Rightarrow> (int \<times> 'a kern_scheme) res) option" where
  "syscalls num =
     (if num = 1 then Some sys_fork else if num = 2 then Some sys_exit else if num = 3 then Some sys_wait
      else if num = 4 then Some sys_pipe else if num = 5 then Some sys_read else if num = 6 then Some sys_kill
      else if num = 7 then Some sys_exec else if num = 8 then Some sys_fstat else if num = 9 then Some sys_chdir
      else if num = 10 then Some sys_dup else if num = 11 then Some sys_getpid else if num = 12 then Some sys_sbrk
      else if num = 13 then Some sys_sleep else if num = 14 then Some sys_uptime else if num = 15 then Some sys_open
      else if num = 16 then Some sys_write else if num = 17 then Some sys_mknod else if num = 18 then Some sys_unlink
      else if num = 19 then Some sys_link else if num = 20 then Some sys_mkdir else if num = 21 then Some sys_close
      else if num = 22 then Some sys_getrss else if num = 23 then Some sys_getNumFreePages else None)"

text \<open>The result goes to %eax, unless the process exited and does not come back.\<close>

definition syscall :: "'a kern_scheme \<Rightarrow> 'a kern_scheme res" where
  "syscall s =
     bindR (myproc s) (\<lambda>cur.
       let num = sint (tf_eax (p_tf (ptable s cur)))
       in (case (if num > 0 then syscalls (nat num) else None) of
             Some f \<Rightarrow> bindR (f s) (\<lambda>(r, s).
                 Ok (if curproc s = None then s
                     else upd_proc cur (\<lambda>p. p\<lparr>p_tf := (p_tf p)\<lparr>tf_eax := of_int r\<rparr>\<rparr>) s))
           | None \<Rightarrow>
               bindR (cprintf (str ''%d %s: unknown sys call %d'' @ [10])
                 [Word (of_int (p_pid (ptable s cur))),
                  Str (Some (takeWhile (\<lambda>c. c \<noteq> 0) (bytes_of (p_name (ptable s cur)) 0 16))), Word (of_int num)] s) (\<lambda>s.
                 Ok (upd_proc cur (\<lambda>p. p\<lparr>p_tf := (p_tf p)\<lparr>tf_eax := -1\<rparr>\<rparr>) s))))"

end
