(* ===== verification/Trap.thy ===== *)
theory Trap
  imports Sysfile
begin

text \<open>
  The trap handler of trap.c: the interrupt descriptor table, system calls, page faults, device
  interrupts, and the end of a killed process. A handler that ends in the scheduler ends there; what it
  does after it runs again is \<open>trap_resume\<close>.
\<close>

unbundle bit_operations_syntax

abbreviation (input) TR_PGFLT :: u32 where "TR_PGFLT \<equiv> 14"
abbreviation (input) TR_IRQ0 :: u32 where "TR_IRQ0 \<equiv> 32"
abbreviation (input) TR_SYSCALL :: u32 where "TR_SYSCALL \<equiv> 64"

definition tvinit :: "'a kern_scheme \<Rightarrow> 'a kern_scheme" where
  "tvinit s = s\<lparr>idt := (\<lambda>i. if i < 256 then SETGATE False (of_nat SEG_KCODE * 8) (vectors s i) 0 else idt s i)
     (unat TR_SYSCALL := SETGATE True (of_nat SEG_KCODE * 8) (vectors s (unat TR_SYSCALL)) DPL_USER)\<rparr>"

definition from_user :: "trapframe \<Rightarrow> bool" where
  "from_user tf \<longleftrightarrow> tf_cs tf AND 3 = 3"

definition proc_name :: "nat \<Rightarrow> 'a kern_scheme \<Rightarrow> u8 list" where
  "proc_name i s = takeWhile (\<lambda>c. c \<noteq> 0) (bytes_of (p_name (ptable s i)) 0 16)"

text \<open>A process that was killed exits on its way back.\<close>

definition exit_if_killed :: "'a kern_scheme \<Rightarrow> 'a kern_scheme res" where
  "exit_if_killed s =
     (case curproc s of None \<Rightarrow> Ok s | Some i \<Rightarrow> if p_killed (ptable s i) then exit s else Ok s)"

definition trap_syscall :: "trapframe \<Rightarrow> 'a kern_scheme \<Rightarrow> 'a kern_scheme res" where
  "trap_syscall tf s =
     bindR (myproc s) (\<lambda>i.
       if p_killed (ptable s i) then exit s
       else bindR (syscall (upd_proc i (\<lambda>p. p\<lparr>p_tf := tf\<rparr>) s)) exit_if_killed)"

definition trap_other :: "trapframe \<Rightarrow> 'a kern_scheme \<Rightarrow> 'a kern_scheme res" where
  "trap_other tf s =
     (case curproc s of
        None \<Rightarrow>
          bindR (cprintf (str ''unexpected trap %d from cpu %d eip %x (cr2=0x%x)'' @ [10])
            [Word (tf_trapno tf), Word 0, Word (tf_eip tf), Word (cr2 s)] s) (\<lambda>s. Err (Panic ''trap''))
      | Some i \<Rightarrow>
          if tf_cs tf AND 3 = 0 then
            bindR (cprintf (str ''unexpected trap %d from cpu %d eip %x (cr2=0x%x)'' @ [10])
              [Word (tf_trapno tf), Word 0, Word (tf_eip tf), Word (cr2 s)] s) (\<lambda>s. Err (Panic ''trap''))
          else
            bindR (cprintf (str ''pid %d %s: trap %d err %d on cpu %d eip 0x%x addr 0x%x--kill proc'' @ [10])
              [Word (of_int (p_pid (ptable s i))), Str (Some (proc_name i s)), Word (tf_trapno tf), Word (tf_err tf),
               Word 0, Word (tf_eip tf), Word (cr2 s)] s) (\<lambda>s.
              Ok (upd_proc i (\<lambda>p. p\<lparr>p_killed := True\<rparr>) s)))"

text \<open>The switch on the trap number.\<close>

definition trap_dispatch :: "trapframe \<Rightarrow> 'a kern_scheme \<Rightarrow> 'a kern_scheme res" where
  "trap_dispatch tf s =
     (let no = tf_trapno tf
      in if no = TR_PGFLT then handle_page_fault (cr2 s) s
         else if no = TR_IRQ0 then Ok (wakeup ChTicks (s\<lparr>ticks := ticks s + 1\<rparr>))
         else if no = TR_IRQ0 + 14 then ideintr s
         else if no = TR_IRQ0 + 15 then Ok s
         else if no = TR_IRQ0 + 1 then kbdintr s
         else if no = TR_IRQ0 + 4 then uartintr s
         else if no = TR_IRQ0 + 7 \<or> no = TR_IRQ0 + 31 then
           cprintf (str ''cpu%d: spurious interrupt at %x:%x'' @ [10]) [Word 0, Word (ucast (tf_cs tf)), Word (tf_eip tf)] s
         else trap_other tf s)"

definition trap_resume :: "trapframe \<Rightarrow> 'a kern_scheme \<Rightarrow> 'a kern_scheme res" where
  "trap_resume tf s = (if from_user tf then exit_if_killed s else Ok s)"

definition trap :: "trapframe \<Rightarrow> 'a kern_scheme \<Rightarrow> 'a kern_scheme res" where
  "trap tf s =
     (if tf_trapno tf = TR_SYSCALL then trap_syscall tf s
      else
        bindR (trap_dispatch tf s) (\<lambda>s.
        bindR (trap_resume tf s) (\<lambda>s.
          case curproc s of
            None \<Rightarrow> Ok s
          | Some i \<Rightarrow>
              if p_state (ptable s i) = RUNNING \<and> tf_trapno tf = TR_IRQ0 then yield s
              else trap_resume tf s)))"

end
