(* ===== verification/Tty.thy ===== *)
theory Tty
  imports Console Ring
begin

text \<open>
  The console against its specification: output never leaves the screen, and the ring buffer of the
  input is the line editor that its users see.
\<close>

unbundle bit_operations_syntax

section \<open>The screen\<close>

definition cursor_ok :: "'a console_scheme \<Rightarrow> bool" where
  "cursor_ok s \<longleftrightarrow> 0 \<le> crt_pos s \<and> crt_pos s < 24 * 80"

lemma next_row:
  assumes "0 \<le> x" "x < 24 * 80"
  shows "x + (80 - x mod 80) \<le> (24 * 80 :: int)" "0 \<le> x + (80 - x mod 80)"
proof -
  have "x div 80 < 24" using assms by presburger
  moreover have "x = 80 * (x div 80) + x mod 80" by simp
  moreover have "0 \<le> x mod 80" "x mod 80 < 80" by simp_all
  ultimately show "x + (80 - x mod 80) \<le> 24 * 80" "0 \<le> x + (80 - x mod 80)" using assms by linarith+
qed

lemma bottom_row: "0 \<le> q \<Longrightarrow> q \<le> 24 * 80 \<Longrightarrow> (q :: int) div 80 \<ge> 24 \<longleftrightarrow> q = 24 * 80"
  by presburger

lemma cgaputc_ok:
  assumes "cursor_ok s"
  obtains s' where "cgaputc c s = Ok s'" "cursor_ok s'" "\<forall>i \<ge> 24 * 80. crt s' i = crt s i"
    "serial s' = serial s" "uart s' = uart s" "panicked s' = panicked s"
proof -
  have p: "0 \<le> crt_pos s" "crt_pos s < 24 * 80" using assms by (simp_all add: cursor_ok_def)
  define q where "q = (if c = 10 then crt_pos s + (80 - crt_pos s mod 80)
    else if c = BACKSPACE then (if crt_pos s > 0 then crt_pos s - 1 else crt_pos s) else crt_pos s + 1)"
  define m where "m = (if c = 10 \<or> c = BACKSPACE then crt s else (crt s)(nat (crt_pos s) := (of_int c AND 0xFF) OR 0x0700))"
  have q: "0 \<le> q" "q \<le> 24 * 80" using p next_row [OF p] unfolding q_def by (simp_all split: if_splits)
  have m: "\<forall>i \<ge> 24 * 80. m i = crt s i" using p by (auto simp: m_def)
  have eq: "cgaputc c s = Ok (if q div 80 \<ge> 24
      then s\<lparr>crt := (scroll (q - 80) m)(nat (q - 80) := 0x20 OR 0x0700), crt_pos := q - 80\<rparr>
      else s\<lparr>crt := m(nat q := 0x20 OR 0x0700), crt_pos := q\<rparr>)"
  proof -
    have "(if c = 10 then (crt_pos s + (80 - crt_pos s mod 80), crt s)
             else if c = BACKSPACE then (if crt_pos s > 0 then crt_pos s - 1 else crt_pos s, crt s)
             else (crt_pos s + 1, (crt s)(nat (crt_pos s) := (of_int c AND 0xFF) OR 0x0700))) = (q, m)"
      by (simp add: q_def m_def)
    then show ?thesis using q unfolding cgaputc_def Let_def by simp
  qed
  have hi: "q div 80 \<ge> 24 \<longleftrightarrow> q = 24 * 80" using q by (rule bottom_row)
  show thesis
  proof (cases "q = 24 * 80")
    case True
    then show thesis using m by (intro that [OF eq]) (auto simp: hi cursor_ok_def scroll_def Let_def)
  next
    case False
    then show thesis using m q by (intro that [OF eq]) (auto simp: hi cursor_ok_def)
  qed
qed

section \<open>Output\<close>

lemma consputc_ok:
  assumes "cursor_ok s" "\<not> panicked s"
  obtains s' where "consputc c s = Ok s'" "cursor_ok s'" "\<not> panicked s'" "\<forall>i \<ge> 24 * 80. crt s' i = crt s i"
    "uart s' = uart s" "c \<noteq> BACKSPACE \<Longrightarrow> serial s' = serial s @ (if uart s then [of_int c] else [])"
proof -
  define t where "t = (if c = BACKSPACE then uartputc 8 (uartputc 32 (uartputc 8 s)) else uartputc c s)"
  have t: "cursor_ok t" "crt t = crt s" "panicked t = panicked s" "uart t = uart s"
    "c \<noteq> BACKSPACE \<Longrightarrow> serial t = serial s @ (if uart s then [of_int c] else [])"
    using assms(1) by (simp_all add: t_def cursor_ok_def uartputc_def)
  from cgaputc_ok [OF t(1), of c] obtain s' where s': "cgaputc c t = Ok s'" "cursor_ok s'"
    "\<forall>i \<ge> 24 * 80. crt s' i = crt t i" "serial s' = serial t" "uart s' = uart t" "panicked s' = panicked t" .
  have "consputc c s = Ok s'" using s'(1) assms(2) by (simp add: consputc_def t_def)
  then show thesis using s' t assms(2) by (intro that) auto
qed

text \<open>
  C28. Writing to the console never panics and never leaves the screen: from a cursor in the first 24 rows
  every string of bytes is put out, the cursor stays in those rows, no cell behind them changes, and the
  serial line gets exactly the bytes, in order.
\<close>

theorem cputs_safe:
  assumes "cursor_ok s" and "\<not> panicked s"
  shows "\<exists>s'. cputs xs s = Ok s' \<and> cursor_ok s' \<and> \<not> panicked s' \<and> (\<forall>i \<ge> 24 * 80. crt s' i = crt s i) \<and>
    uart s' = uart s \<and> serial s' = serial s @ (if uart s then xs else [])"
  using assms
proof (induction xs arbitrary: s)
  case (Cons x xs)
  have x: "uint x \<noteq> BACKSPACE" using uint_lt2p [of x] by simp
  from consputc_ok [OF Cons.prems, of "uint x"] x obtain s1 where s1: "consputc (uint x) s = Ok s1" "cursor_ok s1"
    "\<not> panicked s1" "\<forall>i \<ge> 24 * 80. crt s1 i = crt s i" "uart s1 = uart s"
    "serial s1 = serial s @ (if uart s then [of_int (uint x)] else [])" by metis
  from Cons.IH [OF s1(2,3)] s1 show ?case by (auto simp: cputs_def)
qed (simp add: cputs_def)

section \<open>Line editing\<close>

declare kill_line.simps [simp del]

text \<open>
  The input as two lists: what readers may take, and the line that is still being edited.
\<close>

interpretation iring: ring 128
  by unfold_locales simp_all

definition ready :: "'a console_scheme \<Rightarrow> u8 list" where
  "ready s = ring_q 128 (input_buf s) (input_r s) (input_w s)"

definition editing :: "'a console_scheme \<Rightarrow> u8 list" where
  "editing s = ring_q 128 (input_buf s) (input_w s) (input_e s)"

definition input_ok :: "'a console_scheme \<Rightarrow> bool" where
  "input_ok s \<longleftrightarrow> unat (input_w s - input_r s) \<le> unat (input_e s - input_r s) \<and>
     unat (input_e s - input_r s) \<le> 128 \<and> 10 \<notin> set (editing s)"

text \<open>What the interrupt handler does with a character, on the lists.\<close>

definition edit :: "int \<Rightarrow> u8 list \<times> u8 list \<Rightarrow> u8 list \<times> u8 list" where
  "edit c = (\<lambda>(q, p).
     if c = ctl CHR ''P'' then (q, p)
     else if c = ctl CHR ''U'' then (q, [])
     else if c = ctl CHR ''H'' \<or> c = 0x7F then (q, butlast p)
     else if c \<noteq> 0 \<and> length q + length p < 128 then
       (let x = (if c = 13 then 10 else of_int c); p = p @ [x]
        in if x = 10 \<or> c = ctl CHR ''D'' \<or> length q + length p = 128 then (q @ p, []) else (q, p))
     else (q, p))"

lemma count_split:
  assumes "input_ok s"
  shows "unat (input_e s - input_r s) = length (ready s) + length (editing s)"
  using arg_cong [OF ring_q_split, of "input_w s" "input_r s" "input_e s" length 128 "input_buf s"] assms
  by (simp add: ready_def editing_def input_ok_def)

lemma at_buf_slot: "at_buf i s = input_buf s (unat i mod 128)"
  by (simp add: at_buf_def unat_mod)

lemma erase_one:
  assumes "input_ok s" "input_e s \<noteq> input_w s"
  defines "t \<equiv> s\<lparr>input_e := input_e s - 1\<rparr>"
  shows "input_ok t" "ready t = ready s" "editing t = butlast (editing s)" "at_buf (input_e s - 1) s \<noteq> 10"
proof -
  have e: "editing s = ring_q 128 (input_buf s) (input_w s) (input_e s - 1) @ [at_buf (input_e s - 1) s]"
    unfolding editing_def at_buf_slot using assms(2) by (rule ring_q_pred)
  then show bl: "editing t = butlast (editing s)" by (simp add: editing_def t_def)
  show rd: "ready t = ready s" by (simp add: ready_def t_def)
  show "at_buf (input_e s - 1) s \<noteq> 10" using e assms(1) by (auto simp: input_ok_def)
  have ne: "input_e s \<noteq> input_r s"
  proof
    assume er: "input_e s = input_r s"
    then have "unat (input_w s - input_r s) = 0" using assms(1) by (simp add: input_ok_def)
    then have "input_w s = input_r s" by (simp add: unat_eq_0)
    with er assms(2) show False by simp
  qed
  have "unat (input_e s - input_r s) = Suc (unat (input_e s - 1 - input_r s))" using ne by (rule ring_count_pred)
  moreover have "1 \<le> length (editing s)" using e by simp
  ultimately have "unat (input_w s - input_r s) \<le> unat (input_e s - 1 - input_r s)"
    using count_split [OF assms(1)] by (simp add: ready_def)
  then show "input_ok t" using assms(1) bl \<open>unat (input_e s - input_r s) = _\<close>
    by (auto simp: input_ok_def t_def dest: in_set_butlastD)
qed

lemma consputc_keeps:
  assumes "consputc c s = Ok s'"
  shows "ready s' = ready s" "editing s' = editing s" "input_ok s' = input_ok s"
  using consputc_input [OF assms] by (simp_all add: ready_def editing_def input_ok_def)

lemma kill_line_spec:
  assumes "input_ok s" "cursor_ok s" "\<not> panicked s"
  shows "\<exists>s'. kill_line s = Ok s' \<and> input_ok s' \<and> cursor_ok s' \<and> \<not> panicked s' \<and> ready s' = ready s \<and> editing s' = []"
  using assms
proof (induction s rule: kill_line.induct)
  case (1 s)
  show ?case
  proof (cases "input_e s = input_w s")
    case True
    then show ?thesis using 1 by (subst kill_line.simps) (simp add: editing_def)
  next
    case False
    let ?t = "s\<lparr>input_e := input_e s - 1\<rparr>"
    note e = erase_one [OF 1(2) False]
    have "cursor_ok ?t" "\<not> panicked ?t" using 1 by (simp_all add: cursor_ok_def)
    from consputc_ok [OF this, of BACKSPACE] obtain u where u: "consputc BACKSPACE ?t = Ok u" "cursor_ok u" "\<not> panicked u" .
    note k = consputc_keeps [OF u(1)]
    have "\<exists>s'. kill_line u = Ok s' \<and> input_ok s' \<and> cursor_ok s' \<and> \<not> panicked s' \<and> ready s' = ready u \<and> editing s' = []"
      using 1(1) [OF _ u(1)] False e u k by simp
    then show ?thesis using False e u(1) k by (subst kill_line.simps) simp
  qed
qed

text \<open>A character that goes into the buffer.\<close>

lemma insert_one:
  fixes s :: "'a console_scheme" and x :: u8
  assumes "input_ok s" "input_e s - input_r s < INPUT_BUF"
  defines "t \<equiv> s\<lparr>input_buf := (input_buf s)(unat (input_e s mod INPUT_BUF) := x), input_e := input_e s + 1\<rparr>"
  shows "ready t = ready s" "editing t = editing s @ [x]"
    "unat (input_w t - input_r t) \<le> unat (input_e t - input_r t)" "unat (input_e t - input_r t) \<le> 128"
    "unat (input_e t - input_r t) = length (ready s) + length (editing s) + 1"
proof -
  have lt: "unat (input_e s - input_r s) < 128" using assms(2) by (simp add: word_less_nat_alt)
  have le: "unat (input_w s - input_r s) \<le> unat (input_e s - input_r s)" using assms(1) by (simp add: input_ok_def)
  show "ready t = ready s" using iring.keep [OF lt le] by (simp add: ready_def t_def unat_mod)
  have "unat (input_e s - input_w s) < 128" using lt count_split [OF assms(1)] by (simp add: editing_def)
  from iring.push [OF this] show "editing t = editing s @ [x]" by (simp add: editing_def t_def unat_mod)
  have "unat (input_e s + 1 - input_r s) = Suc (unat (input_e s - input_r s))"
    using arg_cong [OF iring.push [OF lt, of "\<lambda>_. 0 :: nat"], of length] by simp
  then show "unat (input_w t - input_r t) \<le> unat (input_e t - input_r t)" "unat (input_e t - input_r t) \<le> 128"
    "unat (input_e t - input_r t) = length (ready s) + length (editing s) + 1"
    using lt le count_split [OF assms(1)] by (simp_all add: t_def)
qed


lemma commit_line:
  assumes "unat (input_w t - input_r t) \<le> unat (input_e t - input_r t)" "unat (input_e t - input_r t) \<le> 128"
  defines "u \<equiv> wakeup ChInput (t\<lparr>input_w := input_e t\<rparr>)"
  shows "ready u = ready t @ editing t" "editing u = []" "input_ok u" "cursor_ok u = cursor_ok t" "panicked u = panicked t"
  using ring_q_split [OF assms(1), of 128 "input_buf t"] assms(2)
  by (simp_all add: u_def ready_def editing_def input_ok_def cursor_ok_def wakeup_def wakeup1_def)

lemma console_insert:
  assumes ok: "input_ok s" "cursor_ok s" "\<not> panicked s" and c: "0 \<le> c" "c < 256"
    and ne: "c \<noteq> ctl CHR ''P''" "c \<noteq> ctl CHR ''U''" "c \<noteq> ctl CHR ''H''" "c \<noteq> 0x7F"
  shows "\<exists>s'. console_char c (d, s) = Ok (d, s') \<and> (ready s', editing s') = edit c (ready s, editing s) \<and>
    input_ok s' \<and> cursor_ok s' \<and> \<not> panicked s'"
proof (cases "c \<noteq> 0 \<and> input_e s - input_r s < INPUT_BUF")
  case False
  have "(input_e s - input_r s < INPUT_BUF) = (length (ready s) + length (editing s) < 128)"
    using count_split [OF ok(1)] by (simp add: word_less_nat_alt)
  with False ne ok show ?thesis by (auto simp: console_char_def edit_def)
next
  case True
  define k where "k = (if c = 13 then 10 else c)"
  define t where "t = s\<lparr>input_buf := (input_buf s)(unat (input_e s mod INPUT_BUF) := of_int k), input_e := input_e s + 1\<rparr>"
  have lt: "length (ready s) + length (editing s) < 128"
    using True count_split [OF ok(1)] by (simp add: word_less_nat_alt)
  note t = insert_one [OF ok(1) True [THEN conjunct2], of "of_int k", folded t_def]
  have "cursor_ok t" "\<not> panicked t" using ok by (simp_all add: t_def cursor_ok_def)
  from consputc_ok [OF this, of k] obtain u where u: "consputc k t = Ok u" "cursor_ok u" "\<not> panicked u" .
  note ui = consputc_input [OF u(1)] and uk = consputc_keeps [OF u(1)]
  have "uint (of_int k :: u8) = k" using c by (simp add: k_def unsigned_of_int take_bit_int_eq_self)
  then have k10: "(of_int k :: u8) = 10 \<longleftrightarrow> k = 10" by auto
  have full: "input_e u = input_r u + INPUT_BUF \<longleftrightarrow> length (ready s) + length (editing s) + 1 = 128"
  proof -
    have "input_e t = input_r t + 128 \<longleftrightarrow> input_e t - input_r t = 128" by (simp add: diff_eq_eq add.commute)
    also have "\<dots> \<longleftrightarrow> unat (input_e t - input_r t) = 128" by (simp add: word_unat_eq_iff)
    finally show ?thesis using t(5) unfolding ui by simp
  qed
  define x where "x = (of_int k :: u8)"
  have kd: "k = ctl CHR ''D'' \<longleftrightarrow> c = ctl CHR ''D''" by (auto simp: k_def ctl_def of_char_def)
  have cc: "console_char c (d, s) = (if x = 10 \<or> c = ctl CHR ''D'' \<or> length (ready s) + length (editing s) + 1 = 128
      then Ok (d, wakeup ChInput (u\<lparr>input_w := input_e u\<rparr>)) else Ok (d, u))"
    using True ne u(1) full kd k10 by (simp add: console_char_def t_def k_def x_def Let_def)
  have ed: "edit c (ready s, editing s) = (if x = 10 \<or> c = ctl CHR ''D'' \<or> length (ready s) + length (editing s) + 1 = 128
      then (ready s @ editing s @ [x], []) else (ready s, editing s @ [x]))"
    using True ne lt by (auto simp: edit_def x_def k_def Let_def)
  show ?thesis
  proof (cases "x = 10 \<or> c = ctl CHR ''D'' \<or> length (ready s) + length (editing s) + 1 = 128")
    case True
    then show ?thesis using cc ed commit_line [of u] t u uk ui by (simp add: x_def)
  next
    case False
    then have "input_ok u" using t uk ui ok(1) by (simp add: input_ok_def x_def)
    then show ?thesis using False cc ed t u uk by (simp add: x_def)
  qed
qed

text \<open>
  C26. The console's line editor does on its ring buffer what the list operations of \<open>edit\<close> say: characters
  go to the end of the line, backspace and ^U take the last one or all of them, the end of a line or a
  full buffer hands the line to the readers, whatever the values of the 32-bit indices; and it returns.
\<close>

theorem console_editing:
  assumes ok: "input_ok s" "cursor_ok s" "\<not> panicked s" and c: "0 \<le> c" "c < 256"
  shows "\<exists>d' s'. console_char c (d, s) = Ok (d', s') \<and> (ready s', editing s') = edit c (ready s, editing s) \<and>
    input_ok s' \<and> cursor_ok s' \<and> \<not> panicked s'"
proof -
  consider "c = ctl CHR ''P''" | "c = ctl CHR ''U''" | "c = ctl CHR ''H'' \<or> c = 0x7F"
    | "c \<noteq> ctl CHR ''P''" "c \<noteq> ctl CHR ''U''" "c \<noteq> ctl CHR ''H''" "c \<noteq> 0x7F" by blast
  then show ?thesis
  proof cases
    case 1
    then have "console_char c (d, s) = Ok (True, s)" by (simp add: console_char_def)
    moreover have "(ready s, editing s) = edit c (ready s, editing s)" using 1 by (simp add: edit_def)
    ultimately show ?thesis using ok by blast
  next
    case 2
    then have "c \<noteq> ctl CHR ''P''" by (simp add: ctl_def of_char_def)
    with 2 kill_line_spec [OF ok] show ?thesis by (auto simp: console_char_def edit_def)
  next
    case 3
    then have ne: "c \<noteq> ctl CHR ''P''" "c \<noteq> ctl CHR ''U''" by (auto simp: ctl_def of_char_def)
    show ?thesis
    proof (cases "input_e s = input_w s")
      case True
      then have "editing s = []" by (simp add: editing_def)
      with 3 ne True ok show ?thesis by (auto simp: console_char_def edit_def)
    next
      case False
      note e = erase_one [OF ok(1) False]
      have "cursor_ok (s\<lparr>input_e := input_e s - 1\<rparr>)" "\<not> panicked (s\<lparr>input_e := input_e s - 1\<rparr>)"
        using ok by (simp_all add: cursor_ok_def)
      from consputc_ok [OF this, of BACKSPACE] obtain u where
        u: "consputc BACKSPACE (s\<lparr>input_e := input_e s - 1\<rparr>) = Ok u" "cursor_ok u" "\<not> panicked u" .
      with 3 ne False e consputc_keeps [OF u(1)] show ?thesis by (auto simp: console_char_def edit_def)
    qed
  next
    case 4
    then show ?thesis using console_insert [OF ok c 4] by blast
  qed
qed

section \<open>Reading a line\<close>

lemma at_ready:
  assumes "input_r s \<noteq> input_w s"
  shows "ready s = at_buf (input_r s) s # ready (s\<lparr>input_r := input_r s + 1\<rparr>)"
  using iring.pop [OF assms] by (simp add: ready_def at_buf_slot)

lemma ready_Nil_iff: "ready s = [] \<longleftrightarrow> input_r s = input_w s"
  by (auto simp: ready_def ring_q_Nil_iff)

text \<open>
  What a read of \<open>n\<close> bytes takes from the input that is ready, and what it leaves: the bytes up to a newline or
  a ^D, no more than \<open>n\<close>. The newline is taken too; the ^D is taken only if nothing stands before it, and
  \<open>b\<close> says that bytes were taken before. Without a newline, a ^D or \<open>n\<close> bytes there is no result yet.
\<close>

definition line_of :: "bool \<Rightarrow> nat \<Rightarrow> u8 list \<Rightarrow> (u8 list \<times> u8 list) option" where
  "line_of b n xs =
     (let k = length (takeWhile (\<lambda>c. c \<noteq> 10 \<and> c \<noteq> 4) xs)
      in if n \<le> k then Some (take n xs, drop n xs)
         else if k = length xs then None
         else if xs ! k = 10 then Some (take (k + 1) xs, drop (k + 1) xs)
         else Some (take k xs, drop (if b \<or> 0 < k then k else 1) xs))"

lemma line_of_simps:
  "line_of b 0 xs = Some ([], xs)" "line_of b (Suc n) [] = None"
  "line_of b (Suc n) (c # xs) =
     (if c = 4 then Some ([], if b then c # xs else xs)
      else if c = 10 then Some ([c], xs)
      else map_option (\<lambda>(ys, rest). (c # ys, rest)) (line_of True n xs))"
  by (auto simp: line_of_def Let_def)

lemma is_ctl_D: "uint c = ctl CHR ''D'' \<longleftrightarrow> c = (4 :: u8)"
  using word_uint_eq_iff [of c 4] by (simp add: ctl_def of_char_def)

lemma cread_line_of:
  "\<exists>s'. cread_loop n (length acc + n) killed acc s =
      (case line_of (acc \<noteq> []) n (ready s) of
         Some (xs, rest) \<Rightarrow> (Finished, acc @ xs, s') | None \<Rightarrow> (if killed then Killed else Blocked, acc @ ready s, s')) \<and>
    ready s' = (case line_of (acc \<noteq> []) n (ready s) of Some (xs, rest) \<Rightarrow> rest | None \<Rightarrow> [])"
proof (induction n arbitrary: acc s)
  case 0
  show ?case by (simp add: line_of_simps)
next
  case (Suc n)
  show ?case
  proof (cases "input_r s = input_w s")
    case True
    then have "ready s = []" by (simp add: ready_Nil_iff)
    with True show ?thesis by (auto simp: line_of_simps)
  next
    case False
    let ?t = "s\<lparr>input_r := input_r s + 1\<rparr>" and ?c = "at_buf (input_r s) s"
    note r = at_ready [OF False]
    consider "?c = 4" | "?c = 10" | "?c \<noteq> 4" "?c \<noteq> 10" by blast
    then show ?thesis
    proof cases
      case 3
      then have e: "cread_loop (Suc n) (length acc + Suc n) killed acc s = cread_loop n (length (acc @ [?c]) + n) killed (acc @ [?c]) ?t"
        "line_of b (Suc n) (ready s) = map_option (\<lambda>(ys, rest). (?c # ys, rest)) (line_of True n (ready ?t))" for b
        using False by (simp_all add: is_ctl_D Let_def r line_of_simps)
      show ?thesis using Suc.IH [of "acc @ [?c]" ?t] unfolding e
        by (cases "line_of True n (ready ?t)") (auto simp: r)
    qed (use False in \<open>simp_all add: is_ctl_D Let_def r line_of_simps\<close>)
  qed
qed

text \<open>
  C27. A reader of the console gets its input a line at a time. A read of \<open>n\<close> bytes returns at once with the
  bytes that are ready up to a newline, the newline included, or up to a ^D, or with the first \<open>n\<close> of them if
  neither comes earlier, and leaves the rest for the next read. A ^D is left too if it follows
  other bytes, so that the next read returns nothing, which is the end of the file. If the input ends before any of
  this, the read sleeps for more, or ends when the process was killed, having used what was ready.
\<close>

theorem console_read_line:
  "\<exists>s'. cread_loop n n killed [] s =
      (case line_of False n (ready s) of
         Some (xs, rest) \<Rightarrow> (Finished, xs, s') | None \<Rightarrow> (if killed then Killed else Blocked, ready s, s')) \<and>
    ready s' = (case line_of False n (ready s) of Some (xs, rest) \<Rightarrow> rest | None \<Rightarrow> [])"
  using cread_line_of [of n "[]" killed s] by (simp only: list.size add_0 append_Nil refl not_True_eq_False)

definition quiet_console :: console where
  "quiet_console = (quiet_cons (\<lambda>_. zero_proc) (\<lambda>_ _ _. 0) ())
     \<lparr>crt_pos := 1919, input_buf := (\<lambda>_. 0)(126 := 108, 127 := 115, 0 := 10, 1 := 120), input_r := 0xFFFFFFFE,
      input_w := 1, input_e := 2\<rparr>"

lemma quiet_sel:
  "input_r quiet_console = 0xFFFFFFFE" "input_w quiet_console = 1" "input_e quiet_console = 2"
  "input_buf quiet_console = (\<lambda>_. 0)(126 := 108, 127 := 115, 0 := 10, 1 := 120)"
  "crt_pos quiet_console = 1919" "\<not> panicked quiet_console" "uart quiet_console" "serial quiet_console = []"
  by (simp_all add: quiet_console_def quiet_defs)

lemma quiet_input: "ready quiet_console = [108, 115, 10]" "editing quiet_console = [120]"
  "input_ok quiet_console" "cursor_ok quiet_console"
proof -
  show "ready quiet_console = [108, 115, 10]"
    by (simp add: ready_def ring_q_def quiet_sel upt_rec)
  show e: "editing quiet_console = [120]" by (simp add: editing_def ring_q_def quiet_sel)
  show "input_ok quiet_console" "cursor_ok quiet_console" by (simp_all add: input_ok_def e) (simp_all add: quiet_sel cursor_ok_def)
qed

theorem console_editing_witness:
  "\<exists>d' s'. console_char 13 (False, quiet_console) = Ok (d', s') \<and> ready s' = [108, 115, 10, 120, 10] \<and> editing s' = []"
proof -
  have "edit 13 ([108, 115, 10], [120]) = ([108, 115, 10, 120, 10], [])"
    by (simp add: edit_def ctl_def of_char_def)
  then show ?thesis using console_editing [OF quiet_input(3,4) quiet_sel(6), of 13 False] by (auto simp: quiet_input)
qed

theorem cputs_safe_witness:
  "\<exists>s'. cputs (replicate 5000 65) quiet_console = Ok s' \<and> cursor_ok s' \<and> serial s' = replicate 5000 65"
  using cputs_safe [OF quiet_input(4) quiet_sel(6), of "replicate 5000 65"] by (auto simp: quiet_sel)

end
