(* ===== verification/Sched.thy ===== *)
theory Sched
  imports Proc
begin

text \<open>
  The scheduler over many turns: it is fair, at most one process runs at a time, and sleeping processes
  wait for their wakeup.
\<close>

unbundle bit_operations_syntax

section \<open>Fairness\<close>

text \<open>How many entries the scan visits after \<open>p\<close> before it comes to \<open>q\<close>.\<close>

definition turns :: "nat \<Rightarrow> nat \<Rightarrow> nat" where
  "turns p q = (if p < q then q - p - 1 else q + NPROC - p - 1)"

lemma find_append: "List.find P (xs @ ys) = (case List.find P xs of None \<Rightarrow> List.find P ys | Some x \<Rightarrow> Some x)"
  by (induction xs) auto

lemma find_upt:
  "List.find P [a..<b] = Some x \<Longrightarrow> a \<le> x \<and> x < b \<and> P x \<and> (\<forall>y. a \<le> y \<and> y < x \<longrightarrow> \<not> P y)"
proof (induction b arbitrary: x)
  case (Suc b)
  show ?case
  proof (cases "List.find P [a..<b]")
    case None
    then have "\<forall>y. a \<le> y \<and> y < b \<longrightarrow> \<not> P y" by (auto simp: find_None_iff)
    then show ?thesis using Suc.prems None by (auto simp: find_append split: if_splits)
  next
    case (Some y)
    then have "x = y" using Suc.prems by (auto simp: find_append split: if_splits)
    then show ?thesis using Suc.IH [OF Some] by auto
  qed
qed simp

lemma scan_closer:
  assumes sc: "scan_next p s = Some p'" and p: "p < NPROC" and q: "q < NPROC" "p_state (ptable s q) = RUNNABLE"
  shows "p' < NPROC" "p_state (ptable s p') = RUNNABLE" "p' = q \<or> turns p' q < turns p q"
proof -
  let ?P = "\<lambda>i. p_state (ptable s i) = RUNNABLE"
  have "p' < NPROC \<and> ?P p' \<and> (p' = q \<or> turns p' q < turns p q)"
  proof (cases "List.find ?P [Suc p..<NPROC]")
    case None
    then have nr: "\<forall>y. p < y \<and> y < NPROC \<longrightarrow> \<not> ?P y" by (auto simp: find_None_iff)
    have "List.find ?P [0..<NPROC] = Some p'" using sc None by (simp add: scan_next_def find_append)
    from find_upt [OF this] have p': "p' < NPROC" "?P p'" "\<forall>y < p'. \<not> ?P y" by auto
    have "q \<le> p" "p' \<le> q" using nr q p'(3) by (meson not_less)+
    then show ?thesis using p' p by (auto simp: turns_def)
  next
    case (Some x)
    then have "x = p'" using sc by (simp add: scan_next_def find_append)
    with find_upt [OF Some] have p': "p < p'" "p' < NPROC" "?P p'" "\<forall>y. p < y \<and> y < p' \<longrightarrow> \<not> ?P y" by auto
    have "q = p' \<or> p' < q \<or> q \<le> p" using p'(4) q by (meson not_less_iff_gr_or_eq not_less)
    then show ?thesis using p' q(1) by (auto simp: turns_def)
  qed
  then show "p' < NPROC" "?P p'" "p' = q \<or> turns p' q < turns p q" by auto
qed

text \<open>
  C6. The scheduler is fair: a process that stays runnable is chosen after at most NPROC choices, whatever
  the other processes do in between.
\<close>

theorem scheduler_fair:
  assumes sc: "\<forall>k. scan_next (pick k) (st k) = Some (pick (Suc k))" and p: "pick 0 < NPROC"
    and q: "q < NPROC" "\<forall>k \<le> NPROC. p_state (ptable (st k) q) = RUNNABLE"
  shows "\<exists>k \<le> NPROC. pick (Suc k) = q"
proof (rule ccontr)
  assume no: "\<not> (\<exists>k \<le> NPROC. pick (Suc k) = q)"
  have "pick k < NPROC \<and> turns (pick k) q + k \<le> turns (pick 0) q" if "k \<le> NPROC" for k
    using that
  proof (induction k)
    case 0
    then show ?case using p by simp
  next
    case (Suc k)
    then have ih: "pick k < NPROC" "turns (pick k) q + k \<le> turns (pick 0) q" and k: "k \<le> NPROC" by auto
    note c = scan_closer [OF sc [rule_format] ih(1) q(1) q(2) [rule_format, OF k]]
    have "turns (pick (Suc k)) q < turns (pick k) q" using c(3) no k by blast
    then show ?case using ih(2) c(1) by linarith
  qed
  from this [of NPROC] have "NPROC \<le> turns (pick 0) q" by simp
  then show False using p q(1) by (auto simp: turns_def split: if_splits)
qed

theorem scheduler_fair_witness:
  "\<exists>s :: kern. \<exists>pick. (\<forall>k. scan_next (pick k) s = Some (pick (Suc k))) \<and> p_state (ptable s 5) = RUNNABLE \<and>
     (\<exists>k \<le> NPROC. pick (Suc k) = 5)"
proof -
  define s :: kern where "s = quiet_kern (\<lambda>i. if i = 5 then zero_proc\<lparr>p_state := RUNNABLE\<rparr> else zero_proc)"
  have st: "p_state (ptable s i) = (if i = 5 then RUNNABLE else UNUSED)" for i
    by (simp add: s_def quiet_kern_def quiet_defs zero_proc_def)
  have n: "List.find (\<lambda>i. p_state (ptable s i) = RUNNABLE) [Suc 5..<NPROC] = None"
    by (simp only: find_None_iff st set_upt) auto
  have "List.find (\<lambda>i. p_state (ptable s i) = RUNNABLE) [0..<NPROC] \<noteq> None"
    by (simp only: find_None_iff st set_upt) auto
  then have "\<exists>x. List.find (\<lambda>i. p_state (ptable s i) = RUNNABLE) [0..<NPROC] = Some x" by (simp only: not_None_eq)
  then obtain x where x: "List.find (\<lambda>i. p_state (ptable s i) = RUNNABLE) [0..<NPROC] = Some x" ..
  then have "x = 5" using find_upt [OF x] by (simp only: st split: if_splits) simp
  then have "scan_next 5 s = Some 5" using n x by (simp only: scan_next_def find_append option.case)
  then have n: "\<forall>k. scan_next ((\<lambda>k. 5) k) ((\<lambda>k. s) k) = Some ((\<lambda>k. 5) (Suc k))" by simp
  from scheduler_fair [OF this, of 5] n st show ?thesis by (intro exI [of _ s] exI [of _ "\<lambda>k. 5"]) simp
qed

section \<open>Scheduling states\<close>

text \<open>The moves of the scheduler, of running processes and of interrupt handlers.\<close>

inductive kstep :: "'a kern_scheme \<Rightarrow> 'a kern_scheme \<Rightarrow> bool" where
  turn: "curproc s = None \<Longrightarrow> prev < NPROC \<Longrightarrow> scheduler_turn prev s = Ok t \<Longrightarrow> kstep s t"
| give_up: "yield s = Ok t \<Longrightarrow> kstep s t"
| go_to_sleep: "sleep ch s = Ok t \<Longrightarrow> kstep s t"
| wake: "kstep s (wakeup ch s)"
| kill_one: "kill pid s = (r, t) \<Longrightarrow> kstep s t"

inductive ksteps :: "'a kern_scheme \<Rightarrow> 'a kern_scheme \<Rightarrow> bool" where
  start: "ksteps s s"
| more: "ksteps s t \<Longrightarrow> kstep t u \<Longrightarrow> ksteps s u"

inductive_cases kstepE: "kstep s t"

text \<open>
  The running process is the current one and nobody else runs; its page table is the one loaded, and
  the kernel's own is when nobody runs.
\<close>

definition sched_inv :: "'a kern_scheme \<Rightarrow> bool" where
  "sched_inv s \<longleftrightarrow> (\<forall>i. p_state (ptable s i) = RUNNING \<longleftrightarrow> curproc s = Some i) \<and>
     cr3 s = (case curproc s of None \<Rightarrow> V2P (kpgdir s) | Some i \<Rightarrow> V2P (p_pgdir (ptable s i)))"

lemma sched_eq:
  "sched s = (case curproc s of None \<Rightarrow> Err (BadAddr 0) | Some i \<Rightarrow>
     if p_state (ptable s i) = RUNNING then Err (Panic ''sched running'')
     else Ok (s\<lparr>cr3 := V2P (kpgdir s), curproc := None\<rparr>))"
  by (simp add: sched_def myproc_def switchkvm_def lcr3_def split: option.split)

lemma sched_spec:
  assumes "sched s = Ok t"
  shows "t = s\<lparr>cr3 := V2P (kpgdir s), curproc := None\<rparr>"
  using assms by (simp add: sched_eq split: option.splits if_splits)

lemma dispatch_spec:
  assumes "dispatch p s = Ok t"
  shows "ptable t = (ptable s)(p := (ptable s p)\<lparr>p_state := RUNNING\<rparr>)" "curproc t = Some p"
    "cr3 t = V2P (p_pgdir (ptable s p))"
proof -
  obtain u where u: "switchuvm (Some p) (s\<lparr>curproc := Some p\<rparr>) = Ok u"
    and t: "t = upd_proc p (\<lambda>q. q\<lparr>p_state := RUNNING\<rparr>) u"
    using assms by (cases "switchuvm (Some p) (s\<lparr>curproc := Some p\<rparr>)") (simp_all add: dispatch_def)
  have "ptable u = ptable s \<and> curproc u = Some p \<and> cr3 u = V2P (p_pgdir (ptable s p))"
    using arg_cong [OF u, of "case_res (\<lambda>_. (ptable s, Some p, V2P (p_pgdir (ptable s p)))) (\<lambda>u. (ptable u, curproc u, cr3 u))"]
    by (auto simp: switchuvm_def lcr3_def split: if_splits)
  then show "ptable t = (ptable s)(p := (ptable s p)\<lparr>p_state := RUNNING\<rparr>)" "curproc t = Some p"
    "cr3 t = V2P (p_pgdir (ptable s p))" by (simp_all add: t upd_proc_def)
qed

lemma current_awake:
  assumes "sched_inv s" "curproc s = Some i"
  shows "p_state (ptable s i) \<noteq> SLEEPING"
proof -
  have "p_state (ptable s i) = RUNNING" using assms by (simp add: sched_inv_def)
  then show ?thesis by simp
qed

lemma kstep_inv: "kstep s t \<Longrightarrow> sched_inv s \<Longrightarrow> sched_inv t"
proof (induction rule: kstep.induct)
  case (turn s prev t)
  show ?case
  proof (cases "scan_next prev s")
    case (Some p)
    then have d: "dispatch p s = Ok t" using turn by (simp add: scheduler_turn_def)
    show ?thesis using turn dispatch_spec [OF d] by (auto simp: sched_inv_def)
  qed (use turn in \<open>simp add: scheduler_turn_def\<close>)
next
  case (give_up s t)
  then obtain i where i: "curproc s = Some i" "sched (upd_proc i (\<lambda>p. p\<lparr>p_state := RUNNABLE\<rparr>) s) = Ok t"
    by (auto simp: yield_def myproc_def res_simps split: option.splits)
  show ?case using give_up(2) i(1) unfolding sched_spec [OF i(2)] by (auto simp: sched_inv_def upd_proc_def)
next
  case (go_to_sleep ch s t)
  then obtain i where i: "curproc s = Some i" "sched (upd_proc i (\<lambda>p. p\<lparr>p_chan := Some ch, p_state := SLEEPING\<rparr>) s) = Ok t"
    by (auto simp: sleep_def split: option.splits)
  show ?case using go_to_sleep(2) i(1) unfolding sched_spec [OF i(2)] by (auto simp: sched_inv_def upd_proc_def)
next
  case (wake s ch)
  note ns = current_awake [OF wake]
  show ?case using wake by (auto simp: sched_inv_def wakeup_def wakeup1_def dest: ns split: option.splits)
next
  case (kill_one pid s r t)
  note ns = current_awake [OF kill_one(2)]
  show ?case using kill_one
    by (auto simp: sched_inv_def kill_def upd_proc_def Let_def dest: ns split: option.splits if_splits)
qed

text \<open>
  C7. Along every sequence of scheduling decisions, yields, sleeps, wakeups and kills at most one process is
  RUNNING: it is the current process, and the page table loaded is its own; when no process runs the
  kernel's own page table is loaded.
\<close>

theorem one_running_process:
  assumes "ksteps s t" "sched_inv s"
  shows "(\<forall>i j. p_state (ptable t i) = RUNNING \<and> p_state (ptable t j) = RUNNING \<longrightarrow> i = j) \<and>
    (\<forall>i. p_state (ptable t i) = RUNNING \<longleftrightarrow> curproc t = Some i) \<and>
    cr3 t = (case curproc t of None \<Rightarrow> V2P (kpgdir t) | Some i \<Rightarrow> V2P (p_pgdir (ptable t i)))"
proof -
  have "sched_inv t" using assms by (induction rule: ksteps.induct) (auto intro: kstep_inv)
  then show ?thesis by (auto simp: sched_inv_def)
qed

text \<open>
  C8. A process that sleeps gives up the processor and is not scheduled: a wakeup on another channel leaves
  it asleep, a wakeup on its channel makes it RUNNABLE, and every wakeup is enough, however many
  processes sleep there.
\<close>

theorem sleep_until_wakeup:
  assumes s: "sleep ch s = Ok t" "curproc s = Some i" "i < NPROC"
  shows "curproc t = None \<and> scan_next p t \<noteq> Some i \<and>
    (\<forall>c. p_state (ptable (wakeup c t) i) = (if c = ch then RUNNABLE else SLEEPING)) \<and>
    scan_next p (wakeup ch t) \<noteq> None"
proof -
  have "sched (upd_proc i (\<lambda>p. p\<lparr>p_chan := Some ch, p_state := SLEEPING\<rparr>) s) = Ok t" using s by (simp add: sleep_def)
  note t = sched_spec [OF this]
  have st: "curproc t = None" "p_state (ptable t i) = SLEEPING" "p_chan (ptable t i) = Some ch"
    by (simp_all add: t upd_proc_def)
  have w: "p_state (ptable (wakeup c t) i) = (if c = ch then RUNNABLE else SLEEPING)" for c
    using st s(3) by (simp add: wakeup_def wakeup1_def)
  have no: "scan_next p t \<noteq> Some i" 
  proof
    assume "scan_next p t = Some i"
    then have "p_state (ptable t i) = RUNNABLE" unfolding scan_next_def find_Some_iff by metis
    with st(2) show False by simp
  qed
  have "scan_next p (wakeup ch t) \<noteq> None"
    unfolding scan_next_def find_None_iff using w [of ch] s(3)
    by (simp only: set_append set_upt Un_iff atLeastLessThan_iff if_True refl) blast
  with st(1) w no show ?thesis by simp
qed

definition sleeper :: "nat \<Rightarrow> proc" where
  "sleeper i = (if i = 2 then zero_proc\<lparr>p_state := RUNNING, p_pgdir := 0x80400000\<rparr> else zero_proc)"

theorem sleep_until_wakeup_witness:
  "\<exists>t. sleep ChTicks ((quiet_kern sleeper)\<lparr>curproc := Some 2\<rparr>) = Ok t \<and>
     p_state (ptable (wakeup ChTicks t) 2) = RUNNABLE"
proof -
  let ?s = "(quiet_kern sleeper)\<lparr>curproc := Some 2\<rparr>"
  obtain t where t: "sleep ChTicks ?s = Ok t" by (simp add: sleep_def sched_eq upd_proc_def)
  with sleep_until_wakeup [OF t, of 2 0] show ?thesis by simp
qed

theorem one_running_process_witness:
  "\<exists>s t :: kern. ksteps s t \<and> sched_inv s \<and> curproc s = Some 2 \<and> curproc t = None \<and>
     (\<forall>i. p_state (ptable t i) \<noteq> RUNNING)"
proof -
  let ?s = "(quiet_kern sleeper)\<lparr>curproc := Some 2, cr3 := V2P 0x80400000\<rparr>"
  have i: "sched_inv ?s" by (auto simp: sched_inv_def quiet_kern_def quiet_defs sleeper_def zero_proc_def)
  obtain t where t: "sleep ChTicks ?s = Ok t" and c: "curproc t = None" by (simp add: sleep_def sched_eq upd_proc_def)
  have "ksteps ?s t" by (rule ksteps.more [OF ksteps.start kstep.go_to_sleep [OF t]])
  with one_running_process [OF this i] i c show ?thesis by (intro exI [of _ ?s] exI [of _ t]) simp
qed

end
