(* ===== verification/Held.thy ===== *)
theory Held
  imports Log
begin

text \<open>
  Blocks held while the cache is otherwise at rest: reading, writing and releasing them, as the log, the
  inodes and the directories do.
\<close>

unbundle bit_operations_syntax

section \<open>Buffers that nobody uses\<close>

text \<open>
  A cache at rest: no buffer is held, and one of them is clean, so that any block can be read. Two of them are
  clean, so that two blocks can be held at once whatever they are, unless the blocks of \<open>H\<close> are all in
  dirty buffers: then one of these can still be held together with another block.
\<close>

definition clean_bufs :: "'a bio_scheme \<Rightarrow> nat set" where
  "clean_bufs s = {b. b < NBUF \<and> \<not> bit (b_flags (bufs s b)) 2}"

definition dirty_in :: "'a bio_scheme \<Rightarrow> u32 set \<Rightarrow> bool" where
  "dirty_in s H \<longleftrightarrow> (\<forall>m \<in> H. \<exists>b. cached s m b \<and> bit (b_flags (bufs s b)) 2)"

definition idle :: "u32 set \<Rightarrow> 'a bio_scheme \<Rightarrow> bool" where
  "idle H s \<longleftrightarrow> bio_inv s \<and> havedisk1 s \<and> curproc s \<noteq> None \<and>
     (\<forall>b < NBUF. \<not> sl_locked (b_lock (bufs s b)) \<and> b_refcnt (bufs s b) = 0) \<and>
     (2 \<le> card (clean_bufs s) \<or> clean_bufs s \<noteq> {} \<and> dirty_in s H)"

definition held :: "'a bio_scheme \<Rightarrow> u32 \<Rightarrow> nat \<Rightarrow> bool" where
  "held s n b \<longleftrightarrow> cached s n b \<and> my_lock s (b_lock (bufs s b)) \<and> b_refcnt (bufs s b) = 1 \<and>
     (\<not> bit (b_flags (bufs s b)) 2 \<longrightarrow> b_data (bufs s b) = disk s ROOTDEV n)"

lemma finite_clean [simp]: "finite (clean_bufs s)"
  by (simp add: clean_bufs_def)

lemma spare_buf: "2 \<le> card (clean_bufs s) \<Longrightarrow> \<exists>c \<in> clean_bufs s. c \<noteq> b"
  using card_mono [of "{b}" "clean_bufs s"] by fastforce

lemma idle_spare: "idle H s \<Longrightarrow> clean_bufs s \<noteq> {}"
  by (auto simp: idle_def)

text \<open>A block that is read while at most one other is held.\<close>

definition only_held :: "u32 set \<Rightarrow> 'a bio_scheme \<Rightarrow> 'a bio_scheme \<Rightarrow> nat set \<Rightarrow> bool" where
  "only_held H s t B \<longleftrightarrow> idle H s \<and> bio_inv t \<and> bio_frame s t \<and>
     (\<forall>b < NBUF. b \<notin> B \<longrightarrow> \<not> sl_locked (b_lock (bufs t b)) \<and> b_refcnt (bufs t b) = 0) \<and>
     (\<forall>b < NBUF. bit (b_flags (bufs t b)) 2 \<longrightarrow> bit (b_flags (bufs s b)) 2 \<and> (\<forall>n. cached s n b \<longrightarrow> cached t n b))"

lemma only_held_clean: "only_held H s t B \<Longrightarrow> clean_bufs s \<subseteq> clean_bufs t"
  by (auto simp: only_held_def clean_bufs_def)

lemma only_held_empty:
  assumes h: "only_held H s t {}"
  shows "idle H t"
proof -
  have le: "card (clean_bufs s) \<le> card (clean_bufs t)" using only_held_clean [OF h] by (intro card_mono) auto
  have "2 \<le> card (clean_bufs t) \<or> clean_bufs t \<noteq> {} \<and> dirty_in t H"
  proof (cases "2 \<le> card (clean_bufs t)")
    case False
    with le h have s: "clean_bufs s \<noteq> {}" "dirty_in s H" by (auto simp: only_held_def idle_def)
    then have "0 < card (clean_bufs s)" by (simp add: card_gt_0_iff)
    with False le have "clean_bufs s = clean_bufs t" by (intro card_subset_eq only_held_clean [OF h]) auto
    then have "bit (b_flags (bufs t b)) 2" if "b < NBUF" "bit (b_flags (bufs s b)) 2" for b
      using that by (auto simp: clean_bufs_def)
    then have "dirty_in t H" using s(2) h unfolding dirty_in_def only_held_def cached_def by metis
    then show ?thesis using s(1) only_held_clean [OF h] by auto
  qed simp
  then show ?thesis using h by (auto simp: idle_def only_held_def bio_frame_def same_procs_def)
qed

text \<open>A block in the cache is found there, without a clean buffer.\<close>

lemma bread_hit:
  assumes inv: "bio_inv s" and p: "curproc s \<noteq> None" and c: "cached s n c" "\<not> sl_locked (b_lock (bufs s c))"
  shows "\<exists>b s'. bread ROOTDEV n s = Ok (b, s')"
proof -
  have cl: "c \<in> set (lru s)" "b_dev (bufs s c) = ROOTDEV" "b_blockno (bufs s c) = n" "bit (b_flags (bufs s c)) (Suc 0)"
    using c(1) inv by (auto simp: cached_def bio_inv_def)
  then obtain e where e: "List.find (\<lambda>b. b_dev (bufs s b) = ROOTDEV \<and> b_blockno (bufs s b) = n) (lru s) = Some e"
    using find_None_iff by (metis (mono_tags, lifting) not_Some_eq)
  then have "e < NBUF" "b_dev (bufs s e) = ROOTDEV" "b_blockno (bufs s e) = n"
    using find_SomeD [OF e] inv by (auto simp: bio_inv_def)
  then have "e = c" using inv c(1) unfolding bio_inv_def cached_def by metis
  moreover from lock_buf_ok [of "upd_buf c (\<lambda>bf. bf\<lparr>b_refcnt := b_refcnt bf + 1\<rparr>) s" c] c(2) p
  obtain s1 where "lock_buf c (upd_buf c (\<lambda>bf. bf\<lparr>b_refcnt := b_refcnt bf + 1\<rparr>) s) = Ok (c, s1)" by auto
  moreover from this have "bit (b_flags (bufs s1 c)) (Suc 0)"
    using cl(4) by (auto simp: lock_buf_def bindR_Ok_iff)
  ultimately show ?thesis using e by (simp add: bread_def bget_def)
qed

text \<open>What can be read: anything while nothing is held or two buffers were clean, and otherwise what is cached.\<close>

lemma only_held_bread:
  assumes h: "only_held H s t B" and n: "n < FSSIZE" and nb: "\<And>c. c \<in> B \<Longrightarrow> b_blockno (bufs t c) \<noteq> n"
    and B: "B = {} \<or> B \<subseteq> {a} \<and> 2 \<le> card (clean_bufs s) \<or> (\<exists>c. cached t n c)"
  shows "\<exists>b t'. bread ROOTDEV n t = Ok (b, t')"
proof (cases "\<exists>c. cached t n c")
  case True
  then obtain c where c: "cached t n c" by blast
  then have "c \<notin> B" "c < NBUF" using nb by (auto simp: cached_def)
  then show ?thesis using h c by (intro bread_hit [OF _ _ c]) (auto simp: only_held_def idle_def bio_frame_def same_procs_def)
next
  case False
  then have "B = {} \<or> B \<subseteq> {a} \<and> 2 \<le> card (clean_bufs s)" using B by simp
  moreover have "clean_bufs s \<noteq> {}" using h idle_spare by (auto simp: only_held_def)
  ultimately have "\<exists>c \<in> clean_bufs s. c \<notin> B" using spare_buf [of s a] by blast
  then obtain c where "c \<in> clean_bufs t" "c \<notin> B" using only_held_clean [OF h] by blast
  then have "b_refcnt (bufs t c) = 0 \<and> \<not> bit (b_flags (bufs t c)) 2 \<and> c < NBUF" using h by (auto simp: only_held_def clean_bufs_def)
  moreover have "havedisk1 t" "curproc t \<noteq> None" using h by (auto simp: only_held_def idle_def bio_frame_def same_procs_def)
  ultimately have "available n t" using h n nb by (auto simp: available_def bio_ready_def only_held_def)
  then show ?thesis by (rule bread_ok)
qed

lemma bread_held:
  assumes h: "only_held H s t B" and n: "n < FSSIZE"
    and nb: "\<And>c. c \<in> B \<Longrightarrow> sl_locked (b_lock (bufs t c)) \<and> b_blockno (bufs t c) \<noteq> n"
    and B: "B = {} \<or> B \<subseteq> {a} \<and> 2 \<le> card (clean_bufs s) \<or> (\<exists>c. cached t n c)"
  obtains b t' where "bread ROOTDEV n t = Ok (b, t')" "only_held H s t' (insert b B)" "held t' n b" "b \<notin> B"
    "b_data (bufs t' b) = view t n" "view t' = view t" "disk t' = disk t" "\<And>c. c \<noteq> b \<Longrightarrow> bufs t' c = bufs t c"
    "bio_frame t t'"
proof -
  have inv: "bio_inv t" and fr: "bio_frame s t" using h by (simp_all add: only_held_def)
  from only_held_bread [OF h n _ B] nb obtain b t' where r: "bread ROOTDEV n t = Ok (b, t')" by blast
  from bread_spec [OF inv r] obtain bf where b: "b < NBUF" "bio_frame t t'" "bufs t' = (bufs t)(b := bf)" "disk t' = disk t"
    "\<not> sl_locked (b_lock (bufs t b))" "my_lock t' (b_lock bf)" "b_refcnt bf = Suc (b_refcnt (bufs t b))"
    "bit (b_flags bf) 2 = bit (b_flags (bufs t b)) 2" "cached t' n b" "b_data bf = view t n"
    "\<not> bit (b_flags bf) 2 \<longrightarrow> b_data bf = disk t ROOTDEV n" "bio_inv t'" "view t' = view t" .
  have nB: "b \<notin> B" using nb b(5) by blast
  then have "b_refcnt bf = 1" using h b(1,7) by (simp add: only_held_def)
  then have "held t' n b" using b(3,4,6,9,11) by (simp add: held_def)
  moreover have "cached t' m c" if "bit (b_flags (bufs t' c)) 2" "cached t m c" for m c
  proof (cases "c = b")
    case True
    have "b_blockno (bufs t b) = n" using bread_state [OF inv r] that b(3,8) True by (metis fun_upd_same)
    then show ?thesis using that(2) b(9) True by (simp add: cached_def)
  qed (use that(2) b(3) in \<open>simp add: cached_def\<close>)
  then have "only_held H s t' (insert b B)"
    using h b(3,8,12) bio_frame_trans [OF fr b(2)] unfolding only_held_def by (auto split: if_splits)
  ultimately show thesis using b nB by (intro that [OF r]) auto
qed

text \<open>Writing a held block, and giving one back.\<close>

lemma held_other:
  assumes "held s m c" "bufs t c = bufs s c" "bio_frame s t" "disk t ROOTDEV m = disk s ROOTDEV m"
  shows "held t m c"
  using assms my_lock_frame [OF assms(3)] by (auto simp: held_def cached_def)

lemma bwrite_held:
  assumes h: "only_held H s t B" and x: "held t n x" "x \<in> B" and n: "n < FSSIZE"
  obtains t' where "bwrite x (upd_buf x (\<lambda>bf. bf\<lparr>b_data := g bf\<rparr>) t) = Ok t'" "only_held H s t' B" "held t' n x"
    "view t' = (view t)(n := g (bufs t x))" "disk t' ROOTDEV = (disk t ROOTDEV)(n := g (bufs t x))"
    "\<And>c. c \<noteq> x \<Longrightarrow> bufs t' c = bufs t c" "bio_frame t t'" "\<not> bit (b_flags (bufs t' x)) 2"
proof -
  have inv: "bio_inv t" and fr: "bio_frame s t" and c: "cached t n x" and l: "my_lock t (b_lock (bufs t x))"
    using h x by (simp_all add: only_held_def held_def)
  define u where "u = upd_buf x (\<lambda>bf. bf\<lparr>b_data := g bf\<rparr>) t"
  note d = set_data [OF inv c l u_def]
  have hd: "havedisk1 u" using h by (simp add: u_def only_held_def idle_def bio_frame_def)
  obtain t' where w: "bwrite x u = Ok t'" using bwrite_ok [OF d(2,3,1) n hd] by blast
  from bwrite_spec [OF d(1,2) w d(3)] obtain bf where t': "bio_frame u t'" "bufs t' = (bufs u)(x := bf)" "bio_inv t'"
    "cached t' n x" "b_lock bf = b_lock (bufs u x)" "b_refcnt bf = b_refcnt (bufs u x)" "b_data bf = b_data (bufs u x)"
    "\<not> bit (b_flags bf) 2" "view t' = view u" "disk t' ROOTDEV = (disk u ROOTDEV)(n := b_data (bufs u x))" .
  have fr': "bio_frame t t'" using bio_frame_upd_buf t'(1) unfolding u_def by (rule bio_frame_trans)
  have "held t' n x" using x my_lock_frame [OF t'(1) d(3)] t' by (simp add: held_def u_def)
  moreover have "only_held H s t' B"
    using h x(2) t'(2,3,8) bio_frame_trans [OF fr fr'] by (auto simp: only_held_def u_def cached_def)
  ultimately show thesis
    using t' d(4) fr' by (intro that [OF w [unfolded u_def]]) (auto simp: u_def)
qed

lemma cached_brelse: "brelse x t = Ok t' \<Longrightarrow> cached t' n c = cached t n c"
  by (auto simp: brelse_def releasesleep_def bindR_Ok_iff Let_def cached_def split: if_splits)

lemma brelse_held:
  assumes h: "only_held H s t B" and x: "held t n x"
  obtains t' where "brelse x t = Ok t'" "only_held H s t' (B - {x})" "view t' = view t" "disk t' = disk t"
    "\<And>c. c \<noteq> x \<Longrightarrow> bufs t' c = bufs t c" "bio_frame t t'"
proof -
  have inv: "bio_inv t" and fr: "bio_frame s t" and c: "cached t n x" "my_lock t (b_lock (bufs t x))"
    "\<not> bit (b_flags (bufs t x)) 2 \<Longrightarrow> b_data (bufs t x) = disk t ROOTDEV n"
    using h x by (simp_all add: only_held_def held_def)
  from brelse_spec [OF inv c] obtain t' bf where t': "brelse x t = Ok t'" "bio_frame t t'" "bufs t' = (bufs t)(x := bf)"
    "bio_inv t'" "\<not> sl_locked (b_lock bf)" "b_refcnt bf = b_refcnt (bufs t x) - 1" "b_flags bf = b_flags (bufs t x)"
    "disk t' = disk t" "view t' = view t" .
  have "only_held H s t' (B - {x})"
    using h x t'(3-7) bio_frame_trans [OF fr t'(2)] cached_brelse [OF t'(1)] by (auto simp: only_held_def held_def)
  with t' show thesis by (intro that [OF t'(1)]) auto
qed

end
