(* ===== verification/Commit.thy ===== *)
theory Commit
  imports Held
begin

text \<open>
  Crash safety of the log: a commit is a sequence of single-block writes, and whatever prefix of them
  reached the disk, the file system comes up again with all of the transaction or with none of it.
\<close>

unbundle bit_operations_syntax

section \<open>The rounds of the log's loops\<close>

lemma klog_frame_sel:
  assumes "bio_frame s t"
  shows "log_start t = log_start s" "log_size t = log_size s" "outstanding t = outstanding s" "committing t = committing s"
    "log_dev t = log_dev s" "lh_n t = lh_n s" "lh_block t = lh_block s"
  using assms by (cases s, cases t, simp add: bio_frame_def bio.defs)+

definition log_slot :: "'a klog_scheme \<Rightarrow> nat \<Rightarrow> u32" where
  "log_slot s i = log_start s + of_nat i + 1"

lemma log_slot_frame: "bio_frame s t \<Longrightarrow> log_slot t = log_slot s"
  by (simp add: log_slot_def fun_eq_iff klog_frame_sel)

text \<open>
  A round that copies one block over another: the destination gets the source's bytes, in the cache and on
  the disk, and nothing else changes.
\<close>

definition copied :: "u32 set \<Rightarrow> u32 \<Rightarrow> u32 \<Rightarrow> 'a klog_scheme \<Rightarrow> 'a klog_scheme \<Rightarrow> bool" where
  "copied H src dst s s' \<longleftrightarrow> idle H s' \<and> bio_frame s s' \<and>
     view s' = (view s)(dst := blit (view s dst) 0 (view s src) 0 BSIZE) \<and>
     disk s' ROOTDEV = (disk s ROOTDEV)(dst := blit (view s dst) 0 (view s src) 0 BSIZE)"

text \<open>Both blocks are held while one is copied over the other; then they are given back, the source first.\<close>

lemma copy_held:
  assumes h: "only_held H s t {x, y}" and x: "held t n x" and y: "held t m y" and xy: "x \<noteq> y" "n \<noteq> m" and n: "n < FSSIZE"
    and v: "view t = view s" "disk t = disk s" "b_data (bufs t x) = view s n" "b_data (bufs t y) = view s m"
  shows "\<exists>s'. bindR (bwrite x (upd_buf x (\<lambda>bf. bf\<lparr>b_data := blit (b_data bf) 0 (b_data (bufs t y)) 0 BSIZE\<rparr>) t)) (\<lambda>u.
      bindR (brelse y u) (brelse x)) = Ok s' \<and> copied H m n s s'"
proof -
  let ?d = "blit (view s n) 0 (view s m) 0 BSIZE"
  from bwrite_held [OF h x _ n, of "\<lambda>bf. blit (b_data bf) 0 (b_data (bufs t y)) 0 BSIZE"] obtain t1 where t1:
    "bwrite x (upd_buf x (\<lambda>bf. bf\<lparr>b_data := blit (b_data bf) 0 (b_data (bufs t y)) 0 BSIZE\<rparr>) t) = Ok t1"
    "only_held H s t1 {x, y}" "held t1 n x" "view t1 = (view s)(n := ?d)" "disk t1 ROOTDEV = (disk s ROOTDEV)(n := ?d)"
    "\<And>c. c \<noteq> x \<Longrightarrow> bufs t1 c = bufs t c" "bio_frame t t1" by (auto simp: v)
  have "held t1 m y" using xy by (intro held_other [OF y t1(6) t1(7)]) (auto simp: t1(5) v(2))
  from brelse_held [OF t1(2) this] obtain t2 where t2: "brelse y t1 = Ok t2" "only_held H s t2 ({x, y} - {y})"
    "view t2 = view t1" "disk t2 = disk t1" "\<And>c. c \<noteq> y \<Longrightarrow> bufs t2 c = bufs t1 c" "bio_frame t1 t2" by blast
  have "held t2 n x" using xy by (intro held_other [OF t1(3) t2(5) t2(6)]) (auto simp: t2(4))
  from brelse_held [OF t2(2) this] obtain t3 where t3: "brelse x t2 = Ok t3" "only_held H s t3 ({x, y} - {y} - {x})"
    "view t3 = view t2" "disk t3 = disk t2" by blast
  have "{x, y} - {y} - {x} = {}" by auto
  with t3(2) have oh: "only_held H s t3 {}" by simp
  have "copied H m n s t3" unfolding copied_def
    using only_held_empty [OF oh] oh t1(4,5) t2(3,4) t3(3,4) by (simp add: only_held_def)
  then show ?thesis using t1(1) t2(1) t3(1) by simp
qed

lemma bread_two:
  assumes i: "idle H s" and n: "n < FSSIZE" "m < FSSIZE" "n \<noteq> m" and m: "m \<in> H"
  obtains b t c u where "bread ROOTDEV n s = Ok (b, t)" "bread ROOTDEV m t = Ok (c, u)" "b \<noteq> c" "only_held H s u {b, c}"
    "held u n b" "held u m c" "view u = view s" "disk u = disk s" "b_data (bufs u b) = view s n" "b_data (bufs u c) = view s m"
    "bio_frame s t"
proof -
  have "only_held H s s {}" using i by (simp add: only_held_def idle_def)
  from bread_held [OF this n(1)] obtain b t where t: "bread ROOTDEV n s = Ok (b, t)" "only_held H s t {b}" "held t n b"
    "b_data (bufs t b) = view s n" "view t = view s" "disk t = disk s" "bio_frame s t" "\<And>e. e \<noteq> b \<Longrightarrow> bufs t e = bufs s e" by blast
  have bm: "sl_locked (b_lock (bufs t b)) \<and> b_blockno (bufs t b) \<noteq> m"
    using t(3) n(3) by (auto simp: held_def my_lock_def cached_def)
  have inv: "bio_inv s" using i by (simp add: idle_def)
  have "2 \<le> card (clean_bufs s) \<or> (\<exists>c. cached t m c)"
  proof (cases "2 \<le> card (clean_bufs s)")
    case False
    then obtain c where c: "cached s m c" "bit (b_flags (bufs s c)) 2" using i m by (auto simp: idle_def dirty_in_def)
    have "c \<noteq> b"
    proof
      assume "c = b"
      then have "b_blockno (bufs s b) = n" using bread_state [OF inv t(1)] c(2) by blast
      then show False using c(1) n(3) \<open>c = b\<close> by (simp add: cached_def)
    qed
    then show ?thesis using c(1) t(8) by (auto simp: cached_def)
  qed simp
  with bread_held [OF t(2) n(2), of b] bm obtain c u where u: "bread ROOTDEV m t = Ok (c, u)" "only_held H s u (insert c {b})"
    "held u m c" "c \<notin> {b}" "b_data (bufs u c) = view t m" "view u = view t" "disk u = disk t"
    "\<And>e. e \<noteq> c \<Longrightarrow> bufs u e = bufs t e" "bio_frame t u" by blast
  have "held u n b" using u(4,7) by (intro held_other [OF t(3) u(8) u(9)]) auto
  then show thesis using t u by (intro that [OF t(1) u(1)]) (auto simp: insert_commute)
qed

lemma install_block_spec:
  assumes i: "idle H s" and dev: "log_dev s = ROOTDEV" and k: "k < LOGSIZE" "log_slot s k < FSSIZE" "lh_block s k < FSSIZE"
    "log_slot s k \<noteq> lh_block s k" "lh_block s k \<in> H"
  shows "\<exists>s'. install_block k s = Ok s' \<and> copied H (log_slot s k) (lh_block s k) s s'"
proof -
  from bread_two [OF i k(2-5)] obtain b t c u where u: "bread ROOTDEV (log_slot s k) s = Ok (b, t)"
    "bread ROOTDEV (lh_block s k) t = Ok (c, u)" "b \<noteq> c" "only_held H s u {b, c}" "held u (log_slot s k) b"
    "held u (lh_block s k) c" "view u = view s" "disk u = disk s" "b_data (bufs u b) = view s (log_slot s k)"
    "b_data (bufs u c) = view s (lh_block s k)" "bio_frame s t" .
  from copy_held [of H s u c b, OF _ u(6,5) _ _ k(3) u(7,8,10,9)] u(3,4) k(4)
  have "\<exists>s'. bindR (bwrite c (upd_buf c (\<lambda>bf. bf\<lparr>b_data := blit (b_data bf) 0 (b_data (bufs u b)) 0 BSIZE\<rparr>) u)) (\<lambda>u.
      bindR (brelse b u) (brelse c)) = Ok s' \<and> copied H (log_slot s k) (lh_block s k) s s'" by (simp add: insert_commute)
  then show ?thesis using u(1,2) k(1) dev klog_frame_sel [OF u(11)]
    by (simp add: install_block_def log_slot_def [symmetric])
qed

lemma log_block_spec:
  assumes i: "idle H s" and dev: "log_dev s = ROOTDEV" and k: "k < LOGSIZE" "log_slot s k < FSSIZE" "lh_block s k < FSSIZE"
    "log_slot s k \<noteq> lh_block s k" "lh_block s k \<in> H"
  shows "\<exists>s'. log_block k s = Ok s' \<and> copied H (lh_block s k) (log_slot s k) s s'"
proof -
  from bread_two [OF i k(2-5)] obtain b t c u where u: "bread ROOTDEV (log_slot s k) s = Ok (b, t)"
    "bread ROOTDEV (lh_block s k) t = Ok (c, u)" "b \<noteq> c" "only_held H s u {b, c}" "held u (log_slot s k) b"
    "held u (lh_block s k) c" "view u = view s" "disk u = disk s" "b_data (bufs u b) = view s (log_slot s k)"
    "b_data (bufs u c) = view s (lh_block s k)" "bio_frame s t" .
  from copy_held [OF u(4,5,6,3) k(4,2) u(7-10)]
  show ?thesis using u(1,2) k(1) dev klog_frame_sel [OF u(11)]
    by (simp add: log_block_def log_slot_def [symmetric])
qed

section \<open>Runs of rounds\<close>

text \<open>Rounds of a loop that copy one block each, from and to places that do not change on the way.\<close>

locale block_copies =
  fixes step :: "nat \<Rightarrow> 'a klog_scheme \<Rightarrow> 'a klog_scheme res"
    and src dst :: "'a klog_scheme \<Rightarrow> nat \<Rightarrow> u32"
  assumes copies: "idle H s \<Longrightarrow> log_dev s = ROOTDEV \<Longrightarrow> k < LOGSIZE \<Longrightarrow> src s k < FSSIZE \<Longrightarrow> dst s k < FSSIZE
      \<Longrightarrow> src s k \<noteq> dst s k \<Longrightarrow> lh_block s k \<in> H \<Longrightarrow> \<exists>s'. step k s = Ok s' \<and> copied H (src s k) (dst s k) s s'"
    and places: "bio_frame s t \<Longrightarrow> src t = src s \<and> dst t = dst s"
begin

definition all_copied :: "u32 set \<Rightarrow> nat \<Rightarrow> 'a klog_scheme \<Rightarrow> 'a klog_scheme \<Rightarrow> bool" where
  "all_copied H m s s' \<longleftrightarrow> idle H s' \<and> bio_frame s s' \<and>
     (\<forall>k < m. view s' (dst s k) = blit (view s (dst s k)) 0 (view s (src s k)) 0 BSIZE \<and>
        disk s' ROOTDEV (dst s k) = blit (view s (dst s k)) 0 (view s (src s k)) 0 BSIZE) \<and>
     (\<forall>b. b \<notin> dst s ` {..<m} \<longrightarrow> view s' b = view s b \<and> disk s' ROOTDEV b = disk s ROOTDEV b)"

lemma run:
  assumes "idle H s" "log_dev s = ROOTDEV" "m \<le> LOGSIZE" "\<forall>k < m. src s k < FSSIZE \<and> dst s k < FSSIZE"
    "inj_on (dst s) {..<m}" "src s ` {..<m} \<inter> dst s ` {..<m} = {}" "lh_block s ` {..<m} \<subseteq> H"
  shows "\<exists>s'. foldR step [0..<m] s = Ok s' \<and> all_copied H m s s'"
  using assms
proof (induction m)
  case (Suc m)
  have "inj_on (dst s) {..<m}" "src s ` {..<m} \<inter> dst s ` {..<m} = {}" using Suc.prems(5,6) by (auto simp: inj_on_def lessThan_Suc)
  with Suc obtain t where t: "foldR step [0..<m] s = Ok t" "all_copied H m s t" by (auto simp: lessThan_Suc)
  then have ti: "idle H t" "bio_frame s t" by (simp_all add: all_copied_def)
  have pl: "src t = src s" "dst t = dst s" using places [OF ti(2)] by auto
  have ne: "src s m \<noteq> dst s m" "src s m \<notin> dst s ` {..<m}" "dst s m \<notin> dst s ` {..<m}"
    using Suc.prems(6) inj_on_image_mem_iff [OF Suc.prems(5), of m "{..<m}"] by (auto simp: lessThan_Suc)
  from copies [of H t m] ti Suc.prems(2-4,7) pl ne(1) klog_frame_sel [OF ti(2)] obtain u where u: "step m t = Ok u"
    "copied H (src s m) (dst s m) t u" by (auto simp: lessThan_Suc)
  let ?d = "blit (view s (dst s m)) 0 (view s (src s m)) 0 BSIZE"
  have d: "view u = (view t)(dst s m := ?d)" "disk u ROOTDEV = (disk t ROOTDEV)(dst s m := ?d)"
    using u(2) t(2) ne by (simp_all add: copied_def all_copied_def)
  have "all_copied H (Suc m) s u" unfolding all_copied_def
  proof (intro conjI allI impI)
    show "idle H u" "bio_frame s u" using u(2) bio_frame_trans [OF ti(2)] by (simp_all add: copied_def)
  next
    fix k assume k: "k < Suc m"
    then have "k = m \<or> k < m \<and> dst s k \<noteq> dst s m" using inj_onD [OF Suc.prems(5), of k m] by auto
    then show "view u (dst s k) = blit (view s (dst s k)) 0 (view s (src s k)) 0 BSIZE"
      "disk u ROOTDEV (dst s k) = blit (view s (dst s k)) 0 (view s (src s k)) 0 BSIZE"
      using t(2) by (auto simp: d all_copied_def)
  next
    fix b assume "b \<notin> dst s ` {..<Suc m}"
    then show "view u b = view s b" "disk u ROOTDEV b = disk s ROOTDEV b"
      using t(2) by (auto simp: d all_copied_def lessThan_Suc)
  qed
  then show ?case using t(1) u(1) by (simp add: foldR_append)
qed (simp add: all_copied_def)

end

interpretation installs: block_copies install_block log_slot lh_block
  by unfold_locales (auto simp: install_block_spec log_slot_frame klog_frame_sel)

interpretation logs: block_copies log_block lh_block log_slot
  by unfold_locales (auto simp: log_block_spec log_slot_frame klog_frame_sel)

section \<open>The header block\<close>

lemma head_fold:
  "ld32 (fold (\<lambda>i d. st32 d (4 + 4 * i) (block i)) [0..<m] d) 0 = ld32 d 0"
  "i < m \<Longrightarrow> ld32 (fold (\<lambda>i d. st32 d (4 + 4 * i) (block i)) [0..<m] d) (4 + 4 * i) = block i"
proof (induction m)
  case (Suc m)
  { case 1 then show ?case using Suc by (simp add: ld32_st32_disjoint) }
  { case 2 then show ?case using Suc by (cases "i = m") (simp_all add: ld32_st32_disjoint) }
qed simp_all

lemma head_data_ld:
  assumes "0 \<le> n" "n \<le> int LOGSIZE"
  shows "sint (ld32 (head_data n block d) 0) = n" "i < nat n \<Longrightarrow> ld32 (head_data n block d) (4 + 4 * i) = block i"
proof -
  have "sint (of_int n :: u32) = n" using assms
    by (simp add: signed_of_int signed_take_bit_int_eq_self)
  then show "sint (ld32 (head_data n block d) 0) = n" by (simp add: head_data_def head_fold)
  show "i < nat n \<Longrightarrow> ld32 (head_data n block d) (4 + 4 * i) = block i" by (simp add: head_data_def head_fold)
qed

lemma only_held_start: "idle H s \<Longrightarrow> only_held H s s {}"
  by (simp add: only_held_def idle_def)

lemma bread_one:
  assumes i: "idle H s" and n: "n < FSSIZE"
  obtains b t where "bread ROOTDEV n s = Ok (b, t)" "only_held H s t {b}" "held t n b" "b_data (bufs t b) = view s n"
    "view t = view s" "disk t = disk s" "bio_frame s t"
  using bread_held [OF only_held_start [OF i] n] by blast

lemma write_head_spec:
  assumes i: "idle H s" and l: "log_dev s = ROOTDEV" "log_start s < FSSIZE" "lh_n s \<le> int LOGSIZE"
  obtains s' where "write_head s = Ok s'" "idle H s'" "bio_frame s s'"
    "view s' = (view s)(log_start s := head_data (lh_n s) (lh_block s) (view s (log_start s)))"
    "disk s' ROOTDEV = (disk s ROOTDEV)(log_start s := head_data (lh_n s) (lh_block s) (view s (log_start s)))"
proof -
  from bread_one [OF i l(2)] obtain b t where t: "bread ROOTDEV (log_start s) s = Ok (b, t)" "only_held H s t {b}"
    "held t (log_start s) b" "b_data (bufs t b) = view s (log_start s)" "view t = view s" "disk t = disk s" "bio_frame s t" .
  note f = klog_frame_sel [OF t(7)]
  from bwrite_held [OF t(2,3) singletonI l(2), of "\<lambda>bf. head_data (lh_n t) (lh_block t) (b_data bf)"] obtain u where u:
    "bwrite b (upd_buf b (\<lambda>bf. bf\<lparr>b_data := head_data (lh_n t) (lh_block t) (b_data bf)\<rparr>) t) = Ok u" "only_held H s u {b}"
    "held u (log_start s) b" "view u = (view s)(log_start s := head_data (lh_n s) (lh_block s) (view s (log_start s)))"
    "disk u ROOTDEV = (disk s ROOTDEV)(log_start s := head_data (lh_n s) (lh_block s) (view s (log_start s)))"
    by (auto simp: f t(4-6))
  from brelse_held [OF u(2,3)] obtain s' where s': "brelse b u = Ok s'" "only_held H s s' ({b} - {b})" "view s' = view u"
    "disk s' = disk u" by blast
  have oh: "only_held H s s' {}" using s'(2) by simp
  have "write_head s = Ok s'" using l t(1) u(1) s'(1) by (simp add: write_head_def)
  then show thesis using only_held_empty [OF oh] oh u s' by (intro that [of s']) (auto simp: only_held_def)
qed

lemma lh_upd [simp]:
  "idle H (s\<lparr>lh_n := n, lh_block := h\<rparr>) = idle H s" "view (s\<lparr>lh_n := n, lh_block := h\<rparr>) = view s"
  "idle H (s\<lparr>lh_n := n\<rparr>) = idle H s" "view (s\<lparr>lh_n := n\<rparr>) = view s"
  by (simp_all add: idle_def bio_inv_def clean_bufs_def dirty_in_def cached_def) (rule view_cong [THEN ext]; simp add: cached_def)+

lemma only_held_lh: "only_held H s t B \<Longrightarrow> only_held H (s\<lparr>lh_n := n, lh_block := h\<rparr>) (t\<lparr>lh_n := n, lh_block := h\<rparr>) B"
  by (cases s, cases t) (simp add: only_held_def idle_def bio_inv_def clean_bufs_def dirty_in_def cached_def bio_frame_def same_procs_def bio.defs)

lemma held_lh: "held t n b \<Longrightarrow> held (t\<lparr>lh_n := k, lh_block := h\<rparr>) n b"
  by (simp add: held_def cached_def my_lock_def)

lemma read_head_spec:
  assumes i: "idle H s" and l: "log_dev s = ROOTDEV" "log_start s < FSSIZE"
    and n: "n = sint (ld32 (view s (log_start s)) 0)" "n \<le> int LOGSIZE"
  obtains s' where "read_head s = Ok s'" "idle H s'" "log_start s' = log_start s" "log_dev s' = ROOTDEV" "lh_n s' = n"
    "\<And>i. int i < n \<Longrightarrow> lh_block s' i = ld32 (view s (log_start s)) (4 + 4 * i)" "view s' = view s" "disk s' = disk s"
proof -
  from bread_one [OF i l(2)] obtain b t where t: "bread ROOTDEV (log_start s) s = Ok (b, t)" "only_held H s t {b}"
    "held t (log_start s) b" "b_data (bufs t b) = view s (log_start s)" "view t = view s" "disk t = disk s" "bio_frame s t" .
  define h where "h = (\<lambda>i. if int i < n then ld32 (view s (log_start s)) (4 + 4 * i) else lh_block t i)"
  let ?t = "t\<lparr>lh_n := n, lh_block := h\<rparr>"
  from brelse_held [OF only_held_lh [OF t(2), of h n] held_lh [OF t(3)]] obtain s' where s': "brelse b ?t = Ok s'"
    "only_held H (s\<lparr>lh_n := n, lh_block := h\<rparr>) s' ({b} - {b})" "view s' = view ?t" "disk s' = disk ?t" "bio_frame ?t s'" by blast
  have oh: "only_held H (s\<lparr>lh_n := n, lh_block := h\<rparr>) s' {}" using s'(2) by simp
  have "read_head s = Ok s'" using l t(1,4) n s'(1) by (simp add: read_head_def Let_def h_def cong: if_cong)
  then show thesis using only_held_empty [OF oh] s'(3,4) t(5,6) klog_frame_sel [OF s'(5)] klog_frame_sel [OF t(7)] l(1)
    by (intro that [of s']) (auto simp: h_def)
qed

section \<open>Recovery\<close>

text \<open>The log is the header and the blocks behind it, log.size blocks together.\<close>

definition log_area :: "'a klog_scheme \<Rightarrow> u32 set" where
  "log_area s = {b. unat (log_start s) \<le> unat b \<and> unat b < unat (log_start s) + nat (log_size s)}"

definition log_fits :: "'a klog_scheme \<Rightarrow> bool" where
  "log_fits s \<longleftrightarrow> 1 < unat (log_start s) \<and> 0 < log_size s \<and> unat (log_start s) + nat (log_size s) \<le> unat (FSSIZE :: u32)"

text \<open>How many blocks a header may name: they fit into the header block and into the log.\<close>

definition log_holds :: "'a klog_scheme \<Rightarrow> nat \<Rightarrow> bool" where
  "log_holds s m \<longleftrightarrow> m \<le> LOGSIZE \<and> int m < log_size s"

lemma log_holds_le: "log_holds s m \<Longrightarrow> k \<le> m \<Longrightarrow> log_holds s k" "log_holds s m \<Longrightarrow> m \<le> LOGSIZE"
  by (auto simp: log_holds_def)

lemma log_slot_area:
  assumes f: "log_fits s" "log_holds s m" and i: "i < m"
  shows "unat (log_slot s i) = unat (log_start s) + i + 1" "log_slot s i \<in> log_area s" "log_slot s i < FSSIZE"
    "log_slot s i \<noteq> log_start s"
proof -
  have a: "unat (of_nat i :: u32) = i" using f i by (simp add: unat_of_nat log_holds_def)
  show u: "unat (log_slot s i) = unat (log_start s) + i + 1"
    using f i by (simp add: log_slot_def log_fits_def log_holds_def unat_word_ariths a)
  then show "log_slot s i \<in> log_area s" using f i by (simp add: log_area_def log_holds_def) linarith
  show "log_slot s i < FSSIZE" "log_slot s i \<noteq> log_start s"
    using u f i by (auto simp: word_less_nat_alt log_fits_def log_holds_def)
qed

lemma log_start_area:
  assumes "log_fits s"
  shows "log_start s \<in> log_area s" "log_start s < FSSIZE" "1 \<notin> log_area s"
  using assms by (auto simp: log_area_def word_less_nat_alt log_fits_def)

lemma log_slot_inj: "log_fits s \<Longrightarrow> log_holds s m \<Longrightarrow> inj_on (log_slot s) {..<m}"
proof (rule inj_onI)
  fix i j assume a: "log_fits s" "log_holds s m" "i \<in> {..<m}" "j \<in> {..<m}" "log_slot s i = log_slot s j"
  then have i: "i < m" and j: "j < m" by simp_all
  have "unat (log_slot s i) = unat (log_slot s j)" using a(5) by (rule arg_cong)
  then show "i = j" unfolding log_slot_area(1) [OF a(1,2) i] log_slot_area(1) [OF a(1,2) j] by simp
qed

text \<open>Blocks that a header may name: on the disk, outside the log, none of them twice.\<close>

definition homes_ok :: "'a klog_scheme \<Rightarrow> nat \<Rightarrow> (nat \<Rightarrow> u32) \<Rightarrow> bool" where
  "homes_ok s m h \<longleftrightarrow> inj_on h {..<m} \<and> (\<forall>i < m. 1 < h i \<and> h i < FSSIZE \<and> h i \<notin> log_area s)"

lemma homes_slots:
  assumes "log_fits s" "homes_ok s m h" "log_holds s m"
  shows "log_slot s ` {..<m} \<inter> h ` {..<m} = {}" "\<forall>k < m. log_slot s k < FSSIZE \<and> h k < FSSIZE"
proof -
  have "log_slot s k \<in> log_area s \<and> log_slot s k < FSSIZE" if "k < m" for k
    using log_slot_area(2,3) [OF assms(1,3) that] by simp
  then show "log_slot s ` {..<m} \<inter> h ` {..<m} = {}" "\<forall>k < m. log_slot s k < FSSIZE \<and> h k < FSSIZE"
    using assms(2) by (force simp: homes_ok_def)+
qed

text \<open>Recovery installs the blocks that the header on the disk names, and clears it.\<close>

lemma recover_spec:
  assumes i: "idle UNIV s" and l: "log_dev s = ROOTDEV" "log_fits s" and v: "view s = disk s ROOTDEV"
    and n: "sint (ld32 (disk s ROOTDEV (log_start s)) 0) = int m" "log_holds s m"
    and h: "\<And>i. i < m \<Longrightarrow> ld32 (disk s ROOTDEV (log_start s)) (4 + 4 * i) = h i" "homes_ok s m h"
  obtains s' where "recover_from_log s = Ok s'" "idle UNIV s'" "lh_n s' = 0" "log_start s' = log_start s"
    "ld32 (disk s' ROOTDEV (log_start s)) 0 = 0"
    "\<And>i. i < m \<Longrightarrow> disk s' ROOTDEV (h i) = blit (disk s ROOTDEV (h i)) 0 (disk s ROOTDEV (log_slot s i)) 0 BSIZE"
    "\<And>b. b \<notin> h ` {..<m} \<Longrightarrow> b \<noteq> log_start s \<Longrightarrow> disk s' ROOTDEV b = disk s ROOTDEV b"
proof -
  let ?S = "log_start s" and ?D = "disk s ROOTDEV"
  note S = log_start_area [OF l(2)]
  have mL: "m \<le> LOGSIZE" using n(2) by (rule log_holds_le)
  from read_head_spec [OF i l(1) S(2), of "int m"] n(1) mL v obtain t where t: "read_head s = Ok t" "idle UNIV t" "log_start t = ?S"
    "log_dev t = ROOTDEV" "lh_n t = int m" "\<And>i. i < m \<Longrightarrow> lh_block t i = h i" "view t = ?D" "disk t = disk s"
    using h(1) by auto
  have sl: "log_slot t = log_slot s" by (simp add: log_slot_def fun_eq_iff t(3))
  have inj: "inj_on (lh_block t) {..<m}" using h(2) t(6) by (auto simp: homes_ok_def inj_on_def)
  have im: "lh_block t ` {..<m} = h ` {..<m}" using t(6) by auto
  note hs = homes_slots [OF l(2) h(2) n(2)]
  from installs.run [OF t(2,4) mL, unfolded sl im, OF _ inj hs(1)] hs(2) t(6) obtain u where
    u: "foldR install_block [0..<m] t = Ok u" "installs.all_copied UNIV m t u" by auto
  have uf: "idle UNIV u" "bio_frame t u" and ud:
    "\<And>k. k < m \<Longrightarrow> disk u ROOTDEV (h k) = blit (?D (h k)) 0 (?D (log_slot s k)) 0 BSIZE"
    "\<And>b. b \<notin> h ` {..<m} \<Longrightarrow> view u b = ?D b \<and> disk u ROOTDEV b = ?D b"
    using u(2) t(6-8) im by (auto simp: installs.all_copied_def sl)
  note fu = klog_frame_sel [OF uf(2)]
  let ?u = "u\<lparr>lh_n := 0\<rparr>"
  have w: "idle UNIV ?u" "log_dev ?u = ROOTDEV" "log_start ?u < FSSIZE" "lh_n ?u \<le> int LOGSIZE"
    using uf(1) fu t(3,4) S(2) by simp_all
  from write_head_spec [OF w] obtain s' where s': "write_head ?u = Ok s'" "idle UNIV s'" "bio_frame ?u s'"
    "disk s' ROOTDEV = (disk u ROOTDEV)(?S := head_data 0 (lh_block u) (view u ?S))" using fu t(3) by auto
  have "recover_from_log s = Ok s'" using t(1,5) u(1) s'(1) by (simp add: recover_from_log_def install_trans_def)
  moreover have "ld32 (head_data 0 (lh_block u) (view u ?S)) 0 = 0" by (simp add: head_data_def)
  moreover have "h k \<noteq> ?S" if "k < m" for k using h(2) that S(1) by (auto simp: homes_ok_def)
  ultimately show thesis using s'(2-4) ud klog_frame_sel [OF s'(3)] fu t(3) by (intro that [of s']) auto
qed

section \<open>Crashes\<close>

text \<open>
  What a crash leaves: the disk. Memory starts afresh, and the file system is initialized by the first
  process.
\<close>

definition empty_buf :: buf where
  "empty_buf = \<lparr>b_flags = 0, b_dev = 0, b_blockno = 0, b_lock = initsleeplock, b_refcnt = 0, b_data = (\<lambda>_. 0)\<rparr>"

definition reboot :: "'a klog_scheme \<Rightarrow> 'a klog_scheme" where
  "reboot s = binit (s\<lparr>bufs := (\<lambda>_. empty_buf), idequeue := [], ide_err := False, log_start := 0, log_size := 0,
     log_dev := 0, outstanding := 0, committing := False, lh_n := 0, lh_block := (\<lambda>_. 0)\<rparr>)"

lemma foldl_rev: "foldl (\<lambda>l b. b # l) ys xs = rev xs @ ys"
  by (induction xs arbitrary: ys) auto

lemma reboot_idle:
  assumes "havedisk1 s" "curproc s \<noteq> None"
  shows "idle UNIV (reboot s)" "view (reboot s) = disk s ROOTDEV" "disk (reboot s) = disk s"
proof -
  have b: "bufs (reboot s) b = empty_buf" for b by (simp add: reboot_def binit_def empty_buf_def)
  have l: "lru (reboot s) = rev [0..<NBUF]" 
    unfolding reboot_def binit_def foldl_rev append_Nil2 by simp
  have sel: "idequeue (reboot s) = []" "\<not> ide_err (reboot s)" "havedisk1 (reboot s)" "curproc (reboot s) \<noteq> None"
    using assms by (simp_all add: reboot_def binit_def)
  have "clean_bufs (reboot s) = {..<NBUF}" by (auto simp: clean_bufs_def b empty_buf_def)
  then have "2 \<le> card (clean_bufs (reboot s))" by simp
  moreover have "bio_inv (reboot s)" unfolding bio_inv_def l b using sel by (auto simp: empty_buf_def initsleeplock_def)
  ultimately show "idle UNIV (reboot s)" unfolding idle_def b using sel by (simp add: empty_buf_def initsleeplock_def)
  show d: "disk (reboot s) = disk s" by (simp add: reboot_def binit_def)
  have "\<not> cached (reboot s) n c" for n c by (simp add: cached_def b empty_buf_def)
  then show "view (reboot s) = disk s ROOTDEV" using view_uncached d by (metis ext)
qed

lemma readsb_spec:
  assumes i: "idle H s"
  obtains s' where "readsb ROOTDEV s = Ok (sb_of (view s 1), s')" "idle H s'" "bio_frame s s'" "view s' = view s" "disk s' = disk s"
proof -
  have one: "(1 :: u32) < FSSIZE" by simp
  from bread_one [OF i one] obtain b t where t: "bread ROOTDEV 1 s = Ok (b, t)" "only_held H s t {b}" "held t 1 b"
    "b_data (bufs t b) = view s 1" "view t = view s" "disk t = disk s" "bio_frame s t" .
  from brelse_held [OF t(2,3)] obtain s' where s': "brelse b t = Ok s'" "only_held H s s' ({b} - {b})" "view s' = view t"
    "disk s' = disk t" by blast
  have oh: "only_held H s s' {}" using s'(2) by simp
  have "readsb ROOTDEV s = Ok (sb_of (view s 1), s')" using t(1,4) s'(1) by (simp add: readsb_def Let_def)
  then show thesis using only_held_empty [OF oh] oh t(5,6) s'(3,4) by (intro that [of s']) (auto simp: only_held_def)
qed

lemma start_upd [simp]:
  "idle H (s\<lparr>log_start := a, log_size := z, log_dev := d\<rparr>) = idle H s"
  "view (s\<lparr>log_start := a, log_size := z, log_dev := d\<rparr>) = view s"
  by (simp_all add: idle_def bio_inv_def clean_bufs_def dirty_in_def cached_def) (rule view_cong [THEN ext]; simp add: cached_def)

text \<open>The disk when the file system comes up again after a crash, given the disk \<open>D\<close> at the crash.\<close>

lemma reboot_recovers:
  assumes s: "havedisk1 s" "curproc s \<noteq> None" and sb: "sb_logstart (sb_of (disk s ROOTDEV 1)) = log_start s"
    "sint (sb_nlog (sb_of (disk s ROOTDEV 1))) = log_size s" and f: "log_fits s"
    and n: "sint (ld32 (disk s ROOTDEV (log_start s)) 0) = int m" "log_holds s m"
    and h: "\<And>i. i < m \<Longrightarrow> ld32 (disk s ROOTDEV (log_start s)) (4 + 4 * i) = h i" "homes_ok s m h"
  obtains u where "initlog ROOTDEV (reboot s) = Ok u" "lh_n u = 0" "ld32 (disk u ROOTDEV (log_start s)) 0 = 0"
    "\<And>i. i < m \<Longrightarrow> disk u ROOTDEV (h i) = blit (disk s ROOTDEV (h i)) 0 (disk s ROOTDEV (log_slot s i)) 0 BSIZE"
    "\<And>b. b \<notin> h ` {..<m} \<Longrightarrow> b \<noteq> log_start s \<Longrightarrow> disk u ROOTDEV b = disk s ROOTDEV b"
proof -
  note r = reboot_idle [OF s]
  from readsb_spec [OF r(1)] obtain t where t: "readsb ROOTDEV (reboot s) = Ok (sb_of (disk s ROOTDEV 1), t)" "idle UNIV t"
    "view t = disk s ROOTDEV" "disk t = disk s" using r(2,3) by auto
  let ?t = "t\<lparr>log_start := log_start s, log_size := log_size s, log_dev := ROOTDEV\<rparr>"
  have a: "log_fits ?t" "log_slot ?t = log_slot s" "homes_ok ?t m h" "log_holds ?t m"
    using f h(2) n(2) by (simp_all add: log_fits_def log_slot_def fun_eq_iff homes_ok_def log_area_def log_holds_def)
  have b: "idle UNIV ?t" "log_dev ?t = ROOTDEV" "view ?t = disk ?t ROOTDEV" "disk ?t = disk s" "log_start ?t = log_start s"
    using t(2-4) by simp_all
  have "recover_from_log ?t = initlog ROOTDEV (reboot s)" using t(1) sb by (simp add: initlog_def)
  with recover_spec [OF b(1,2) a(1) b(3), unfolded b(4,5) a(2), OF n(1) a(4) h(1) a(3)] show thesis
    by (metis (no_types, lifting) that)
qed

text \<open>
  The steps of a commit. Each of them writes one block, so that what a crash leaves is what some number of
  steps has written.
\<close>

definition commit_steps :: "nat \<Rightarrow> ('a klog_scheme \<Rightarrow> 'a klog_scheme res) list" where
  "commit_steps n = map log_block [0..<n] @ [write_head] @ map install_block [0..<n] @ [\<lambda>s. write_head (s\<lparr>lh_n := 0\<rparr>)]"

definition run_steps :: "('a klog_scheme \<Rightarrow> 'a klog_scheme res) list \<Rightarrow> 'a klog_scheme \<Rightarrow> 'a klog_scheme res" where
  "run_steps fs s = foldR (\<lambda>f. f) fs s"

lemma run_steps_simps [simp]:
  "run_steps [] s = Ok s" "run_steps (f # fs) s = bindR (f s) (run_steps fs)"
  "run_steps (fs @ gs) s = bindR (run_steps fs s) (run_steps gs)" "run_steps (map g xs) s = foldR g xs s"
proof -
  show "run_steps [] s = Ok s" "run_steps (f # fs) s = bindR (f s) (run_steps fs)"
    "run_steps (fs @ gs) s = bindR (run_steps fs s) (run_steps gs)"
    by (simp_all add: run_steps_def [abs_def] foldR_append)
  show "run_steps (map g xs) s = foldR g xs s"
    unfolding run_steps_def by (induction xs arbitrary: s) (simp_all cong: bindR_cong)
qed

lemma run_steps_one [simp]: "run_steps [f] = f"
proof
  fix s
  show "run_steps [f] s = f s" by (cases "f s") simp_all
qed

lemma log_block_more: "log_block k s = Ok s' \<Longrightarrow> bio.more s' = bio.more s"
  by (auto simp: log_block_def bindR_Ok_iff dest!: bread_more bwrite_more brelse_more split: if_splits)

lemma write_head_more: "write_head s = Ok s' \<Longrightarrow> bio.more s' = bio.more s"
  by (auto simp: write_head_def bindR_Ok_iff dest!: bread_more bwrite_more brelse_more split: if_splits)

lemma klog_more_n: "bio.more s = bio.more t \<Longrightarrow> lh_n s = lh_n (t :: 'a klog_scheme)"
  by (cases s, cases t) (simp add: bio.defs)

lemma commit_run: "0 < lh_n s \<Longrightarrow> commit s = run_steps (commit_steps (nat (lh_n s))) s"
proof -
  assume n: "0 < lh_n s"
  have w: "lh_n t = lh_n s" if "foldR log_block [0..<nat (lh_n s)] s = Ok t" for t
    by (rule foldR_invariant [OF that, of "\<lambda>u. lh_n u = lh_n s"]) (rule refl, metis klog_more_n log_block_more)
  have h: "lh_n u = lh_n s" if "foldR log_block [0..<nat (lh_n s)] s = Ok t" "write_head t = Ok u" for t u
    using w [OF that(1)] klog_more_n [OF write_head_more [OF that(2)]] by simp
  show ?thesis
  proof (cases "foldR log_block [0..<nat (lh_n s)] s")
    case (Ok t)
    then show ?thesis using n h [OF Ok]
      by (cases "write_head t") (simp_all add: commit_def commit_steps_def write_log_def install_trans_def)
  qed (use n in \<open>simp add: commit_def commit_steps_def write_log_def\<close>)
qed

text \<open>A transaction that is ready to be committed.\<close>

definition homes :: "'a klog_scheme \<Rightarrow> u32 set" where
  "homes s = lh_block s ` {..<nat (lh_n s)}"

definition commit_ready :: "'a klog_scheme \<Rightarrow> bool" where
  "commit_ready s \<longleftrightarrow> idle (homes s) s \<and> log_dev s = ROOTDEV \<and> log_fits s \<and> 0 < lh_n s \<and> log_holds s (nat (lh_n s)) \<and>
     homes_ok s (nat (lh_n s)) (lh_block s) \<and> sb_logstart (sb_of (disk s ROOTDEV 1)) = log_start s \<and>
     sint (sb_nlog (sb_of (disk s ROOTDEV 1))) = log_size s \<and>
     ld32 (disk s ROOTDEV (log_start s)) 0 = 0 \<and>
     (\<forall>b. b \<notin> lh_block s ` {..<nat (lh_n s)} \<longrightarrow> view s b = disk s ROOTDEV b)"

text \<open>
  The disks along the way. Before the header is written only log blocks differ; then the header names
  every block and the log holds their new contents; at the end the blocks themselves do.
\<close>

definition before_commit :: "'a klog_scheme \<Rightarrow> 'a klog_scheme \<Rightarrow> bool" where
  "before_commit s t \<longleftrightarrow> (\<forall>b. b \<notin> log_slot s ` {..<nat (lh_n s)} \<longrightarrow> disk t ROOTDEV b = disk s ROOTDEV b)"

definition committed :: "'a klog_scheme \<Rightarrow> 'a klog_scheme \<Rightarrow> bool" where
  "committed s t \<longleftrightarrow> sint (ld32 (disk t ROOTDEV (log_start s)) 0) = lh_n s \<and>
     (\<forall>i < nat (lh_n s). ld32 (disk t ROOTDEV (log_start s)) (4 + 4 * i) = lh_block s i \<and>
        (\<forall>j < BSIZE. disk t ROOTDEV (log_slot s i) j = view s (lh_block s i) j)) \<and>
     (\<forall>b. b \<notin> log_area s \<union> lh_block s ` {..<nat (lh_n s)} \<longrightarrow> disk t ROOTDEV b = disk s ROOTDEV b)"

definition installed :: "'a klog_scheme \<Rightarrow> 'a klog_scheme \<Rightarrow> bool" where
  "installed s t \<longleftrightarrow> ld32 (disk t ROOTDEV (log_start s)) 0 = 0 \<and>
     (\<forall>i < nat (lh_n s). \<forall>j < BSIZE. disk t ROOTDEV (lh_block s i) j = view s (lh_block s i) j) \<and>
     (\<forall>b. b \<notin> log_area s \<union> lh_block s ` {..<nat (lh_n s)} \<longrightarrow> disk t ROOTDEV b = disk s ROOTDEV b)"

lemma ready_facts:
  assumes "commit_ready s"
  shows "idle (homes s) s" "log_dev s = ROOTDEV" "log_fits s" "log_holds s (nat (lh_n s))" "int (nat (lh_n s)) = lh_n s"
    "homes_ok s (nat (lh_n s)) (lh_block s)" "inj_on (lh_block s) {..<nat (lh_n s)}"
    "nat (lh_n s) \<le> LOGSIZE" "k \<le> nat (lh_n s) \<Longrightarrow> lh_block s ` {..<k} \<subseteq> homes s"
  using assms by (auto simp: commit_ready_def homes_ok_def homes_def log_holds_def)

lemma log_phase:
  assumes r: "commit_ready s" and k: "k \<le> nat (lh_n s)"
  obtains t where "foldR log_block [0..<k] s = Ok t" "bio_frame s t" "before_commit s t" "logs.all_copied (homes s) k s t"
proof -
  note f = ready_facts [OF r]
  have kL: "log_holds s k" "k \<le> LOGSIZE" using log_holds_le(1) [OF f(4) k] log_holds_le(2) by auto
  have hk: "homes_ok s k (lh_block s)" using f(6) k by (auto simp: homes_ok_def inj_on_def)
  note hs = homes_slots [OF f(3) hk kL(1)]
  from logs.run [OF f(1,2) kL(2) _ log_slot_inj [OF f(3) kL(1)] _ f(9) [OF k]] hs obtain t where
    t: "foldR log_block [0..<k] s = Ok t" "logs.all_copied (homes s) k s t" by (auto simp: Int_commute)
  have "log_slot s ` {..<k} \<subseteq> log_slot s ` {..<nat (lh_n s)}" using k by (intro image_mono) simp
  then have "before_commit s t" using t(2) unfolding before_commit_def logs.all_copied_def by blast
  then show thesis using t by (intro that) (auto simp: logs.all_copied_def)
qed

text \<open>The header goes to the disk: the transaction is committed.\<close>

lemma head_phase:
  assumes r: "commit_ready s"
  obtains t u where "foldR log_block [0..<nat (lh_n s)] s = Ok t" "write_head t = Ok u" "idle (homes s) u" "bio_frame s u" "committed s u"
    "\<forall>i < nat (lh_n s). \<forall>j < BSIZE. view u (log_slot s i) j = view s (lh_block s i) j"
proof -
  note f = ready_facts [OF r]
  let ?n = "nat (lh_n s)" and ?S = "log_start s"
  from log_phase [OF r order_refl] obtain t where t: "foldR log_block [0..<?n] s = Ok t" "bio_frame s t"
    "before_commit s t" "logs.all_copied (homes s) ?n s t" .
  note ft = klog_frame_sel [OF t(2)]
  have ti: "idle (homes s) t" "log_dev t = ROOTDEV" "log_start t < FSSIZE" "lh_n t \<le> int LOGSIZE"
    using t(4) ft f(2,5,8) log_start_area(2) [OF f(3)] by (auto simp: logs.all_copied_def)
  from write_head_spec [OF ti] obtain u where u: "write_head t = Ok u" "idle (homes s) u" "bio_frame t u"
    "view u = (view t)(?S := head_data (lh_n s) (lh_block s) (view t ?S))"
    "disk u ROOTDEV = (disk t ROOTDEV)(?S := head_data (lh_n s) (lh_block s) (view t ?S))" unfolding ft .
  have ns: "log_slot s i \<noteq> ?S" "lh_block s i \<noteq> ?S" "lh_block s i \<notin> log_slot s ` {..<?n}" if "i < ?n" for i
    using log_slot_area(4) [OF f(3,4), of i] log_start_area(1) [OF f(3)] homes_slots(1) [OF f(3,6,4)] f(6) that
    by (auto simp: homes_ok_def)
  have sl: "view t (log_slot s i) j = view s (lh_block s i) j" "disk t ROOTDEV (log_slot s i) j = view s (lh_block s i) j"
    if "i < ?n" "j < BSIZE" for i j using t(4) that by (auto simp: logs.all_copied_def byte_simps)
  have out: "b \<notin> log_area s \<union> lh_block s ` {..<?n} \<Longrightarrow> b \<noteq> ?S \<and> b \<notin> log_slot s ` {..<?n}" for b
    using log_start_area(1) [OF f(3)] log_slot_area(2) [OF f(3,4)] by auto
  have hd: "sint (ld32 (head_data (lh_n s) (lh_block s) d) 0) = lh_n s"
    "i < ?n \<Longrightarrow> ld32 (head_data (lh_n s) (lh_block s) d) (4 + 4 * i) = lh_block s i" for i d
    using head_data_ld [of "lh_n s"] f(5,8) by auto
  have "committed s u" unfolding committed_def u(5)
    using hd sl(2) ns(1) t(3) out by (auto simp: before_commit_def)
  then show thesis using t(1,4) u sl(1) ns bio_frame_trans [OF t(2) u(3)]
    by (intro that [OF t(1) u(1)]) (auto simp: logs.all_copied_def)
qed

lemma install_phase:
  assumes r: "commit_ready s" and m: "m \<le> nat (lh_n s)"
  obtains w where "run_steps (map log_block [0..<nat (lh_n s)] @ [write_head] @ map install_block [0..<m]) s = Ok w"
    "idle (homes s) w" "bio_frame s w" "committed s w"
    "\<forall>i < m. \<forall>j < BSIZE. disk w ROOTDEV (lh_block s i) j = view s (lh_block s i) j"
proof -
  note f = ready_facts [OF r]
  let ?n = "nat (lh_n s)"
  from head_phase [OF r] obtain t u where u: "foldR log_block [0..<?n] s = Ok t" "write_head t = Ok u" "idle (homes s) u" "bio_frame s u"
    "committed s u" "\<forall>i < ?n. \<forall>j < BSIZE. view u (log_slot s i) j = view s (lh_block s i) j" .
  note fu = klog_frame_sel [OF u(4)] log_slot_frame [OF u(4)]
  have mL: "log_holds s m" "m \<le> LOGSIZE" using log_holds_le(1) [OF f(4) m] log_holds_le(2) by auto
  have hm: "homes_ok s m (lh_block s)" using f(6) m by (auto simp: homes_ok_def inj_on_def)
  have im: "inj_on (lh_block s) {..<m}" using hm by (simp add: homes_ok_def)
  note hs = homes_slots [OF f(3) hm mL(1)]
  from installs.run [OF u(3) _ mL(2), unfolded fu, OF f(2) hs(2) im hs(1) f(9) [OF m]] obtain w where
    w: "foldR install_block [0..<m] u = Ok w" "installs.all_copied (homes s) m u w" by blast
  have wf: "idle (homes s) w" "bio_frame s w" using w(2) bio_frame_trans [OF u(4)] by (auto simp: installs.all_copied_def)
  have new: "disk w ROOTDEV (lh_block s i) j = view s (lh_block s i) j" if "i < m" "j < BSIZE" for i j
    using w(2) u(6) that m by (simp add: installs.all_copied_def fu byte_simps)
  have old: "disk w ROOTDEV b = disk u ROOTDEV b" if "b \<notin> lh_block s ` {..<?n}" for b
  proof -
    have "b \<notin> lh_block s ` {..<m}" using that m by auto
    then show ?thesis using w(2) by (simp add: installs.all_copied_def fu)
  qed
  have ns: "log_start s \<notin> lh_block s ` {..<?n}" using f(6) log_start_area(1) [OF f(3)] by (auto simp: homes_ok_def)
  have nl: "log_slot s i \<notin> lh_block s ` {..<?n}" if "i < ?n" for i using homes_slots(1) [OF f(3,6,4)] that by auto
  have "committed s w" using u(5) unfolding committed_def old [OF ns] using old nl by auto
  then show thesis using u(1,2) w(1) wf new by (intro that [of w]) auto
qed

lemma final_phase:
  assumes r: "commit_ready s"
  obtains x where "run_steps (commit_steps (nat (lh_n s))) s = Ok x" "bio_frame (s\<lparr>lh_n := 0\<rparr>) x" "installed s x"
proof -
  note f = ready_facts [OF r]
  let ?n = "nat (lh_n s)"
  from install_phase [OF r order_refl] obtain w where w:
    "run_steps (map log_block [0..<?n] @ [write_head] @ map install_block [0..<?n]) s = Ok w" "idle (homes s) w" "bio_frame s w"
    "committed s w" "\<forall>i < ?n. \<forall>j < BSIZE. disk w ROOTDEV (lh_block s i) j = view s (lh_block s i) j" .
  let ?w = "w\<lparr>lh_n := 0\<rparr>"
  have wi: "idle (homes s) ?w" "log_dev ?w = ROOTDEV" "log_start ?w < FSSIZE" "lh_n ?w \<le> int LOGSIZE"
    using w(2) klog_frame_sel [OF w(3)] f(2) log_start_area(2) [OF f(3)] by simp_all
  from write_head_spec [OF wi] obtain x where x: "write_head ?w = Ok x" "bio_frame ?w x"
    "disk x ROOTDEV = (disk w ROOTDEV)(log_start s := head_data 0 (lh_block s) (view w (log_start s)))"
    using klog_frame_sel [OF w(3)] by auto
  have ok: "run_steps (commit_steps ?n) s = Ok x" using w(1) x(1) unfolding commit_steps_def by (auto simp: bindR_Ok_iff)
  have ns: "lh_block s i \<noteq> log_start s" if "i < ?n" for i
    using f(6) log_start_area(1) [OF f(3)] that by (auto simp: homes_ok_def)
  have z: "ld32 (head_data 0 (lh_block s) d) 0 = 0" for d by (simp add: head_data_def)
  have "b \<notin> log_area s \<Longrightarrow> b \<noteq> log_start s" for b using log_start_area(1) [OF f(3)] by auto
  then have "installed s x" using w(4,5) ns unfolding installed_def x(3) by (auto simp: z committed_def)
  moreover have "bio_frame (s\<lparr>lh_n := 0\<rparr>) ?w"
    using w(3) by (cases s, cases w) (simp add: bio_frame_def same_procs_def bio.defs)
  ultimately show thesis using ok bio_frame_trans [OF _ x(2)] by (intro that) auto
qed

text \<open>Where the steps before a crash leave the disk.\<close>

lemma length_commit_steps: "length (commit_steps n) = 2 * n + 2"
  by (simp add: commit_steps_def)

lemma crash_disk:
  assumes r: "commit_ready s" and k: "k \<le> length (commit_steps (nat (lh_n s)))"
  obtains t where "run_steps (take k (commit_steps (nat (lh_n s)))) s = Ok t"
    "havedisk1 t" "curproc t \<noteq> None" "log_start t = log_start s" "log_size t = log_size s" "lh_n s \<ge> int k \<longrightarrow> before_commit s t"
    "lh_n s < int k \<longrightarrow> committed s t \<or> installed s t"
proof -
  let ?n = "nat (lh_n s)"
  note f = ready_facts [OF r]
  have sf: "havedisk1 t" "curproc t \<noteq> None" "log_start t = log_start s" "log_size t = log_size s" if "bio_frame s t" for t
    using that f(1) klog_frame_sel(1,2) [OF that] by (simp_all add: idle_def bio_frame_def same_procs_def)
  have sz: "havedisk1 t" "curproc t \<noteq> None" "log_start t = log_start s" "log_size t = log_size s" if "bio_frame (s\<lparr>lh_n := 0\<rparr>) t" for t
    using that f(1) klog_frame_sel(1,2) [OF that] by (simp_all add: idle_def bio_frame_def same_procs_def)
  consider "k \<le> ?n" | "?n < k" "k < 2 * ?n + 2" | "k = 2 * ?n + 2" using k unfolding length_commit_steps by linarith
  then show thesis
  proof cases
    case 1
    from log_phase [OF r 1] obtain t where t: "foldR log_block [0..<k] s = Ok t" "bio_frame s t" "before_commit s t" .
    have ok: "run_steps (take k (commit_steps ?n)) s = Ok t" using t(1) 1 by (simp add: commit_steps_def take_map)
    have "int k \<le> lh_n s" using 1 f(5) by linarith
    then show thesis using t(3) by (intro that [OF ok sf [OF t(2)]]) simp_all
  next
    case 2
    define m where "m = k - ?n - 1"
    have m: "k = ?n + 1 + m" "m \<le> ?n" using 2 by (simp_all add: m_def)
    from install_phase [OF r m(2)] obtain w where
      w: "run_steps (map log_block [0..<?n] @ [write_head] @ map install_block [0..<m]) s = Ok w" "bio_frame s w" "committed s w" .
    have tk: "take k (commit_steps ?n) = map log_block [0..<?n] @ [write_head] @ map install_block [0..<m]"
      using m by (simp add: commit_steps_def take_map)
    have ok: "run_steps (take k (commit_steps ?n)) s = Ok w" unfolding tk by (rule w(1))
    have "lh_n s < int k" using 2(1) f(5) by linarith
    then show thesis using w(3) by (intro that [OF ok sf [OF w(2)]]) simp_all
  next
    case 3
    from final_phase [OF r] obtain x where x: "run_steps (commit_steps ?n) s = Ok x" "bio_frame (s\<lparr>lh_n := 0\<rparr>) x" "installed s x" .
    have ok: "run_steps (take k (commit_steps ?n)) s = Ok x" using x(1) 3 by (simp add: length_commit_steps)
    have "lh_n s < int k" using 3 f(5) by linarith
    then show thesis using x(3) by (intro that [OF ok sz [OF x(2)]]) simp_all
  qed
qed

text \<open>What recovery makes of those disks.\<close>

definition recovered :: "'a klog_scheme \<Rightarrow> 'a klog_scheme \<Rightarrow> (u32 \<Rightarrow> bytes) \<Rightarrow> bool" where
  "recovered s t D \<longleftrightarrow> (\<exists>u. initlog ROOTDEV (reboot t) = Ok u \<and> lh_n u = 0 \<and>
     ld32 (disk u ROOTDEV (log_start s)) 0 = 0 \<and>
     (\<forall>b j. b \<notin> log_area s \<and> j < BSIZE \<longrightarrow> disk u ROOTDEV b j = D b j))"

definition crashed :: "'a klog_scheme \<Rightarrow> 'a klog_scheme \<Rightarrow> bool" where
  "crashed s t \<longleftrightarrow> havedisk1 t \<and> curproc t \<noteq> None \<and> log_start t = log_start s \<and> log_size t = log_size s \<and> disk t ROOTDEV 1 = disk s ROOTDEV 1"

lemma crashed_geometry:
  assumes "commit_ready s" "crashed s t"
  shows "sb_logstart (sb_of (disk t ROOTDEV 1)) = log_start t" "sint (sb_nlog (sb_of (disk t ROOTDEV 1))) = log_size t" "log_fits t"
    "log_slot t = log_slot s" "homes_ok t m h = homes_ok s m h" "log_holds t m = log_holds s m"
proof -
  have t: "log_start t = log_start s" "log_size t = log_size s" "disk t ROOTDEV 1 = disk s ROOTDEV 1" using assms(2) by (simp_all add: crashed_def)
  show "sb_logstart (sb_of (disk t ROOTDEV 1)) = log_start t" "sint (sb_nlog (sb_of (disk t ROOTDEV 1))) = log_size t" "log_fits t"
    using assms(1) unfolding t commit_ready_def log_fits_def by simp_all
  show "log_slot t = log_slot s" "homes_ok t m h = homes_ok s m h" "log_holds t m = log_holds s m"
    by (simp_all add: log_slot_def fun_eq_iff homes_ok_def log_area_def log_holds_def t)
qed

lemma recovered_empty:
  assumes r: "commit_ready s" and c: "crashed s t" and z: "ld32 (disk t ROOTDEV (log_start s)) 0 = 0"
    and D: "\<And>b j. b \<notin> log_area s \<Longrightarrow> j < BSIZE \<Longrightarrow> disk t ROOTDEV b j = D b j"
  shows "recovered s t D"
proof -
  note g = crashed_geometry [OF r c]
  have t: "havedisk1 t" "curproc t \<noteq> None" "log_start t = log_start s" using c by (simp_all add: crashed_def)
  have z': "sint (ld32 (disk t ROOTDEV (log_start t)) 0) = int 0" using z t(3) by simp
  have S: "b \<notin> log_area s \<Longrightarrow> b \<noteq> log_start s" for b using log_start_area(1) [OF ready_facts(3) [OF r]] by auto
  from reboot_recovers [OF t(1,2) g(1-3) z', of "\<lambda>_. 0"] obtain u where u: "initlog ROOTDEV (reboot t) = Ok u" "lh_n u = 0"
    "ld32 (disk u ROOTDEV (log_start s)) 0 = 0" "\<And>b. b \<noteq> log_start s \<Longrightarrow> disk u ROOTDEV b = disk t ROOTDEV b"
    using log_holds_le(1) [OF ready_facts(4) [OF r], of 0] by (auto simp: homes_ok_def t(3) g(6))
  then show ?thesis using D S by (auto simp: recovered_def)
qed

lemma recovered_committed:
  assumes r: "commit_ready s" and c: "crashed s t" and cm: "committed s t"
  shows "recovered s t (view s)"
proof -
  let ?n = "nat (lh_n s)"
  note f = ready_facts [OF r] and g = crashed_geometry [OF r c]
  have t: "havedisk1 t" "curproc t \<noteq> None" "log_start t = log_start s" using c by (simp_all add: crashed_def)
  have n: "sint (ld32 (disk t ROOTDEV (log_start t)) 0) = int ?n" using cm f(5) t(3) by (simp add: committed_def)
  have hh: "i < ?n \<Longrightarrow> ld32 (disk t ROOTDEV (log_start t)) (4 + 4 * i) = lh_block s i" for i using cm t(3) by (simp add: committed_def)
  from reboot_recovers [OF t(1,2) g(1-3) n _ hh] f(4,6) obtain u where u: "initlog ROOTDEV (reboot t) = Ok u" "lh_n u = 0"
    "ld32 (disk u ROOTDEV (log_start s)) 0 = 0"
    "\<And>i. i < ?n \<Longrightarrow> disk u ROOTDEV (lh_block s i) = blit (disk t ROOTDEV (lh_block s i)) 0 (disk t ROOTDEV (log_slot s i)) 0 BSIZE"
    "\<And>b. b \<notin> lh_block s ` {..<?n} \<Longrightarrow> b \<noteq> log_start s \<Longrightarrow> disk u ROOTDEV b = disk t ROOTDEV b"
    by (auto simp: g(4-6) t(3))
  have "disk u ROOTDEV b j = view s b j" if b: "b \<notin> log_area s" "j < BSIZE" for b j
  proof (cases "b \<in> lh_block s ` {..<?n}")
    case True
    then show ?thesis using u(4) cm b(2) by (auto simp: committed_def byte_simps)
  next
    case False
    moreover have "b \<noteq> log_start s" using b(1) log_start_area(1) [OF f(3)] by auto
    ultimately show ?thesis using u(5) cm b(1) r by (simp add: committed_def commit_ready_def)
  qed
  then show ?thesis using u(1-3) by (auto simp: recovered_def)
qed

lemma crash_recovers:
  assumes r: "commit_ready s" and k: "k \<le> length (commit_steps (nat (lh_n s)))"
  obtains t where "run_steps (take k (commit_steps (nat (lh_n s)))) s = Ok t"
    "recovered s t (if int k \<le> lh_n s then disk s ROOTDEV else view s)"
proof -
  let ?n = "nat (lh_n s)"
  note f = ready_facts [OF r]
  from crash_disk [OF r k] obtain t where t: "run_steps (take k (commit_steps ?n)) s = Ok t"
    "havedisk1 t" "curproc t \<noteq> None" "log_start t = log_start s" "log_size t = log_size s" "lh_n s \<ge> int k \<longrightarrow> before_commit s t"
    "lh_n s < int k \<longrightarrow> committed s t \<or> installed s t" .
  have one: "1 \<notin> log_area s" "1 \<notin> lh_block s ` {..<?n}" using log_start_area(3) [OF f(3)] f(6) by (auto simp: homes_ok_def)
  have st: "log_start s \<notin> log_slot s ` {..<?n}"
  proof
    assume "log_start s \<in> log_slot s ` {..<?n}"
    then obtain i where "i < ?n" "log_start s = log_slot s i" by auto
    then show False using log_slot_area(4) [OF f(3,4), of i] by simp
  qed
  have sl: "b \<notin> log_slot s ` {..<?n}" if "b \<notin> log_area s" for b using that log_slot_area(2) [OF f(3,4)] by force
  have c: "crashed s t" using t(2-7) one sl [OF one(1)]
    by (cases "int k \<le> lh_n s") (auto simp: crashed_def before_commit_def committed_def installed_def)
  have "recovered s t (if int k \<le> lh_n s then disk s ROOTDEV else view s)"
  proof (cases "int k \<le> lh_n s")
    case True
    then have b: "before_commit s t" using t(6) by simp
    then have "recovered s t (disk s ROOTDEV)" using r st sl
      by (intro recovered_empty [OF r c]) (auto simp: before_commit_def commit_ready_def)
    with True show ?thesis by simp
  next
    case False
    with t(7) have "committed s t \<or> installed s t" by simp
    moreover have "recovered s t (view s)" if i: "installed s t"
    proof (rule recovered_empty [OF r c])
      fix b j assume b: "b \<notin> log_area s" "j < BSIZE"
      show "disk t ROOTDEV b j = view s b j"
        using i b r by (cases "b \<in> lh_block s ` {..<?n}") (auto simp: installed_def commit_ready_def)
    qed (use i in \<open>simp add: installed_def\<close>)
    ultimately show ?thesis using recovered_committed [OF r c] False by auto
  qed
  with t(1) show thesis by (rule that)
qed

text \<open>
  C3. A commit is atomic with respect to crashes, for a transaction whose blocks lie behind the superblock and
  outside the log and fit into it, when no other block is dirty in the cache, no buffer is held, and one
  buffer is clean if every block of the transaction is in a dirty buffer, as log_write leaves
  them, or two otherwise. After any number of the block writes of the commit the
  machine may stop: when it starts again, initlog returns with an empty log, and every block outside the
  log.size blocks of the log, the inode blocks right behind it included, has its old content if the header had
  not been written yet, and its new content otherwise. All the steps together are the commit.
\<close>

theorem commit_crash_atomic:
  assumes r: "commit_ready s" and k: "k \<le> length (commit_steps (nat (lh_n s)))"
  shows "commit s = run_steps (commit_steps (nat (lh_n s))) s \<and>
    (\<exists>t u. run_steps (take k (commit_steps (nat (lh_n s)))) s = Ok t \<and> initlog ROOTDEV (reboot t) = Ok u \<and> lh_n u = 0 \<and>
      ld32 (disk u ROOTDEV (log_start s)) 0 = 0 \<and>
      (\<forall>b j. b \<notin> log_area s \<and> j < BSIZE \<longrightarrow>
         disk u ROOTDEV b j = (if int k \<le> lh_n s then disk s ROOTDEV else view s) b j))"
proof -
  have "commit s = run_steps (commit_steps (nat (lh_n s))) s" using r by (intro commit_run) (simp add: commit_ready_def)
  moreover from crash_recovers [OF r k] obtain t where "run_steps (take k (commit_steps (nat (lh_n s)))) s = Ok t"
    "recovered s t (if int k \<le> lh_n s then disk s ROOTDEV else view s)" .
  ultimately show ?thesis unfolding recovered_def by blast
qed

text \<open>A machine with a transaction of one block, number 32. Its log is at the blocks 2 to 31, so that block
  32, where the inodes start in such a file system, is the first one behind the log.\<close>

definition one_block_log :: klog where
  "one_block_log = (quiet_vm (\<lambda>_. zero_proc) (\<lambda>_ b. if b = 1 then st32 (st32 (\<lambda>_. 0) 12 30) 24 2 else (\<lambda>_. 0))
     \<lparr>log_start = 2, log_size = 30, outstanding = 0, committing = True, log_dev = ROOTDEV, lh_n = 1, lh_block = (\<lambda>_. 32)\<rparr>)
     \<lparr>bufs := (\<lambda>b. empty_buf)(0 := empty_buf\<lparr>b_flags := 6, b_dev := ROOTDEV, b_blockno := 32, b_data := (\<lambda>_. 7)\<rparr>)\<rparr>"

lemma one_block_sel:
  "bufs one_block_log b = (if b = 0 then empty_buf\<lparr>b_flags := 6, b_dev := ROOTDEV, b_blockno := 32, b_data := (\<lambda>_. 7)\<rparr> else empty_buf)"
  "disk one_block_log d n = (if n = 1 then st32 (st32 (\<lambda>_. 0) 12 30) 24 2 else (\<lambda>_. 0))" "lru one_block_log = rev [0..<NBUF]"
  "idequeue one_block_log = []" "\<not> ide_err one_block_log" "havedisk1 one_block_log" "curproc one_block_log = Some 0"
  "log_start one_block_log = 2" "log_size one_block_log = 30" "lh_n one_block_log = 1" "lh_block one_block_log = (\<lambda>_. 32)" "log_dev one_block_log = ROOTDEV"
  by (simp_all add: one_block_log_def quiet_vm_def quiet_ext_def)

lemma one_block_idle: "idle H one_block_log"
proof -
  have f: "bit (6 :: u32) (Suc 0)" "bit (6 :: u32) 2" by (simp_all add: bit_iff_odd)
  have "bio_inv one_block_log"
    unfolding bio_inv_def one_block_sel(1,2,3,4) using one_block_sel(5) f by (auto simp: empty_buf_def initsleeplock_def)
  moreover have "clean_bufs one_block_log = {1..<NBUF}"
    using f by (auto simp: clean_bufs_def one_block_sel(1) empty_buf_def)
  ultimately show ?thesis
    using one_block_sel(6,7) by (auto simp: idle_def one_block_sel(1) empty_buf_def initsleeplock_def)
qed

lemma one_block_view: "view one_block_log b = (if b = 32 then (\<lambda>_. 7) else disk one_block_log ROOTDEV b)"
proof -
  have c: "cached one_block_log b c \<longleftrightarrow> c = 0 \<and> b = 32" for c
    by (auto simp: cached_def one_block_sel(1) empty_buf_def bit_iff_odd)
  have inv: "bio_inv one_block_log" using one_block_idle by (simp add: idle_def)
  show ?thesis
  proof (cases "b = 32")
    case True
    then show ?thesis using view_cached [OF inv, of b 0] c by (simp add: one_block_sel(1))
  next
    case False
    then show ?thesis using view_uncached [of one_block_log b] c by simp
  qed
qed

lemma one_block_ready: "commit_ready one_block_log"
proof -
  have "log_fits one_block_log" "homes_ok one_block_log (nat (lh_n one_block_log)) (lh_block one_block_log)"
    "log_holds one_block_log (nat (lh_n one_block_log))"
    by (simp_all add: log_fits_def log_holds_def homes_ok_def one_block_sel log_area_def inj_on_def)
  moreover have "sb_logstart (sb_of (disk one_block_log ROOTDEV 1)) = log_start one_block_log"
    "sint (sb_nlog (sb_of (disk one_block_log ROOTDEV 1))) = log_size one_block_log"
    by (simp_all add: sb_of_def one_block_sel ld32_st32_disjoint)
  moreover have "ld32 (\<lambda>_. 0) 0 = 0" by (simp add: ld32_def)
  ultimately show ?thesis using one_block_idle by (auto simp: commit_ready_def one_block_view one_block_sel)
qed

theorem commit_crash_atomic_witness:
  "(\<exists>t u. run_steps (take 1 (commit_steps 1)) one_block_log = Ok t \<and> initlog ROOTDEV (reboot t) = Ok u \<and>
     disk u ROOTDEV 32 9 = 0) \<and>
   (\<exists>t u. run_steps (take 2 (commit_steps 1)) one_block_log = Ok t \<and> initlog ROOTDEV (reboot t) = Ok u \<and>
     disk u ROOTDEV 32 9 = 7)"
proof -
  have n: "lh_n one_block_log = 1" "nat 1 = 1" by (simp_all add: one_block_sel)
  have a: "32 \<notin> log_area one_block_log" by (simp add: log_area_def one_block_sel)
  have k: "1 \<le> length (commit_steps 1 :: (klog \<Rightarrow> klog res) list)" "2 \<le> length (commit_steps 1 :: (klog \<Rightarrow> klog res) list)"
    by (simp_all only: length_commit_steps)
  note c = commit_crash_atomic [OF one_block_ready, unfolded n]
  from c [OF k(1)] obtain t u where 1: "run_steps (take 1 (commit_steps 1)) one_block_log = Ok t"
    "initlog ROOTDEV (reboot t) = Ok u" "disk u ROOTDEV 32 9 = 0" using a by (auto simp: one_block_sel(2))
  from c [OF k(2)] obtain t' u' where 2: "run_steps (take 2 (commit_steps 1)) one_block_log = Ok t'"
    "initlog ROOTDEV (reboot t') = Ok u'" "disk u' ROOTDEV 32 9 = 7" using a by (auto simp: one_block_view)
  from 1 2 show ?thesis by blast
qed

end
