(* ===== verification/Reserve.thy ===== *)
theory Reserve
  imports Commit
begin

text \<open>
  The reservation discipline of the log (src/log.c, begin_op, log_write and end_op) over runs of several
  operations: what is logged and what may still be logged fits into the header block.
\<close>

unbundle bit_operations_syntax

section \<open>Reservations\<close>

text \<open>
  Operations and the blocks they may still log. A step is the start of an operation, which reserves
  MAXOPBLOCKS blocks, a log_write by an operation that has blocks left, or the end of an operation.
\<close>

inductive log_step :: "(nat \<Rightarrow> nat option) \<times> 'a klog_scheme \<Rightarrow> (nat \<Rightarrow> nat option) \<times> 'a klog_scheme \<Rightarrow> bool" where
  begins: "begin_op s = Ok t \<Longrightarrow> left i = None \<Longrightarrow> log_step (left, s) (left(i \<mapsto> MAXOPBLOCKS), t)"
| writes: "left i = Some (Suc k) \<Longrightarrow> log_write b s = Ok t \<Longrightarrow> log_step (left, s) (left(i \<mapsto> k), t)"
| ends: "left i = Some k \<Longrightarrow> end_op s = Ok t \<Longrightarrow> log_step (left, s) (left(i := None), t)"

inductive log_steps :: "(nat \<Rightarrow> nat option) \<times> 'a klog_scheme \<Rightarrow> (nat \<Rightarrow> nat option) \<times> 'a klog_scheme \<Rightarrow> bool" where
  none: "log_steps c c"
| more: "log_steps c d \<Longrightarrow> log_step d e \<Longrightarrow> log_steps c e"

definition owed :: "(nat \<Rightarrow> nat option) \<Rightarrow> int" where
  "owed left = (\<Sum>i\<in>dom left. int (the (left i)))"

definition log_inv :: "(nat \<Rightarrow> nat option) \<times> 'a klog_scheme \<Rightarrow> bool" where
  "log_inv = (\<lambda>(left, s). finite (dom left) \<and> outstanding s = int (card (dom left)) \<and>
     (\<forall>i k. left i = Some k \<longrightarrow> k \<le> MAXOPBLOCKS) \<and> 0 \<le> lh_n s \<and> lh_n s + owed left \<le> int LOGSIZE)"

lemma owed_upd:
  assumes "finite (dom left)"
  shows "left i = None \<Longrightarrow> owed (left(i \<mapsto> k)) = owed left + int k"
    "left i = Some m \<Longrightarrow> owed (left(i \<mapsto> k)) = owed left - int m + int k"
    "left i = Some m \<Longrightarrow> owed (left(i := None)) = owed left - int m"
proof -
  have s: "(\<Sum>j\<in>dom left - {i}. int (the ((left(i \<mapsto> k)) j))) = (\<Sum>j\<in>dom left - {i}. int (the (left j)))" for k
    by (rule sum.cong) auto
  have s': "(\<Sum>j\<in>dom left - {i}. int (the ((left(i := None)) j))) = (\<Sum>j\<in>dom left - {i}. int (the (left j)))"
    by (rule sum.cong) auto
  have r: "left i = Some m \<Longrightarrow> owed left = int m + (\<Sum>j\<in>dom left - {i}. int (the (left j)))" for m
    unfolding owed_def using sum.remove [OF assms, of i "\<lambda>j. int (the (left j))"] by (auto simp: domI)
  show "left i = None \<Longrightarrow> owed (left(i \<mapsto> k)) = owed left + int k"
    using assms s [of k] unfolding owed_def by (simp add: domIff sum.insert_remove)
  show "left i = Some m \<Longrightarrow> owed (left(i \<mapsto> k)) = owed left - int m + int k"
    using assms s [of k] r unfolding owed_def by (simp add: sum.insert_remove)
  show "left i = Some m \<Longrightarrow> owed (left(i := None)) = owed left - int m"
    using s' r unfolding owed_def by simp
qed

lemma owed_le:
  assumes "finite (dom left)" "\<forall>i k. left i = Some k \<longrightarrow> k \<le> MAXOPBLOCKS"
  shows "owed left \<le> int (card (dom left)) * int MAXOPBLOCKS" "0 \<le> owed left"
proof -
  have "int (the (left i)) \<le> int MAXOPBLOCKS" if "i \<in> dom left" for i using assms(2) that by fastforce
  from sum_bounded_above [of "dom left", OF this] show "owed left \<le> int (card (dom left)) * int MAXOPBLOCKS"
    unfolding owed_def by simp
  show "0 \<le> owed left" unfolding owed_def by (rule sum_nonneg) simp
qed


lemma klog_more_sel:
  assumes "bio.more s = bio.more (t :: 'a klog_scheme)"
  shows "lh_n s = lh_n t" "outstanding s = outstanding t" "log_size s = log_size t" "committing s = committing t"
  using assms by (cases s, cases t, simp add: bio.defs)+

lemma install_block_more: "install_block k s = Ok s' \<Longrightarrow> bio.more s' = bio.more s"
  by (auto simp: install_block_def bindR_Ok_iff dest!: bread_more bwrite_more brelse_more split: if_splits)

lemma foldR_more:
  assumes "foldR f xs s = Ok s'" "\<And>x t t'. f x t = Ok t' \<Longrightarrow> bio.more t' = bio.more t"
  shows "bio.more s' = bio.more s"
  by (rule foldR_invariant [OF assms(1), of "\<lambda>t. bio.more t = bio.more s"]) (auto dest: assms(2))

text \<open>A commit empties the log and keeps the other counters.\<close>

lemma commit_counts:
  assumes "commit s = Ok t"
  shows "lh_n t = (if 0 < lh_n s then 0 else lh_n s)" "outstanding t = outstanding s" "log_size t = log_size s"
    "committing t = committing s"
proof -
  have "lh_n t = 0 \<and> outstanding t = outstanding s \<and> log_size t = log_size s \<and> committing t = committing s" if n: "0 < lh_n s"
  proof -
    from assms n obtain a b c where abc: "write_log s = Ok a" "write_head a = Ok b" "install_trans b = Ok c"
      "write_head (c\<lparr>lh_n := 0\<rparr>) = Ok t" by (auto simp: commit_def bindR_Ok_iff)
    have "bio.more a = bio.more s" using abc(1) unfolding write_log_def by (rule foldR_more) (rule log_block_more)
    moreover have "bio.more c = bio.more b" using abc(3) unfolding install_trans_def by (rule foldR_more) (rule install_block_more)
    ultimately have "bio.more c = bio.more s" using write_head_more [OF abc(2)] by simp
    then show ?thesis using klog_more_sel [of c s] klog_more_sel [OF write_head_more [OF abc(4)]] by simp
  qed
  then show "lh_n t = (if 0 < lh_n s then 0 else lh_n s)" "outstanding t = outstanding s" "log_size t = log_size s"
    "committing t = committing s" using assms
    by (cases "0 < lh_n s"; simp add: commit_def)+
qed

lemma klog_wakeup [simp]:
  "lh_n (wakeup ch s) = lh_n s" "outstanding (wakeup ch s) = outstanding s" "log_size (wakeup ch s) = log_size s"
  "committing (wakeup ch s) = committing s"
  by (simp_all add: wakeup_def wakeup1_def)

lemma end_op_counts:
  assumes "end_op s = Ok t" "0 \<le> lh_n s"
  shows "outstanding t = outstanding s - 1" "log_size t = log_size s" "lh_n t = (if outstanding s = 1 then 0 else lh_n s)"
  using assms commit_counts [of "s\<lparr>outstanding := outstanding s - 1, committing := True\<rparr>"]
  by (auto simp: end_op_def Let_def bindR_Ok_iff split: if_splits)

lemma log_write_counts:
  assumes "log_write b s = Ok t" "0 \<le> lh_n s"
  shows "outstanding t = outstanding s" "log_size t = log_size s" "lh_n s \<le> lh_n t" "lh_n t \<le> lh_n s + 1"
  using assms by (auto simp: log_write_def Let_def upd_buf_def split: if_splits)

lemma log_step_inv: "log_step c d \<Longrightarrow> log_inv c \<Longrightarrow> log_inv d"
proof (induction rule: log_step.induct)
  case (begins s t left i)
  then have fin: "finite (dom left)" and bd: "\<forall>i k. left i = Some k \<longrightarrow> k \<le> MAXOPBLOCKS"
    and ou: "outstanding s = int (card (dom left))" and n: "0 \<le> lh_n s" by (auto simp: log_inv_def)
  have t: "t = s\<lparr>outstanding := outstanding s + 1\<rparr>" "lh_n s + (outstanding s + 1) * int MAXOPBLOCKS \<le> int LOGSIZE"
    using begins(1) by (auto simp: begin_op_def split: if_splits)
  have "card (dom (left(i \<mapsto> MAXOPBLOCKS))) = Suc (card (dom left))" using fin begins(2) by (simp add: domIff)
  then show ?case using fin bd ou n t owed_le(1) [OF fin bd] owed_upd(1) [OF fin begins(2), of MAXOPBLOCKS]
    by (auto simp: log_inv_def split: if_splits)
next
  case (writes left i k b s t)
  then have fin: "finite (dom left)" and n: "0 \<le> lh_n s" by (auto simp: log_inv_def)
  have "dom (left(i \<mapsto> k)) = dom left" using writes(1) by auto
  then show ?case using writes log_write_counts [OF writes(2) n] owed_upd(2) [OF fin writes(1), of k]
    by (auto simp: log_inv_def split: if_splits dest: Suc_leD)
next
  case (ends left i k s t)
  then have fin: "finite (dom left)" and n: "0 \<le> lh_n s" and bd: "\<forall>i k. left i = Some k \<longrightarrow> k \<le> MAXOPBLOCKS" by (auto simp: log_inv_def)
  have "i \<in> dom left" using ends(1) by auto
  then have c: "card (dom (left(i := None))) = card (dom left) - 1" "card (dom left) > 0"
    using fin by (auto simp: card_gt_0_iff)
  have bd': "\<forall>j m. (left(i := None)) j = Some m \<longrightarrow> m \<le> MAXOPBLOCKS" using bd by (auto split: if_splits)
  have ou: "outstanding s = int (card (dom left))" "lh_n s + owed left \<le> int LOGSIZE" using ends(3) by (auto simp: log_inv_def)
  note e = end_op_counts [OF ends(2) n] and o = owed_upd(3) [OF fin ends(1)]
  have "finite (dom (left(i := None)))" using fin by simp
  moreover have "outstanding t = int (card (dom (left(i := None))))" using e(1) ou(1) c by (simp add: of_nat_diff)
  moreover have "0 \<le> lh_n t" "lh_n t + owed (left(i := None)) \<le> int LOGSIZE" using e(3) o ou(2) n by (auto split: if_splits)
  ultimately show ?case using bd' by (simp only: log_inv_def prod.case simp_thms)
qed

text \<open>
  C16. The log never overflows: from an empty log, whatever operations begin, write and end in whatever
  order, the blocks that are logged and those that running operations may still log fit into the header.
  An operation that keeps to its MAXOPBLOCKS blocks is therefore never refused, provided the log on the
  disk has room for LOGSIZE blocks and its header.
\<close>

theorem log_reservations:
  assumes st: "log_steps (Map.empty, s) (left, t)" and s: "lh_n s = 0" "outstanding s = 0"
  shows "0 \<le> lh_n t \<and> lh_n t + owed left \<le> int LOGSIZE \<and> outstanding t = int (card (dom left)) \<and>
    (\<forall>i k b. left i = Some (Suc k) \<and> int LOGSIZE < log_size t \<longrightarrow> (\<exists>u. log_write b t = Ok u))"
proof -
  have "log_inv (Map.empty, s)" using s by (simp add: log_inv_def owed_def)
  with st have inv: "log_inv (left, t)"
    by (induction "(Map.empty :: nat \<Rightarrow> nat option, s)" "(left, t)" arbitrary: left t rule: log_steps.induct) (auto intro: log_step_inv)
  have "\<exists>u. log_write b t = Ok u" if l: "left i = Some (Suc k)" "int LOGSIZE < log_size t" for i k b
  proof -
    have fin: "finite (dom left)" and ou: "outstanding t = int (card (dom left))" "lh_n t + owed left \<le> int LOGSIZE"
      and bd: "\<forall>i k. left i = Some k \<longrightarrow> k \<le> MAXOPBLOCKS" using inv by (auto simp: log_inv_def)
    have "i \<in> dom left" using l(1) by auto
    then have "0 < card (dom left)" using fin by (auto simp: card_gt_0_iff)
    moreover have bd': "\<forall>j m. (left(i := None)) j = Some m \<longrightarrow> m \<le> MAXOPBLOCKS" using bd by (auto split: if_splits)
    then have "0 \<le> owed (left(i := None))" using fin by (intro owed_le(2)) auto
    then have "1 \<le> owed left" using owed_upd(3) [OF fin l(1)] by simp
    ultimately show ?thesis using ou l(2) by (auto simp: log_write_def Let_def)
  qed
  then show ?thesis using inv by (auto simp: log_inv_def)
qed

theorem log_reservations_witness:
  "\<exists>t. log_steps (Map.empty, one_block_log\<lparr>lh_n := 0, committing := False, log_size := 31\<rparr>) (Map.empty(5 \<mapsto> MAXOPBLOCKS), t) \<and>
     lh_n t + owed (Map.empty(5 \<mapsto> MAXOPBLOCKS)) \<le> int LOGSIZE \<and> (\<exists>u. log_write 0 t = Ok u)"
proof -
  let ?s = "one_block_log\<lparr>lh_n := 0, committing := False, log_size := 31\<rparr>"
  have z: "lh_n ?s = 0" "outstanding ?s = 0" by (simp_all add: one_block_log_def quiet_vm_def quiet_ext_def)
  obtain t where t: "begin_op ?s = Ok t" "log_size t = 31" using z by (simp add: begin_op_def)
  then have st: "log_steps (Map.empty, ?s) (Map.empty(5 \<mapsto> MAXOPBLOCKS), t)"
    by (intro log_steps.more [OF log_steps.none] log_step.begins) auto
  have l: "(Map.empty(5 \<mapsto> MAXOPBLOCKS)) 5 = Some (Suc 9)" "int LOGSIZE < log_size t" using t by simp_all
  from log_reservations [OF st z] st l show ?thesis by (intro exI [of _ t]) blast
qed

text \<open>Distinct buffers 0, 1, ... logged one after the other fill the header one entry each.\<close>

definition filled :: "nat \<Rightarrow> 'a klog_scheme \<Rightarrow> bool" where
  "filled k s \<longleftrightarrow> lh_n s = int k \<and> log_size s = int LOGSIZE \<and> inj_on (\<lambda>b. b_blockno (bufs s b)) {0..<LOGSIZE} \<and>
     (\<forall>j < k. lh_block s j = b_blockno (bufs s j))"

lemma log_write_fills:
  assumes f: "filled k s" and k: "k < LOGSIZE - 1" and o: "1 \<le> outstanding s"
  shows "\<exists>t. log_write k s = Ok t \<and> filled (Suc k) t \<and> outstanding t = outstanding s"
proof -
  have inj: "b_blockno (bufs s j) = b_blockno (bufs s k) \<longleftrightarrow> j = k" if "j < LOGSIZE" for j
    using f k that by (auto simp: filled_def inj_on_def)
  have "List.find (\<lambda>i. lh_block s i = b_blockno (bufs s k)) [0..<k] = None"
    using f k by (auto simp: find_None_iff filled_def inj)
  then have i: "log_index (b_blockno (bufs s k)) s = k" using f by (simp add: log_index_def filled_def)
  let ?t = "upd_buf k (\<lambda>bf. bf\<lparr>b_flags := b_flags bf OR B_DIRTY\<rparr>)
    (s\<lparr>lh_block := (lh_block s)(k := b_blockno (bufs s k)), lh_n := lh_n s + 1\<rparr>)"
  have n: "lh_n s = int k" "log_size s = int LOGSIZE" using f by (simp_all add: filled_def)
  have "log_write k s = Ok ?t" using n k o i by (simp add: log_write_def)
  moreover have b: "b_blockno (bufs ?t j) = b_blockno (bufs s j)" for j by (simp add: upd_buf_def)
  have "filled (Suc k) ?t"
    using f unfolding filled_def b by (auto simp: upd_buf_def less_Suc_eq)
  moreover have "outstanding ?t = outstanding s" by (simp add: upd_buf_def)
  ultimately show ?thesis by blast
qed

lemma op_fills:
  assumes "left i = Some (m + r)" "filled k s" "k + m \<le> LOGSIZE - 1" "1 \<le> outstanding s"
  shows "\<exists>t. log_steps (left, s) (left(i \<mapsto> r), t) \<and> filled (k + m) t \<and> outstanding t = outstanding s"
  using assms
proof (induction m arbitrary: r)
  case 0
  then have "left(i \<mapsto> r) = left" by auto
  then show ?case using 0 log_steps.none [of "(left, s)"] by auto
next
  case (Suc m)
  have p: "left i = Some (m + Suc r)" "k + m \<le> LOGSIZE - 1" "k + m < LOGSIZE - 1" using Suc.prems by simp_all
  from Suc.IH [OF p(1) Suc.prems(2) p(2) Suc.prems(4)] obtain t where t: "log_steps (left, s) (left(i \<mapsto> Suc r), t)"
    "filled (k + m) t" "outstanding t = outstanding s" by blast
  have "1 \<le> outstanding t" using Suc.prems(4) t(3) by simp
  from log_write_fills [OF t(2) p(3) this] obtain u where u: "log_write (k + m) t = Ok u" "filled (Suc (k + m)) u"
    "outstanding u = outstanding t" by blast
  have "log_steps (left, s) ((left(i \<mapsto> Suc r))(i \<mapsto> r), u)"
    by (rule log_steps.more [OF t(1)], rule log_step.writes [OF _ u(1)]) simp
  then have "log_steps (left, s) (left(i \<mapsto> r), u)" by (simp only: fun_upd_upd)
  moreover have "filled (k + Suc m) u" "outstanding u = outstanding s" using u t(3) by simp_all
  ultimately show ?case by blast
qed

lemma log_steps_trans: "log_steps d e \<Longrightarrow> log_steps c d \<Longrightarrow> log_steps c e"
  by (induction rule: log_steps.induct) (auto intro: log_steps.more)

text \<open>
  C35. With the log that mkfs lays out, LOGSIZE blocks of which one is the header, begin_op promises one
  block too many: from every empty log there is a run of three operations, each within its MAXOPBLOCKS
  blocks, after which one of them still has a block to its credit and log_write panics.
\<close>

theorem reserved_block_refused:
  assumes s: "lh_n s = 0" "outstanding s = 0" "\<not> committing s" "log_size s = int LOGSIZE"
    and inj: "inj_on (\<lambda>b. b_blockno (bufs s b)) {0..<LOGSIZE}"
  shows "\<exists>left t i. log_steps (Map.empty, s) (left, t) \<and> left i = Some 1 \<and>
    (\<forall>b. log_write b t = Err (Panic ''too big a transaction''))"
proof -
  define l where "l = [3 \<mapsto> MAXOPBLOCKS, 4 \<mapsto> MAXOPBLOCKS, (5 :: nat) \<mapsto> MAXOPBLOCKS]"
  let ?s = "\<lambda>k. s\<lparr>outstanding := k\<rparr>"
  have l: "l (3 :: nat) = Some (MAXOPBLOCKS + 0)" "(l(3 \<mapsto> 0)) 4 = Some (MAXOPBLOCKS + 0)"
    "(l(3 \<mapsto> 0, 4 \<mapsto> 0)) 5 = Some (9 + 1)" by (simp_all add: l_def)
  have b: "log_steps (Map.empty, s) (l, ?s 3)" unfolding l_def
    by (rule log_steps.more [OF log_steps.more [OF log_steps.more [OF log_steps.none
        log_step.begins [where t = "?s 1"]] log_step.begins [where t = "?s 2"]] log_step.begins [where t = "?s 3"]])
      (simp_all add: begin_op_def s)
  have f: "filled 0 (?s 3)" using s inj by (simp add: filled_def)
  have "\<exists>t. log_steps (l, ?s 3) (l(3 \<mapsto> 0), t) \<and> filled (0 + MAXOPBLOCKS) t \<and> outstanding t = outstanding (?s 3)"
    by (rule op_fills [of l 3 MAXOPBLOCKS 0 0 "?s 3", OF l(1) f]) simp_all
  then obtain t where t: "log_steps (l, ?s 3) (l(3 \<mapsto> 0), t)" "filled (0 + MAXOPBLOCKS) t" "outstanding t = 3" by auto
  have "\<exists>u. log_steps (l(3 \<mapsto> 0), t) (l(3 \<mapsto> 0, 4 \<mapsto> 0), u) \<and> filled (0 + MAXOPBLOCKS + MAXOPBLOCKS) u \<and> outstanding u = outstanding t"
    by (rule op_fills [of "l(3 \<mapsto> 0)" 4 MAXOPBLOCKS 0 _ t, OF l(2) t(2)]) (simp_all add: t(3))
  then obtain u where u: "log_steps (l(3 \<mapsto> 0), t) (l(3 \<mapsto> 0, 4 \<mapsto> 0), u)" "filled (0 + MAXOPBLOCKS + MAXOPBLOCKS) u" "outstanding u = 3"
    using t(3) by auto
  have "\<exists>v. log_steps (l(3 \<mapsto> 0, 4 \<mapsto> 0), u) (l(3 \<mapsto> 0, 4 \<mapsto> 0, 5 \<mapsto> 1), v) \<and> filled (0 + MAXOPBLOCKS + MAXOPBLOCKS + 9) v \<and>
      outstanding v = outstanding u"
    by (rule op_fills [of "l(3 \<mapsto> 0, 4 \<mapsto> 0)" 5 9 1 _ u, OF l(3) u(2)]) (simp_all add: u(3))
  then obtain v where v: "log_steps (l(3 \<mapsto> 0, 4 \<mapsto> 0), u) (l(3 \<mapsto> 0, 4 \<mapsto> 0, 5 \<mapsto> 1), v)"
    "filled (0 + MAXOPBLOCKS + MAXOPBLOCKS + 9) v" by blast
  have "log_write b v = Err (Panic ''too big a transaction'')" for b using v(2) by (simp add: log_write_def filled_def)
  moreover have "(l(3 \<mapsto> 0, 4 \<mapsto> 0, 5 \<mapsto> 1)) 5 = Some 1" by simp
  ultimately show ?thesis using log_steps_trans [OF v(1) log_steps_trans [OF u(1) log_steps_trans [OF t(1) b]]] by blast
qed

theorem reserved_block_refused_witness:
  "\<exists>left t i. log_steps (Map.empty, one_block_log\<lparr>lh_n := 0, committing := False,
       bufs := (\<lambda>b. empty_buf\<lparr>b_blockno := of_nat b\<rparr>)\<rparr>) (left, t) \<and> left i = Some 1 \<and>
    (\<forall>b. log_write b t = Err (Panic ''too big a transaction''))"
proof (rule reserved_block_refused)
  have "inj_on (\<lambda>b. of_nat b :: u32) {0..<LOGSIZE}"
    by (auto simp: inj_on_def word_of_nat_eq_iff take_bit_nat_eq_self)
  then show "inj_on (\<lambda>b. b_blockno (bufs (one_block_log\<lparr>lh_n := 0, committing := False,
       bufs := (\<lambda>b. empty_buf\<lparr>b_blockno := of_nat b\<rparr>)\<rparr>) b)) {0..<LOGSIZE}" by simp
qed (simp_all add: one_block_log_def quiet_vm_def quiet_ext_def)

end
