(* ===== verification/Grep.thy ===== *)
theory Grep
  imports Format
begin

text \<open>
  grep.c: the pattern matcher as functions on strings, a string being the list of its bytes without the
  final NUL, and the loop that reads, splits the input into lines and prints those that match.
\<close>

unbundle bit_operations_syntax

section \<open>The matcher\<close>

text \<open>The byte a pointer into a string points to: NUL at its end.\<close>

definition deref :: "u8 list \<Rightarrow> u8" where
  "deref s = (case s of [] \<Rightarrow> 0 | c # _ \<Rightarrow> c)"

text \<open>The addition \<open>p + n\<close>, never beyond the NUL byte.\<close>

abbreviation advance :: "u8 list \<Rightarrow> nat \<Rightarrow> u8 list" where
  "advance s n \<equiv> drop n s"

function matchhere :: "u8 list \<Rightarrow> u8 list \<Rightarrow> bool"
and matchstar :: "u8 \<Rightarrow> u8 list \<Rightarrow> u8 list \<Rightarrow> bool" where
  "matchhere re t =
     (if deref re = 0 then True
      else if deref (advance re 1) = chr CHR ''*'' then matchstar (deref re) (advance re 2) t
      else if deref re = chr CHR ''$'' \<and> deref (advance re 1) = 0 then deref t = 0
      else if deref t \<noteq> 0 \<and> (deref re = chr CHR ''.'' \<or> deref re = deref t) then matchhere (advance re 1) (advance t 1)
      else False)"
| "matchstar c re t =
     (if matchhere re t then True
      else if deref t \<noteq> 0 \<and> (deref t = c \<or> c = chr CHR ''.'') then matchstar c re (advance t 1)
      else False)"
  by pat_completeness auto
termination
  by (relation "measures [\<lambda>x. case x of Inl (re, _) \<Rightarrow> length re | Inr (_, re, _) \<Rightarrow> length re,
      \<lambda>x. case x of Inl _ \<Rightarrow> 0 | Inr _ \<Rightarrow> 1, \<lambda>x. case x of Inl (_, t) \<Rightarrow> length t | Inr (_, _, t) \<Rightarrow> length t]")
    (auto simp: deref_def split: list.splits)

declare matchhere.simps [simp del] matchstar.simps [simp del]

fun match_from :: "u8 list \<Rightarrow> u8 list \<Rightarrow> bool" where
  "match_from re [] = matchhere re []"
| "match_from re (c # t) = (if matchhere re (c # t) then True else if c \<noteq> 0 then match_from re t else False)"

definition match :: "u8 list \<Rightarrow> u8 list \<Rightarrow> bool" where
  "match re t = (if deref re = chr CHR ''^'' then matchhere (advance re 1) t else match_from re t)"

section \<open>What a pattern means\<close>

datatype atom = Lit u8 | Any
datatype item = One atom | Star atom

primrec sat :: "atom \<Rightarrow> u8 \<Rightarrow> bool" where
  "sat (Lit c) x \<longleftrightarrow> x = c"
| "sat Any x \<longleftrightarrow> True"

definition atom_of :: "u8 \<Rightarrow> atom" where
  "atom_of c = (if c = chr CHR ''.'' then Any else Lit c)"

text \<open>A pattern without its leading \<open>^\<close>: its items, and whether it ends in \<open>$\<close>.\<close>

fun compile :: "u8 list \<Rightarrow> item list \<times> bool" where
  "compile [] = ([], False)"
| "compile [c] = (if c = chr CHR ''$'' then ([], True) else ([One (atom_of c)], False))"
| "compile (c # d # re) =
     (if d = chr CHR ''*'' then apfst ((#) (Star (atom_of c))) (compile re) else apfst ((#) (One (atom_of c))) (compile (d # re)))"

inductive spells :: "item list \<Rightarrow> u8 list \<Rightarrow> bool" where
  none: "spells [] []"
| one: "sat a x \<Longrightarrow> spells its xs \<Longrightarrow> spells (One a # its) (x # xs)"
| star: "\<forall>y \<in> set ys. sat a y \<Longrightarrow> spells its xs \<Longrightarrow> spells (Star a # its) (ys @ xs)"

inductive_simps spells_simps: "spells [] xs" "spells (One a # its) xs" "spells (Star a # its) xs"

definition begins_with :: "u8 list \<Rightarrow> u8 list \<Rightarrow> bool" where
  "begins_with re t \<longleftrightarrow> (\<exists>mid post. t = mid @ post \<and> spells (fst (compile re)) mid \<and> (snd (compile re) \<longrightarrow> post = []))"

lemma spells_one_pre:
  "(\<exists>mid post. t = mid @ post \<and> spells (One a # its) mid \<and> Q post) \<longleftrightarrow>
   (\<exists>x xs. t = x # xs \<and> sat a x \<and> (\<exists>mid post. xs = mid @ post \<and> spells its mid \<and> Q post))"
  by (auto simp: spells_simps Cons_eq_append_conv) blast+

lemma spells_star_pre:
  "(\<exists>mid post. t = mid @ post \<and> spells (Star a # its) mid \<and> Q post) \<longleftrightarrow>
   (\<exists>ys xs. t = ys @ xs \<and> (\<forall>y \<in> set ys. sat a y) \<and> (\<exists>mid post. xs = mid @ post \<and> spells its mid \<and> Q post))"
  (is "?l \<longleftrightarrow> ?r")
proof
  assume ?l
  then obtain ys xs post where "t = (ys @ xs) @ post" "\<forall>y \<in> set ys. sat a y" "spells its xs" "Q post"
    by (auto simp: spells_simps(3))
  then show ?r by (intro exI [of _ ys] exI [of _ "xs @ post"]) auto
next
  assume ?r
  then obtain ys mid post where h: "t = ys @ mid @ post" "\<forall>y \<in> set ys. sat a y" "spells its mid" "Q post" by blast
  then have "spells (Star a # its) (ys @ mid)" by (intro spells.star)
  then show ?l using h by (intro exI [of _ "ys @ mid"] exI [of _ post]) simp
qed

lemma begins_with_simps:
  "begins_with [] t"
  "begins_with [c] t \<longleftrightarrow> (if c = chr CHR ''$'' then t = [] else \<exists>x xs. t = x # xs \<and> sat (atom_of c) x)"
  "d \<noteq> chr CHR ''*'' \<Longrightarrow> begins_with (c # d # re) t \<longleftrightarrow> (\<exists>x xs. t = x # xs \<and> sat (atom_of c) x \<and> begins_with (d # re) xs)"
  "begins_with (c # chr CHR ''*'' # re) t \<longleftrightarrow> (\<exists>ys xs. t = ys @ xs \<and> (\<forall>y \<in> set ys. sat (atom_of c) y) \<and> begins_with re xs)"
proof -
  show "begins_with [] t" by (simp add: begins_with_def spells_simps)
  show "begins_with [c] t \<longleftrightarrow> (if c = chr CHR ''$'' then t = [] else \<exists>x xs. t = x # xs \<and> sat (atom_of c) x)"
    using spells_one_pre [of t "atom_of c" "[]" "\<lambda>_. True"] by (simp add: begins_with_def spells_simps(1))
  show "d \<noteq> chr CHR ''*'' \<Longrightarrow> begins_with (c # d # re) t \<longleftrightarrow> (\<exists>x xs. t = x # xs \<and> sat (atom_of c) x \<and> begins_with (d # re) xs)"
    using spells_one_pre [of t "atom_of c"] by (simp add: begins_with_def)
  show "begins_with (c # chr CHR ''*'' # re) t \<longleftrightarrow> (\<exists>ys xs. t = ys @ xs \<and> (\<forall>y \<in> set ys. sat (atom_of c) y) \<and> begins_with re xs)"
    using spells_star_pre [of t "atom_of c"] by (simp add: begins_with_def)
qed

lemma star_unfold:
  "(\<exists>ys xs. t = ys @ xs \<and> (\<forall>y \<in> set ys. P y) \<and> Q xs) \<longleftrightarrow>
   Q t \<or> (\<exists>x xs. t = x # xs \<and> P x \<and> (\<exists>ys zs. xs = ys @ zs \<and> (\<forall>y \<in> set ys. P y) \<and> Q zs))" (is "?l \<longleftrightarrow> ?r")
proof
  assume ?l
  then obtain ys xs where h: "t = ys @ xs" "\<forall>y \<in> set ys. P y" "Q xs" by blast
  then show ?r by (cases ys) auto
next
  assume ?r
  then show ?l by (metis append.left_neutral append_Cons empty_iff list.set(1) set_ConsD)
qed

lemma deref_zero: "0 \<notin> set xs \<Longrightarrow> deref xs = 0 \<longleftrightarrow> xs = []"
  by (cases xs) (auto simp: deref_def)

lemma sat_atom_of: "sat (atom_of c) x \<longleftrightarrow> c = chr CHR ''.'' \<or> c = x"
  by (auto simp: atom_of_def)

lemma star_byte: "chr CHR ''*'' \<noteq> 0"
  by (simp add: chr_def)

lemma matchhere_eqs:
  "matchhere [] t"
  "c \<noteq> 0 \<Longrightarrow> matchhere [c] t \<longleftrightarrow> (if c = chr CHR ''$'' then deref t = 0 else deref t \<noteq> 0 \<and> (c = chr CHR ''.'' \<or> c = deref t))"
  "c \<noteq> 0 \<Longrightarrow> d \<noteq> 0 \<Longrightarrow> matchhere (c # d # re) t \<longleftrightarrow>
     (if d = chr CHR ''*'' then matchstar c re t
      else deref t \<noteq> 0 \<and> (c = chr CHR ''.'' \<or> c = deref t) \<and> matchhere (d # re) (drop 1 t))"
proof -
  show n: "matchhere [] t" for t by (simp add: matchhere.simps deref_def)
  show "c \<noteq> 0 \<Longrightarrow> matchhere [c] t \<longleftrightarrow> (if c = chr CHR ''$'' then deref t = 0 else deref t \<noteq> 0 \<and> (c = chr CHR ''.'' \<or> c = deref t))"
    by (subst matchhere.simps) (simp add: deref_def n star_byte [symmetric])
  show "c \<noteq> 0 \<Longrightarrow> d \<noteq> 0 \<Longrightarrow> matchhere (c # d # re) t \<longleftrightarrow>
     (if d = chr CHR ''*'' then matchstar c re t
      else deref t \<noteq> 0 \<and> (c = chr CHR ''.'' \<or> c = deref t) \<and> matchhere (d # re) (drop 1 t))"
    by (subst matchhere.simps) (simp add: deref_def)
qed

lemma match_begins:
  "0 \<notin> set re \<Longrightarrow> 0 \<notin> set t \<Longrightarrow> matchhere re t \<longleftrightarrow> begins_with re t"
  "0 \<notin> set re' \<Longrightarrow> 0 \<notin> set t' \<Longrightarrow> matchstar c re' t' \<longleftrightarrow>
     (\<exists>ys xs. t' = ys @ xs \<and> (\<forall>y \<in> set ys. sat (atom_of c) y) \<and> begins_with re' xs)"
proof (induction re t and c re' t' rule: matchhere_matchstar.induct)
  case (1 re t)
  consider "re = []" | c where "re = [c]" "c \<noteq> 0" | c d r where "re = c # d # r" "c \<noteq> 0" "d \<noteq> 0" "0 \<notin> set r"
    using 1(3) by (cases re; cases "tl re") auto
  then show ?case
  proof cases
    case 2
    then show ?thesis using 1(4) by (cases t) (auto simp: matchhere_eqs begins_with_simps sat_atom_of deref_def)
  next
    case (3 c d r)
    note ih1 = 1(1) and ih2 = 1(2)
    show ?thesis
    proof (cases "d = chr CHR ''*''")
      case True
      then show ?thesis using 3 1(4) ih1 by (simp add: matchhere_eqs begins_with_simps(4) deref_def)
    next
      case False
      then show ?thesis using 3 1(4) ih2 by (cases t) (auto simp: matchhere_eqs begins_with_simps(3) deref_def sat_atom_of)
    qed
  qed (simp add: matchhere_eqs begins_with_simps)
next
  case (2 c re t)
  have i: "matchhere re t \<longleftrightarrow> begins_with re t" using 2 by simp
  show ?case
  proof (cases t)
    case Nil
    then show ?thesis using i by (simp add: matchstar.simps [of c re "[]"] deref_def)
  next
    case (Cons x xs)
    then show ?thesis using i 2(2-4) by (subst star_unfold) (auto simp: matchstar.simps [of c re "x # xs"] deref_def sat_atom_of)
  qed
qed

lemma match_from_begins:
  "0 \<notin> set re \<Longrightarrow> 0 \<notin> set t \<Longrightarrow> match_from re t \<longleftrightarrow> (\<exists>pre rest. t = pre @ rest \<and> begins_with re rest)"
proof (induction t)
  case (Cons c t)
  then show ?case by (auto simp: match_begins Cons_eq_append_conv)
qed (simp add: match_begins)

text \<open>
  C21. grep's matcher finds what the pattern means: a string matches exactly if some part of it is spelt
  by the items of the pattern, at the start of the string if the pattern has a leading \<open>^\<close> and up to
  its end if it has a final \<open>$\<close>.
\<close>

theorem match_correct:
  assumes "0 \<notin> set re" "0 \<notin> set t"
  shows "match re t \<longleftrightarrow> (\<exists>pre mid post. t = pre @ mid @ post \<and>
    (if deref re = chr CHR ''^'' then pre = [] \<and> spells (fst (compile (tl re))) mid \<and> (snd (compile (tl re)) \<longrightarrow> post = [])
     else spells (fst (compile re)) mid \<and> (snd (compile re) \<longrightarrow> post = [])))"
proof -
  have "0 \<notin> set (tl re)" using assms(1) by (cases re) auto
  then show ?thesis using assms
    by (auto simp: match_def match_begins(1) match_from_begins begins_with_def drop_Suc)
qed

theorem match_correct_witness:
  "match (str ''^a.*c$'') (str ''abbc'') \<and>
   (\<exists>mid. str ''abbc'' = mid \<and> spells [One (Lit 97), Star Any, One (Lit 99)] mid)"
proof -
  have m: "match (str ''^a.*c$'') (str ''abbc'')" and c: "compile (tl (str ''^a.*c$'')) = ([One (Lit 97), Star Any, One (Lit 99)], True)"
    and d: "deref (str ''^a.*c$'') = chr CHR ''^''" by code_simp+
  have n: "0 \<notin> set (str ''^a.*c$'')" "0 \<notin> set (str ''abbc'')" by code_simp+
  from m match_correct [OF n] c d show ?thesis by auto
qed

section \<open>Lines\<close>

text \<open>
  \<open>strchr(p, '\n')\<close>: the offset of the first newline before a NUL byte. The loop over the lines of the
  buffer prints those that match and returns what is left behind the last newline, the new \<open>p\<close>.
\<close>

fun strchr_at :: "u8 \<Rightarrow> u8 list \<Rightarrow> nat option" where
  "strchr_at c [] = None"
| "strchr_at c (x # xs) = (if x = 0 then None else if x = c then Some 0 else map_option Suc (strchr_at c xs))"

lemma strchr_at_less: "strchr_at c xs = Some i \<Longrightarrow> i < length xs"
  by (induction xs arbitrary: i) (auto split: if_splits)

function grep_lines :: "u8 list \<Rightarrow> u8 list \<Rightarrow> u8 list \<times> u8 list" where
  "grep_lines pattern p =
     (case strchr_at 10 p of
        None \<Rightarrow> ([], p)
      | Some q \<Rightarrow>
          (case grep_lines pattern (drop (q + 1) p) of
             (out, rest) \<Rightarrow> ((if match pattern (take q p) then take (q + 1) p else []) @ out, rest)))"
  by pat_completeness auto
termination
  by (relation "measure (length \<circ> snd)") (auto dest: strchr_at_less)

declare grep_lines.simps [simp del]

text \<open>
  The reads of \<open>grep\<close>: each element is what one read adds to the buffer, an empty one is the end of the
  file or an error. If \<open>p\<close> is still the start of the buffer then \<open>m\<close> becomes 0.
\<close>

primrec grep :: "u8 list \<Rightarrow> u8 list \<Rightarrow> u8 list list \<Rightarrow> u8 list" where
  "grep pattern buf [] = []"
| "grep pattern buf (r # reads) =
     (if r = [] then []
      else
        (case grep_lines pattern (buf @ r) of
           (out, p) \<Rightarrow> out @ grep pattern (if length p = length (buf @ r) then [] else p) reads))"

text \<open>The lines of a text that end in a newline.\<close>

primrec lines_in :: "u8 list \<Rightarrow> u8 list \<Rightarrow> u8 list list" where
  "lines_in cur [] = []"
| "lines_in cur (c # cs) = (if c = 10 then cur # lines_in [] cs else lines_in (cur @ [c]) cs)"

definition matching :: "u8 list \<Rightarrow> u8 list list \<Rightarrow> u8 list" where
  "matching pattern ls = concat (map (\<lambda>l. l @ [10]) (filter (match pattern) ls))"

primrec rest_of :: "u8 list \<Rightarrow> u8 list \<Rightarrow> u8 list" where
  "rest_of cur [] = cur"
| "rest_of cur (c # cs) = (if c = 10 then rest_of [] cs else rest_of (cur @ [c]) cs)"

lemma strchr_at_split:
  "0 \<notin> set p \<Longrightarrow> strchr_at 10 p = (if 10 \<in> set p then Some (length (takeWhile (\<lambda>c. c \<noteq> 10) p)) else None)"
  by (induction p) auto

lemma lines_in_prefix: "10 \<notin> set xs \<Longrightarrow> lines_in cur (xs @ ys) = lines_in (cur @ xs) ys \<and> rest_of cur (xs @ ys) = rest_of (cur @ xs) ys"
  by (induction xs arbitrary: cur) auto

lemma lines_in_append: "lines_in cur (xs @ ys) = lines_in cur xs @ lines_in (rest_of cur xs) ys"
  by (induction xs arbitrary: cur) auto

lemma grep_lines_spec:
  "0 \<notin> set p \<Longrightarrow> grep_lines pattern p = (matching pattern (lines_in [] p), rest_of [] p)"
proof (induction p rule: length_induct)
  case (1 p)
  show ?case
  proof (cases "10 \<in> set p")
    case False
    then show ?thesis using 1(2) lines_in_prefix [of p "[]" "[]"]
      by (simp add: grep_lines.simps [of _ p] strchr_at_split matching_def)
  next
    case True
    let ?q = "length (takeWhile (\<lambda>c. c \<noteq> 10) p)"
    obtain xs ys where p: "p = xs @ 10 # ys" "10 \<notin> set xs" using True split_list_first by fastforce
    have q: "?q = length xs" using p by (simp add: takeWhile_append)
    have ih: "grep_lines pattern ys = (matching pattern (lines_in [] ys), rest_of [] ys)" using 1 p by simp
    show ?thesis using 1(2) True p(2) q ih lines_in_prefix [OF p(2), of "[]" "10 # ys"]
      by (simp add: grep_lines.simps [of _ p] strchr_at_split) (simp add: p(1) matching_def)
  qed
qed

lemma rest_of_short: "10 \<in> set xs \<Longrightarrow> length (rest_of cur xs) < length xs"
proof (induction xs arbitrary: cur)
  case (Cons c xs)
  have le: "length (rest_of cur ys) \<le> length cur + length ys" for cur ys
  proof (induction ys arbitrary: cur)
    case (Cons y ys)
    show ?case using Cons [of "[]"] Cons [of "cur @ [y]"] by simp
  qed simp
  show ?case
  proof (cases "10 \<in> set xs")
    case True
    then show ?thesis using Cons.IH by (auto simp: less_SucI)
  next
    case False
    then show ?thesis using Cons.prems le [of "[]" xs] by (simp add: le_imp_less_Suc)
  qed
qed simp

lemma rest_of_set: "set (rest_of cur xs) \<subseteq> set cur \<union> set xs"
proof (induction xs arbitrary: cur)
  case (Cons x xs)
  show ?case using Cons [of "[]"] Cons [of "cur @ [x]"] by auto
qed simp

lemma rest_of_no_newline: "10 \<notin> set cur \<Longrightarrow> 10 \<notin> set (rest_of cur xs)"
  by (induction xs arbitrary: cur) auto

lemma grep_from:
  assumes "\<forall>r \<in> set reads. 10 \<in> set r \<and> 0 \<notin> set r" "10 \<notin> set buf" "0 \<notin> set buf"
  shows "grep pattern buf reads = matching pattern (lines_in buf (concat reads))"
  using assms
proof (induction reads arbitrary: buf)
  case Nil
  then show ?case by (simp add: matching_def)
next
  case (Cons r reads)
  let ?b = "rest_of [] (buf @ r)"
  have b: "0 \<notin> set (buf @ r)" "10 \<in> set (buf @ r)" "r \<noteq> []" using Cons.prems by auto
  have "length ?b \<noteq> length (buf @ r)" using rest_of_short [OF b(2), of "[]"] by simp
  moreover have "grep pattern ?b reads = matching pattern (lines_in ?b (concat reads))"
    using Cons.prems b rest_of_set [of "[]" "buf @ r"] rest_of_no_newline by (intro Cons.IH) auto
  moreover have "lines_in buf (r @ concat reads) = lines_in [] (buf @ r) @ lines_in ?b (concat reads)"
    using lines_in_prefix [OF Cons.prems(2), of "[]" "r @ concat reads"] lines_in_append [of "[]" "buf @ r" "concat reads"] by simp
  ultimately show ?case using b by (simp add: grep_lines_spec matching_def)
qed

text \<open>
  C22. However the input is cut into reads, as long as every read brings the end of a line, grep prints
  the lines that match, in order and whole, also those that span two reads.
\<close>

theorem grep_prints_matching_lines:
  assumes "\<forall>r \<in> set reads. 10 \<in> set r \<and> 0 \<notin> set r"
  shows "grep pattern [] reads = concat (map (\<lambda>l. l @ [10]) (filter (match pattern) (lines_in [] (concat reads))))"
  using grep_from [OF assms, of "[]"] by (simp add: matching_def)

theorem grep_prints_matching_lines_witness:
  "grep (str ''b'') [] [str ''ab'' @ [10] @ str ''c'', str ''d'' @ [10]] = str ''ab'' @ [10]"
  using grep_prints_matching_lines [of "[str ''ab'' @ [10] @ str ''c'', str ''d'' @ [10]]" "str ''b''"] by code_simp

text \<open>
  C36. A read that ends inside a line and brings no newline is thrown away: of a line that arrives in two
  such pieces grep looks at the second piece only and prints only that.
\<close>

theorem grep_loses_partial_line:
  assumes "xs \<noteq> []" "10 \<notin> set xs" "0 \<notin> set xs" "10 \<notin> set ys" "0 \<notin> set ys"
  shows "grep pattern [] [xs, ys @ [10]] = (if match pattern ys then ys @ [10] else [])"
proof -
  have "rest_of [] xs = xs" "lines_in [] xs = []" "lines_in [] (ys @ [10]) = [ys]"
    using lines_in_prefix [OF assms(2), of "[]" "[]"] lines_in_prefix [OF assms(4), of "[]" "[10]"] by simp_all
  then show ?thesis using assms by (simp add: grep_lines_spec matching_def)
qed

theorem grep_loses_partial_line_witness:
  "grep (str ''a'') [] [str ''a'', str ''b'' @ [10]] = [] \<and> match (str ''a'') (str ''ab'')"
proof -
  have "match (str ''a'') (str ''ab'')" "\<not> match (str ''a'') (str ''b'')" by code_simp+
  moreover have "str ''a'' \<noteq> []" "10 \<notin> set (str ''a'')" "0 \<notin> set (str ''a'')" "10 \<notin> set (str ''b'')" "0 \<notin> set (str ''b'')"
    by code_simp+
  ultimately show ?thesis using grep_loses_partial_line [of "str ''a''" "str ''b''" "str ''a''"] by simp
qed

end
