(* ===== verification/Sh.thy ===== *)
theory Sh
  imports Format
begin

text \<open>
  sh.c, the parser: tokens, the recursive descent over a command line in memory, and the NUL bytes it puts
  behind the words. The recursion is by levels; parsecmd starts it with enough of them for the line, and
  parsing is proved to end with a panic or a well-formed command.
\<close>

unbundle bit_operations_syntax

section \<open>Tokens\<close>

definition whitespace :: "u8 list" where
  "whitespace = [chr CHR '' '', 9, 13, 10, 11]"

definition symbols :: "u8 list" where
  "symbols = str ''<|>&;()''"

text \<open>\<open>while(s < es && strchr(whitespace, *s)) s++\<close> and the loop over the characters of a word.\<close>

function skip_white :: "bytes \<Rightarrow> nat \<Rightarrow> nat \<Rightarrow> nat" where
  "skip_white m es s = (if s < es \<and> m s \<in> set whitespace then skip_white m es (s + 1) else s)"
  by pat_completeness auto
termination
  by (relation "measure (\<lambda>(m, es, s). es - s)") auto

function skip_word :: "bytes \<Rightarrow> nat \<Rightarrow> nat \<Rightarrow> nat" where
  "skip_word m es s = (if s < es \<and> m s \<notin> set whitespace \<and> m s \<notin> set symbols then skip_word m es (s + 1) else s)"
  by pat_completeness auto
termination
  by (relation "measure (\<lambda>(m, es, s). es - s)") auto

declare skip_white.simps [simp del] skip_word.simps [simp del]

text \<open>The token at a position, its first and last position, and the position behind it.\<close>

definition gettoken :: "bytes \<Rightarrow> nat \<Rightarrow> nat \<Rightarrow> u8 \<times> nat \<times> nat \<times> nat" where
  "gettoken m es ps =
     (let q = skip_white m es ps; c = m q;
          (ret, eq) =
            (if c = 0 then (0, q)
             else if c \<in> set (str ''|();&<'') then (c, q + 1)
             else if c = chr CHR ''>'' then
               (if m (q + 1) = chr CHR ''>'' then (chr CHR ''+'', q + 2) else (c, q + 1))
             else (chr CHR ''a'', skip_word m es q))
      in (ret, q, eq, skip_white m es eq))"

definition peek :: "bytes \<Rightarrow> nat \<Rightarrow> nat \<Rightarrow> u8 list \<Rightarrow> bool \<times> nat" where
  "peek m es ps toks = (let s = skip_white m es ps in (m s \<noteq> 0 \<and> m s \<in> set toks, s))"

section \<open>Commands\<close>

text \<open>
  A command over its words. To the parser a word is the pair of the positions where it starts and ends,
  an entry of argv and eargv or file and efile; the arguments of an EXEC are the entries before the
  first null pointer.
\<close>

datatype 'w cmd =
    EXEC "'w list"
  | REDIR "'w cmd" 'w u32 nat
  | PIPE "'w cmd" "'w cmd"
  | LIST "'w cmd" "'w cmd"
  | BACK "'w cmd"

type_synonym pcmd = "(nat \<times> nat) cmd"

abbreviation (input) "MAXARGS \<equiv> 10 :: nat"

abbreviation (input) "O_RDONLY \<equiv> 0 :: u32"
abbreviation (input) "O_WRONLY \<equiv> 1 :: u32"
abbreviation (input) "O_CREATE \<equiv> 0x200 :: u32"

primrec parseredirs :: "nat \<Rightarrow> bytes \<Rightarrow> nat \<Rightarrow> pcmd \<Rightarrow> nat \<Rightarrow> (pcmd \<times> nat) res" where
  "parseredirs 0 m es cmd ps = Err Hang"
| "parseredirs (Suc n) m es cmd ps =
     (case peek m es ps (str ''<>'') of (b, ps) \<Rightarrow>
        if b then
          (case gettoken m es ps of (tok, _, _, ps) \<Rightarrow>
           case gettoken m es ps of (tok2, q, eq, ps) \<Rightarrow>
             if tok2 \<noteq> chr CHR ''a'' then Err (Panic ''missing file for redirection'')
             else parseredirs n m es
               (if tok = chr CHR ''<'' then REDIR cmd (q, eq) O_RDONLY 0
                else if tok = chr CHR ''>'' then REDIR cmd (q, eq) (O_WRONLY OR O_CREATE) 1
                else if tok = chr CHR ''+'' then REDIR cmd (q, eq) (O_WRONLY OR O_CREATE) 1
                else cmd) ps)
        else Ok (cmd, ps))"

text \<open>The store \<open>cmd->argv[argc] = q; cmd->eargv[argc] = eq\<close> into the EXEC under the redirections.\<close>

primrec add_arg :: "'w \<Rightarrow> 'w cmd \<Rightarrow> 'w cmd" where
  "add_arg w (EXEC args) = EXEC (args @ [w])"
| "add_arg w (REDIR c f mode fd) = REDIR (add_arg w c) f mode fd"
| "add_arg w (PIPE l r) = PIPE l r"
| "add_arg w (LIST l r) = LIST l r"
| "add_arg w (BACK c) = BACK c"

primrec parseargs :: "nat \<Rightarrow> bytes \<Rightarrow> nat \<Rightarrow> nat \<Rightarrow> pcmd \<Rightarrow> nat \<Rightarrow> (pcmd \<times> nat) res" where
  "parseargs 0 m es argc ret ps = Err Hang"
| "parseargs (Suc n) m es argc ret ps =
     (case peek m es ps (str ''|)&;'') of (b, ps) \<Rightarrow>
        if b then Ok (ret, ps)
        else
          (case gettoken m es ps of (tok, q, eq, ps) \<Rightarrow>
             if tok = 0 then Ok (ret, ps)
             else if tok \<noteq> chr CHR ''a'' then Err (Panic ''syntax'')
             else if argc + 1 \<ge> MAXARGS then Err (Panic ''too many args'')
             else bindR (parseredirs n m es (add_arg (q, eq) ret) ps) (\<lambda>(ret, ps). parseargs n m es (argc + 1) ret ps)))"

text \<open>The loop of parseline over ampersands.\<close>

primrec parsebacks :: "nat \<Rightarrow> bytes \<Rightarrow> nat \<Rightarrow> pcmd \<Rightarrow> nat \<Rightarrow> (pcmd \<times> nat) res" where
  "parsebacks 0 m es cmd ps = Err Hang"
| "parsebacks (Suc n) m es cmd ps =
     (case peek m es ps (str ''&'') of (b, ps) \<Rightarrow>
        if b then (case gettoken m es ps of (_, _, _, ps) \<Rightarrow> parsebacks n m es (BACK cmd) ps)
        else Ok (cmd, ps))"

function parseline :: "nat \<Rightarrow> bytes \<Rightarrow> nat \<Rightarrow> nat \<Rightarrow> (pcmd \<times> nat) res"
and parsepipe :: "nat \<Rightarrow> bytes \<Rightarrow> nat \<Rightarrow> nat \<Rightarrow> (pcmd \<times> nat) res"
and parseblock :: "nat \<Rightarrow> bytes \<Rightarrow> nat \<Rightarrow> nat \<Rightarrow> (pcmd \<times> nat) res"
and parseexec :: "nat \<Rightarrow> bytes \<Rightarrow> nat \<Rightarrow> nat \<Rightarrow> (pcmd \<times> nat) res" where
  "parseline 0 m es ps = Err Hang"
| "parseline (Suc n) m es ps =
     bindR (parsepipe n m es ps) (\<lambda>(cmd, ps).
     bindR (parsebacks n m es cmd ps) (\<lambda>(cmd, ps).
       case peek m es ps (str '';'') of (b, ps) \<Rightarrow>
         if b then
           (case gettoken m es ps of (_, _, _, ps) \<Rightarrow>
              bindR (parseline n m es ps) (\<lambda>(right, ps). Ok (LIST cmd right, ps)))
         else Ok (cmd, ps)))"
| "parsepipe 0 m es ps = Err Hang"
| "parsepipe (Suc n) m es ps =
     bindR (parseexec n m es ps) (\<lambda>(cmd, ps).
       case peek m es ps (str ''|'') of (b, ps) \<Rightarrow>
         if b then
           (case gettoken m es ps of (_, _, _, ps) \<Rightarrow>
              bindR (parsepipe n m es ps) (\<lambda>(right, ps). Ok (PIPE cmd right, ps)))
         else Ok (cmd, ps))"
| "parseblock 0 m es ps = Err Hang"
| "parseblock (Suc n) m es ps =
     (case peek m es ps (str ''('') of (b, ps) \<Rightarrow>
        if \<not> b then Err (Panic ''parseblock'')
        else
          (case gettoken m es ps of (_, _, _, ps) \<Rightarrow>
             bindR (parseline n m es ps) (\<lambda>(cmd, ps).
               case peek m es ps (str '')'') of (b, ps) \<Rightarrow>
                 if \<not> b then Err (Panic ''syntax - missing )'')
                 else (case gettoken m es ps of (_, _, _, ps) \<Rightarrow> parseredirs n m es cmd ps))))"
| "parseexec 0 m es ps = Err Hang"
| "parseexec (Suc n) m es ps =
     (case peek m es ps (str ''('') of (b, ps) \<Rightarrow>
        if b then parseblock n m es ps
        else
          bindR (parseredirs n m es (EXEC []) ps) (\<lambda>(ret, ps). parseargs n m es 0 ret ps))"
  by pat_completeness auto
termination
  by (relation "measure (\<lambda>x. case x of Inl (Inl (n, _)) \<Rightarrow> n | Inl (Inr (n, _)) \<Rightarrow> n | Inr (Inl (n, _)) \<Rightarrow> n | Inr (Inr (n, _)) \<Rightarrow> n)") auto

primrec nulterminate :: "pcmd \<Rightarrow> bytes \<Rightarrow> bytes" where
  "nulterminate (EXEC args) m = foldl (\<lambda>m f. m(snd f := 0)) m args"
| "nulterminate (REDIR c f mode fd) m = (nulterminate c m)(snd f := 0)"
| "nulterminate (PIPE l r) m = nulterminate r (nulterminate l m)"
| "nulterminate (LIST l r) m = nulterminate r (nulterminate l m)"
| "nulterminate (BACK c) m = nulterminate c m"

text \<open>The fuel that parsecmd's recursion needs on a line of a given length.\<close>

definition parse_fuel :: "nat \<Rightarrow> nat" where
  "parse_fuel k = 4 * k + 5"

definition parsecmd :: "bytes \<Rightarrow> nat \<Rightarrow> (pcmd \<times> bytes) res" where
  "parsecmd m s =
     (case strlen m s of
        None \<Rightarrow> Err Hang
      | Some k \<Rightarrow>
          (let es = s + k
           in bindR (parseline (parse_fuel k) m es s) (\<lambda>(cmd, s).
                case peek m es s [] of (_, s) \<Rightarrow>
                  if s \<noteq> es then Err (Panic ''syntax'') else Ok (cmd, nulterminate cmd m))))"

section \<open>Parsing returns\<close>

text \<open>The buffer holds a line: no NUL byte before its end, and one there.\<close>

definition line_at :: "bytes \<Rightarrow> nat \<Rightarrow> nat \<Rightarrow> bool" where
  "line_at m s es \<longleftrightarrow> s \<le> es \<and> m es = 0 \<and> (\<forall>i. s \<le> i \<and> i < es \<longrightarrow> m i \<noteq> 0)"

definition word_char :: "u8 \<Rightarrow> bool" where
  "word_char c \<longleftrightarrow> c \<noteq> 0 \<and> c \<notin> set whitespace \<and> c \<notin> set symbols"

definition word_ok :: "bytes \<Rightarrow> nat \<Rightarrow> nat \<Rightarrow> nat \<times> nat \<Rightarrow> bool" where
  "word_ok m s es = (\<lambda>(q, eq). s \<le> q \<and> q < eq \<and> eq \<le> es \<and> (\<forall>i. q \<le> i \<and> i < eq \<longrightarrow> word_char (m i)) \<and> \<not> word_char (m eq))"

lemma skip_white_bounds: "s \<le> es \<Longrightarrow> s \<le> skip_white m es s \<and> skip_white m es s \<le> es"
  by (induction m es s rule: skip_white.induct) (subst (1 2) skip_white.simps, auto)

lemma skip_word_bounds: "s \<le> es \<Longrightarrow> s \<le> skip_word m es s \<and> skip_word m es s \<le> es"
  by (induction m es s rule: skip_word.induct) (subst (1 2) skip_word.simps, auto)

lemma skip_word_chars: "line_at m s es \<Longrightarrow> s \<le> p \<Longrightarrow> p \<le> es \<Longrightarrow>
    (\<forall>i. p \<le> i \<and> i < skip_word m es p \<longrightarrow> word_char (m i)) \<and> \<not> word_char (m (skip_word m es p))"
proof (induction m es p rule: skip_word.induct)
  case (1 m es p)
  show ?case
  proof (cases "p < es \<and> m p \<notin> set whitespace \<and> m p \<notin> set symbols")
    case True
    then have "m p \<noteq> 0" using 1(2,3) by (auto simp: line_at_def)
    then have "word_char (m p)" using True by (simp add: word_char_def)
    moreover have "(\<forall>i. p + 1 \<le> i \<and> i < skip_word m es (p + 1) \<longrightarrow> word_char (m i)) \<and> \<not> word_char (m (skip_word m es (p + 1)))"
      using 1 True by auto
    moreover have "skip_word m es p = skip_word m es (p + 1)" using True by (simp add: skip_word.simps [of m es p])
    moreover have "p + 1 \<le> i" if "p \<le> i" "i \<noteq> p" for i using that by simp
    ultimately show ?thesis by metis
  next
    case False
    then have "skip_word m es p = p" by (auto simp: skip_word.simps [of m es p])
    then show ?thesis using False 1(2,4) by (auto simp: word_char_def line_at_def)
  qed
qed

lemma skip_white_stop: "skip_white m es s < es \<Longrightarrow> m (skip_white m es s) \<notin> set whitespace"
proof (induction m es s rule: skip_white.induct)
  case (1 m es s)
  show ?case
  proof (cases "s < es \<and> m s \<in> set whitespace")
    case True
    then have "skip_white m es s = skip_white m es (s + 1)" by (simp add: skip_white.simps [of m es s])
    then show ?thesis using 1 True by simp
  next
    case False
    then have "skip_white m es s = s" by (auto simp: skip_white.simps [of m es s])
    then show ?thesis using False 1(2) by simp
  qed
qed

lemma peek_bounds:
  assumes "peek m es ps toks = (b, ps')" "ps \<le> es"
  shows "ps \<le> ps'" "ps' \<le> es" "b \<longleftrightarrow> m ps' \<noteq> 0 \<and> m ps' \<in> set toks" "ps' = skip_white m es ps"
  using assms skip_white_bounds [of ps es m] by (auto simp: peek_def Let_def)

lemma symbol_chars: "c \<in> set symbols \<longleftrightarrow> c \<in> set (str ''|();&<'') \<or> c = chr CHR ''>''"
  by (auto simp: symbols_def str_def)

lemma gettoken_bounds:
  assumes g: "gettoken m es ps = (tok, q, eq, ps')" and l: "line_at m s es" and ps: "s \<le> ps" "ps \<le> es"
  shows "ps \<le> q" "q \<le> eq" "eq \<le> ps'" "ps' \<le> es" "q = skip_white m es ps" "tok = 0 \<longleftrightarrow> m q = 0" "m q \<noteq> 0 \<Longrightarrow> ps < ps'"
    "tok = chr CHR ''a'' \<Longrightarrow> word_ok m s es (q, eq)"
proof -
  define k where "k = skip_white m es ps"
  have k: "ps \<le> k" "k \<le> es" using skip_white_bounds [OF ps(2)] by (auto simp: k_def)
  have nz: "m k \<noteq> 0 \<longleftrightarrow> k < es" using l k ps by (auto simp: line_at_def order_le_less)
  have nz1: "m (k + 1) \<noteq> 0 \<Longrightarrow> k < es \<Longrightarrow> k + 1 < es" using l by (metis Suc_eq_plus1 Suc_leI line_at_def nat_less_le)
  have q: "q = k" "ps' = skip_white m es eq" using g by (auto simp: gettoken_def Let_def k_def split: if_splits prod.splits)
  have nw: "m k \<noteq> 0 \<Longrightarrow> m k \<notin> set whitespace"
    using skip_white_stop [of m es ps] nz by (auto simp: k_def)
  show "q = skip_white m es ps" using q by (simp add: k_def)
  show "ps \<le> q" using q k by simp
  have chars: "chr CHR ''>'' \<noteq> 0" "chr CHR ''+'' \<noteq> 0" "chr CHR ''a'' \<noteq> 0" "chr CHR ''a'' \<notin> set (str ''|();&<'')" "chr CHR ''a'' \<noteq> chr CHR ''+''"
      "chr CHR ''a'' \<noteq> chr CHR ''>''" by code_simp+
  have c: "m k = 0 \<and> tok = 0 \<and> eq = k \<or> m k \<noteq> 0 \<and> tok \<noteq> 0 \<and> tok \<noteq> chr CHR ''a'' \<and> k < eq \<and> eq \<le> es \<or>
      m k \<noteq> 0 \<and> tok = chr CHR ''a'' \<and> m k \<notin> set symbols \<and> eq = skip_word m es k"
    using g nz nz1 chars unfolding symbol_chars by (auto simp: gettoken_def Let_def k_def [symmetric] split: if_splits)
  have w: "word_ok m s es (k, eq)" "k < eq" "eq \<le> es" if h: "m k \<noteq> 0" "m k \<notin> set symbols" "eq = skip_word m es k"
  proof -
    have ks: "k < es" using h nz by simp
    have "m k \<notin> set whitespace" using nw h by simp
    then have eq: "eq = skip_word m es (k + 1)" using h ks by (simp add: skip_word.simps [of m es k])
    then show b: "k < eq" "eq \<le> es" using skip_word_bounds [of "k + 1" es m] ks by auto
    show "word_ok m s es (k, eq)"
      using skip_word_chars [OF l, of k] h k ps b by (auto simp: word_ok_def)
  qed
  have e: "k \<le> eq" "eq \<le> es" "m k \<noteq> 0 \<Longrightarrow> k < eq" using c k w by auto
  show "q \<le> eq" using e q by simp
  show "eq \<le> ps'" "ps' \<le> es" using q(2) skip_white_bounds [OF e(2), of m] by auto
  then show "m q \<noteq> 0 \<Longrightarrow> ps < ps'" using e q k by auto
  show "tok = 0 \<longleftrightarrow> m q = 0" using c q chars by auto
  show "tok = chr CHR ''a'' \<Longrightarrow> word_ok m s es (q, eq)" using c q chars w by auto
qed

section \<open>Well-formed commands\<close>

primrec short_args :: "'w cmd \<Rightarrow> bool" where
  "short_args (EXEC args) \<longleftrightarrow> length args < MAXARGS"
| "short_args (REDIR c f mode fd) \<longleftrightarrow> short_args c"
| "short_args (PIPE l r) \<longleftrightarrow> short_args l \<and> short_args r"
| "short_args (LIST l r) \<longleftrightarrow> short_args l \<and> short_args r"
| "short_args (BACK c) \<longleftrightarrow> short_args c"

text \<open>A command of parseexec: an EXEC with a number of arguments under redirections.\<close>

primrec exec_with :: "nat \<Rightarrow> 'w cmd \<Rightarrow> bool" where
  "exec_with k (EXEC args) \<longleftrightarrow> length args = k"
| "exec_with k (REDIR c f mode fd) \<longleftrightarrow> exec_with k c"
| "exec_with k (PIPE l r) \<longleftrightarrow> False"
| "exec_with k (LIST l r) \<longleftrightarrow> False"
| "exec_with k (BACK c) \<longleftrightarrow> False"

lemma exec_with_short: "exec_with k c \<Longrightarrow> k < MAXARGS \<Longrightarrow> short_args c"
  by (induction c) auto

lemma add_arg_exec: "exec_with k c \<Longrightarrow> exec_with (k + 1) (add_arg w c) \<and> set_cmd (add_arg w c) = insert w (set_cmd c)"
  by (induction c) auto

definition cmd_ok :: "bytes \<Rightarrow> nat \<Rightarrow> nat \<Rightarrow> pcmd \<Rightarrow> bool" where
  "cmd_ok m s es c \<longleftrightarrow> short_args c \<and> (\<forall>w \<in> set_cmd c. word_ok m s es w)"

text \<open>A parser returned: with a panic, or with a command and a position that is not before the old one.\<close>

definition returned :: "(pcmd \<Rightarrow> bool) \<Rightarrow> nat \<Rightarrow> nat \<Rightarrow> (pcmd \<times> nat) res \<Rightarrow> bool" where
  "returned P es ps r \<longleftrightarrow> (case r of Err e \<Rightarrow> (\<exists>msg. e = Panic msg) | Ok (c, ps') \<Rightarrow> P c \<and> ps \<le> ps' \<and> ps' \<le> es)"

lemma returned_simps [simp]:
  "returned P es ps (Ok (c, ps')) \<longleftrightarrow> P c \<and> ps \<le> ps' \<and> ps' \<le> es"
  "returned P es ps (Err (Panic msg))"
  by (simp_all add: returned_def)

lemma returned_le: "returned P es ps' r \<Longrightarrow> ps \<le> ps' \<Longrightarrow> returned P es ps r"
  by (auto simp: returned_def split: res.splits)

lemma returned_bind:
  assumes "returned P es ps r" "\<And>c p. P c \<Longrightarrow> ps \<le> p \<Longrightarrow> p \<le> es \<Longrightarrow> returned Q es p (f c p)"
  shows "returned Q es ps (bindR r (\<lambda>(c, p). f c p))"
proof (cases r)
  case (Ok a)
  obtain c p where "a = (c, p)" by fastforce
  then show ?thesis using assms Ok by (auto intro: returned_le)
qed (use assms in \<open>auto simp: returned_def\<close>)

text \<open>A token that peek has seen is consumed by gettoken.\<close>

lemma peek_token:
  assumes "peek m es ps toks = (b, p)" "gettoken m es p = (tok, q, eq, p1)" "line_at m s es" "s \<le> ps" "ps \<le> es" and b: b
  shows "ps < p1" "p1 \<le> es" "s \<le> p1" "q = p"
proof -
  note pb = peek_bounds [OF assms(1,5)]
  have p: "s \<le> p" "p \<le> es" "m p \<noteq> 0" using pb assms(4) b by auto
  then have "p < es" using assms(3) by (auto simp: line_at_def order_le_less)
  then have "m p \<notin> set whitespace" using skip_white_stop [of m es ps] pb(4) by simp
  then have w: "skip_white m es p = p" by (simp add: skip_white.simps [of m es p])
  note g = gettoken_bounds [OF assms(2,3) p(1,2)]
  show "ps < p1" "p1 \<le> es" "s \<le> p1" "q = p" using g(4,5,7) w p pb(1) assms(4) by auto
qed

lemma returned_peek:
  assumes l: "line_at m s es" and ps: "s \<le> ps" "ps \<le> es"
    and yes: "\<And>p tok q eq p1. gettoken m es p = (tok, q, eq, p1) \<Longrightarrow> ps < p1 \<Longrightarrow> p1 \<le> es \<Longrightarrow> s \<le> p1 \<Longrightarrow> ps \<le> p \<Longrightarrow> p \<le> es \<Longrightarrow>
      returned P es p1 (f p)"
    and no: "\<And>p. ps \<le> p \<Longrightarrow> p \<le> es \<Longrightarrow> returned P es ps (g p)"
  shows "returned P es ps (case peek m es ps toks of (b, p) \<Rightarrow> if b then f p else g p)"
proof -
  obtain b p where p: "peek m es ps toks = (b, p)" by fastforce
  note pb = peek_bounds [OF p ps(2)]
  obtain tok q eq p1 where t: "gettoken m es p = (tok, q, eq, p1)" by (metis prod_cases4)
  show ?thesis
  proof (cases b)
    case True
    from peek_token [OF p t l ps True] yes [OF t] pb(1,2) show ?thesis by (simp add: p True returned_le [OF _ less_imp_le])
  next
    case False
    with no [OF pb(1,2)] show ?thesis by (simp add: p)
  qed
qed

lemma parseredirs_returns:
  assumes l: "line_at m s es"
    and P: "\<And>c q eq mode fd. P c \<Longrightarrow> word_ok m s es (q, eq) \<Longrightarrow> P (REDIR c (q, eq) mode fd)"
  shows "P c \<Longrightarrow> s \<le> ps \<Longrightarrow> ps \<le> es \<Longrightarrow> es - ps < n \<Longrightarrow> returned P es ps (parseredirs n m es c ps)"
proof (induction n arbitrary: c ps)
  case (Suc n)
  show ?case unfolding parseredirs.simps
  proof (rule returned_peek [OF l Suc.prems(2,3)])
    fix p tok q eq p1
    assume t: "gettoken m es p = (tok, q, eq, p1)" "ps < p1" "p1 \<le> es" "s \<le> p1"
    obtain tok2 q2 eq2 p2 where t2: "gettoken m es p1 = (tok2, q2, eq2, p2)" by (metis prod_cases4)
    note tb2 = gettoken_bounds [OF t2 l t(4,3)]
    have "returned P es p1 (parseredirs n m es c' p2)" if "P c'" for c'
      using tb2 t Suc.prems(2,4) that by (intro returned_le [OF Suc.IH, of _ p2]) auto
    then show "returned P es p1 (case gettoken m es p of (tok, _, _, ps) \<Rightarrow> case gettoken m es ps of (tok2, q, eq, ps) \<Rightarrow>
        if tok2 \<noteq> chr CHR ''a'' then Err (Panic ''missing file for redirection'')
        else parseredirs n m es (if tok = chr CHR ''<'' then REDIR c (q, eq) O_RDONLY 0
          else if tok = chr CHR ''>'' then REDIR c (q, eq) (O_WRONLY OR O_CREATE) 1
          else if tok = chr CHR ''+'' then REDIR c (q, eq) (O_WRONLY OR O_CREATE) 1 else c) ps)"
      using t t2 tb2(8) Suc.prems(1) P by simp
  qed (use Suc.prems in auto)
qed simp

lemma parseargs_returns:
  assumes l: "line_at m s es"
  shows "cmd_ok m s es c \<Longrightarrow> exec_with k c \<Longrightarrow> k < MAXARGS \<Longrightarrow> s \<le> ps \<Longrightarrow> ps \<le> es \<Longrightarrow> es - ps < n \<Longrightarrow>
    returned (cmd_ok m s es) es ps (parseargs n m es k c ps)"
proof (induction n arbitrary: k c ps)
  case (Suc n)
  let ?P = "\<lambda>k c. cmd_ok m s es c \<and> exec_with k c"
  obtain b p where p: "peek m es ps (str ''|)&;'') = (b, p)" by fastforce
  note pb = peek_bounds [OF p Suc.prems(5)]
  obtain tok q eq p1 where t: "gettoken m es p = (tok, q, eq, p1)" by (metis prod_cases4)
  have sp: "s \<le> p" using pb Suc.prems by simp
  note tb = gettoken_bounds [OF t l sp pb(2)]
  have more: "returned (cmd_ok m s es) es ps
      (bindR (parseredirs n m es (add_arg (q, eq) c) p1) (\<lambda>(c, p). parseargs n m es (k + 1) c p))"
    if a: "tok = chr CHR ''a''" "k + 1 < MAXARGS"
  proof -
    have w: "word_ok m s es (q, eq)" using tb(8) a by simp
    then have lt: "ps < p1" using tb pb(1) by (auto simp: word_ok_def)
    have "?P (k + 1) (add_arg (q, eq) c)"
      using add_arg_exec [OF Suc.prems(2), of "(q, eq)"] Suc.prems(1) w exec_with_short [of "k + 1"] a(2)
      by (auto simp: cmd_ok_def)
    then have "returned (?P (k + 1)) es p1 (parseredirs n m es (add_arg (q, eq) c) p1)"
      using lt tb(4) Suc.prems(4,6) by (intro parseredirs_returns [OF l]) (auto simp: cmd_ok_def)
    then have "returned (cmd_ok m s es) es p1
      (bindR (parseredirs n m es (add_arg (q, eq) c) p1) (\<lambda>(c, p). parseargs n m es (k + 1) c p))"
      by (rule returned_bind, intro Suc.IH) (use a(2) lt Suc.prems(4,6) in auto)
    then show ?thesis by (rule returned_le [OF _ less_imp_le [OF lt]])
  qed
  have "parseargs (Suc n) m es k c ps =
      (if b then Ok (c, p) else if tok = 0 then Ok (c, p1) else if tok \<noteq> chr CHR ''a'' then Err (Panic ''syntax'')
       else if MAXARGS \<le> k + 1 then Err (Panic ''too many args'')
       else bindR (parseredirs n m es (add_arg (q, eq) c) p1) (\<lambda>(c, p). parseargs n m es (k + 1) c p))"
    by (simp add: p t)
  moreover have "returned (cmd_ok m s es) es ps (Ok (c, p))" "returned (cmd_ok m s es) es ps (Ok (c, p1))"
    using Suc.prems(1) pb(1,2) tb(1,2,3,4) by simp_all
  ultimately show ?case using more returned_simps(2) by (simp only: not_le split: if_split) blast
qed simp

lemma parsebacks_returns:
  assumes l: "line_at m s es"
  shows "cmd_ok m s es c \<Longrightarrow> s \<le> ps \<Longrightarrow> ps \<le> es \<Longrightarrow> es - ps < n \<Longrightarrow>
    returned (cmd_ok m s es) es ps (parsebacks n m es c ps)"
proof (induction n arbitrary: c ps)
  case (Suc n)
  show ?case unfolding parsebacks.simps
  proof (rule returned_peek [OF l Suc.prems(2,3)])
    fix p tok q eq p1
    assume t: "gettoken m es p = (tok, q, eq, p1)" "ps < p1" "p1 \<le> es" "s \<le> p1"
    have "returned (cmd_ok m s es) es p1 (parsebacks n m es (BACK c) p1)"
      using Suc.prems t by (intro Suc.IH) (auto simp: cmd_ok_def)
    then show "returned (cmd_ok m s es) es p1 (case gettoken m es p of (_, _, _, ps) \<Rightarrow> parsebacks n m es (BACK c) ps)"
      using t by simp
  qed (use Suc.prems in auto)
qed simp

text \<open>
  The four parsers that call each other: a number of levels that is enough for the rest of the line at
  each of them. Every level that does not consume a token goes to the next one in the chain line, pipe,
  exec, block.
\<close>

definition level_ok :: "bytes \<Rightarrow> nat \<Rightarrow> nat \<Rightarrow> nat \<Rightarrow> bool" where
  "level_ok m s es n \<longleftrightarrow> (\<forall>ps. s \<le> ps \<and> ps \<le> es \<longrightarrow>
    (4 * (es - ps) + 4 < n \<longrightarrow> returned (cmd_ok m s es) es ps (parseline n m es ps)) \<and>
    (4 * (es - ps) + 3 < n \<longrightarrow> returned (cmd_ok m s es) es ps (parsepipe n m es ps)) \<and>
    (4 * (es - ps) + 2 < n \<longrightarrow> returned (cmd_ok m s es) es ps (parseexec n m es ps)) \<and>
    (4 * (es - ps) + 1 < n \<longrightarrow> returned (cmd_ok m s es) es ps (parseblock n m es ps)))"

lemma parseline_level:
  assumes l: "line_at m s es" and lev: "level_ok m s es n" and ps: "s \<le> ps" "ps \<le> es" and n: "4 * (es - ps) + 4 < Suc n"
  shows "returned (cmd_ok m s es) es ps (parseline (Suc n) m es ps)"
  unfolding parseline.simps
proof (rule returned_bind)
  show "returned (cmd_ok m s es) es ps (parsepipe n m es ps)" using lev ps n by (simp add: level_ok_def)
next
  fix c p assume c: "cmd_ok m s es c" and p: "ps \<le> p" "p \<le> es"
  show "returned (cmd_ok m s es) es p (bindR (parsebacks n m es c p) (\<lambda>(cmd, ps).
       case peek m es ps (str '';'') of (b, ps) \<Rightarrow>
         if b then (case gettoken m es ps of (_, _, _, ps) \<Rightarrow>
              bindR (parseline n m es ps) (\<lambda>(right, ps). Ok (LIST cmd right, ps))) else Ok (cmd, ps)))"
  proof (rule returned_bind [OF parsebacks_returns [OF l c]])
    fix c p' assume c: "cmd_ok m s es c" and p': "p \<le> p'" "p' \<le> es"
    show "returned (cmd_ok m s es) es p' (case peek m es p' (str '';'') of (b, ps) \<Rightarrow>
         if b then (case gettoken m es ps of (_, _, _, ps) \<Rightarrow>
              bindR (parseline n m es ps) (\<lambda>(right, ps). Ok (LIST c right, ps))) else Ok (c, ps))"
    proof (rule returned_peek [OF l])
      fix p1 tok q eq p2
      assume t: "gettoken m es p1 = (tok, q, eq, p2)" "p' < p2" "p2 \<le> es" "s \<le> p2"
      have "returned (cmd_ok m s es) es p2 (parseline n m es p2)" using lev t p p' n by (simp add: level_ok_def)
      from returned_bind [OF this, of "cmd_ok m s es" "\<lambda>right ps. Ok (LIST c right, ps)"] c
      show "returned (cmd_ok m s es) es p2 (case gettoken m es p1 of (_, _, _, ps) \<Rightarrow>
              bindR (parseline n m es ps) (\<lambda>(right, ps). Ok (LIST c right, ps)))"
        using t(1) by (auto simp: cmd_ok_def)
    qed (use ps p p' c in auto)
  qed (use ps p n in auto)
qed

lemma parsepipe_level:
  assumes l: "line_at m s es" and lev: "level_ok m s es n" and ps: "s \<le> ps" "ps \<le> es" and n: "4 * (es - ps) + 3 < Suc n"
  shows "returned (cmd_ok m s es) es ps (parsepipe (Suc n) m es ps)"
  unfolding parsepipe.simps
proof (rule returned_bind)
  show "returned (cmd_ok m s es) es ps (parseexec n m es ps)" using lev ps n by (simp add: level_ok_def)
next
  fix c p assume c: "cmd_ok m s es c" and p: "ps \<le> p" "p \<le> es"
  show "returned (cmd_ok m s es) es p (case peek m es p (str ''|'') of (b, ps) \<Rightarrow>
         if b then (case gettoken m es ps of (_, _, _, ps) \<Rightarrow>
              bindR (parsepipe n m es ps) (\<lambda>(right, ps). Ok (PIPE c right, ps))) else Ok (c, ps))"
  proof (rule returned_peek [OF l])
    fix p1 tok q eq p2
    assume t: "gettoken m es p1 = (tok, q, eq, p2)" "p < p2" "p2 \<le> es" "s \<le> p2"
    have "returned (cmd_ok m s es) es p2 (parsepipe n m es p2)" using lev t p n by (simp add: level_ok_def)
    from returned_bind [OF this, of "cmd_ok m s es" "\<lambda>right ps. Ok (PIPE c right, ps)"] c
    show "returned (cmd_ok m s es) es p2 (case gettoken m es p1 of (_, _, _, ps) \<Rightarrow>
            bindR (parsepipe n m es ps) (\<lambda>(right, ps). Ok (PIPE c right, ps)))"
      using t(1) by (auto simp: cmd_ok_def)
  qed (use ps p c in auto)
qed

lemma cmd_ok_redir: "cmd_ok m s es c \<Longrightarrow> word_ok m s es (q, eq) \<Longrightarrow> cmd_ok m s es (REDIR c (q, eq) mode fd)"
  by (auto simp: cmd_ok_def)

lemma parseblock_level:
  assumes l: "line_at m s es" and lev: "level_ok m s es n" and ps: "s \<le> ps" "ps \<le> es" and n: "4 * (es - ps) + 1 < Suc n"
  shows "returned (cmd_ok m s es) es ps (parseblock (Suc n) m es ps)"
proof -
  have swap: "(if \<not> b then x else y) = (if b then y else x)" for b and x y :: "(pcmd \<times> nat) res" by simp
  show "returned (cmd_ok m s es) es ps (parseblock (Suc n) m es ps)"
    unfolding parseblock.simps swap
  proof (rule returned_peek [OF l ps])
    fix p tok q eq p1
    assume t: "gettoken m es p = (tok, q, eq, p1)" "ps < p1" "p1 \<le> es" "s \<le> p1"
    have "returned (cmd_ok m s es) es p1 (parseline n m es p1)" using lev t n by (simp add: level_ok_def)
    then have "returned (cmd_ok m s es) es p1 (bindR (parseline n m es p1) (\<lambda>(cmd, ps).
        case peek m es ps (str '')'') of (b, ps) \<Rightarrow>
          if b then (case gettoken m es ps of (_, _, _, ps) \<Rightarrow> parseredirs n m es cmd ps)
          else Err (Panic ''syntax - missing )'')))"
    proof (rule returned_bind)
      fix c p2 assume c: "cmd_ok m s es c" and p2: "p1 \<le> p2" "p2 \<le> es"
      show "returned (cmd_ok m s es) es p2 (case peek m es p2 (str '')'') of (b, ps) \<Rightarrow>
          if b then (case gettoken m es ps of (_, _, _, ps) \<Rightarrow> parseredirs n m es c ps)
          else Err (Panic ''syntax - missing )''))"
      proof (rule returned_peek [OF l])
        fix p tok q eq p3
        assume t': "gettoken m es p = (tok, q, eq, p3)" "p2 < p3" "p3 \<le> es" "s \<le> p3"
        have "returned (cmd_ok m s es) es p3 (parseredirs n m es c p3)"
          using c t' t p2 ps n by (intro parseredirs_returns [OF l]) (auto intro: cmd_ok_redir)
        then show "returned (cmd_ok m s es) es p3 (case gettoken m es p of (_, _, _, ps) \<Rightarrow> parseredirs n m es c ps)"
          using t'(1) by simp
      qed (use t p2 in auto)
    qed
    then show "returned (cmd_ok m s es) es p1 (case gettoken m es p of (_, _, _, ps) \<Rightarrow>
        bindR (parseline n m es ps) (\<lambda>(cmd, ps).
        case peek m es ps (str '')'') of (b, ps) \<Rightarrow>
          if b then (case gettoken m es ps of (_, _, _, ps) \<Rightarrow> parseredirs n m es cmd ps)
          else Err (Panic ''syntax - missing )'')))" using t(1) by simp
  qed simp
qed

lemma parseexec_level:
  assumes l: "line_at m s es" and lev: "level_ok m s es n" and ps: "s \<le> ps" "ps \<le> es" and n: "4 * (es - ps) + 2 < Suc n"
  shows "returned (cmd_ok m s es) es ps (parseexec (Suc n) m es ps)"
proof -
  obtain b p where p: "peek m es ps (str ''('') = (b, p)" by fastforce
  note pb = peek_bounds [OF p ps(2)]
  let ?P = "\<lambda>c. cmd_ok m s es c \<and> exec_with 0 c"
  have sp: "s \<le> p" using pb ps by simp
  have block: "returned (cmd_ok m s es) es p (parseblock n m es p)" using lev sp pb n by (simp add: level_ok_def)
  have "returned ?P es p (parseredirs n m es (EXEC []) p)"
    using sp pb n by (intro parseredirs_returns [OF l]) (auto simp: cmd_ok_def)
  then have "returned (cmd_ok m s es) es p (bindR (parseredirs n m es (EXEC []) p) (\<lambda>(ret, ps). parseargs n m es 0 ret ps))"
    by (rule returned_bind) (use sp pb n in \<open>auto intro!: parseargs_returns [OF l]\<close>)
  with block show ?thesis using p pb(1) by (auto intro: returned_le)
qed

lemma all_levels:
  assumes l: "line_at m s es"
  shows "level_ok m s es n"
proof (induction n)
  case (Suc n)
  show ?case
    unfolding level_ok_def
    using parseline_level [OF l Suc] parsepipe_level [OF l Suc] parseexec_level [OF l Suc] parseblock_level [OF l Suc] by blast
qed (simp add: level_ok_def)

section \<open>Strings of a parsed command\<close>

lemma nulterminate_apply: "nulterminate c m i = (if i \<in> snd ` set_cmd c then 0 else m i)"
proof (induction c arbitrary: m)
  case (EXEC args)
  show ?case by (induction args arbitrary: m) auto
qed auto

lemma word_string:
  assumes c: "\<forall>w \<in> set_cmd c. word_ok m s es w" and w: "(q, eq) \<in> set_cmd c"
  shows "cstr_at (nulterminate c m) q (eq - q)" "bytes_of (nulterminate c m) q (eq - q) = bytes_of m q (eq - q)"
proof -
  have ok: "word_ok m s es (q, eq)" using c w by blast
  have keep: "nulterminate c m i = m i" if "q \<le> i" "i < eq" for i
  proof -
    have "word_char (m i)" using ok that by (auto simp: word_ok_def)
    then have "i \<notin> snd ` set_cmd c" using c by (fastforce simp: word_ok_def)
    then show ?thesis by (simp add: nulterminate_apply)
  qed
  have "nulterminate c m eq = 0" using w by (force simp: nulterminate_apply)
  moreover have "m i \<noteq> 0" if "q \<le> i" "i < eq" for i using ok that by (auto simp: word_ok_def word_char_def)
  ultimately show "cstr_at (nulterminate c m) q (eq - q)" using keep ok by (auto simp: cstr_at_def word_ok_def)
  show "bytes_of (nulterminate c m) q (eq - q) = bytes_of m q (eq - q)" using keep by (auto simp: bytes_of_def)
qed

text \<open>The C string at a position.\<close>

definition string_at :: "bytes \<Rightarrow> nat \<Rightarrow> u8 list" where
  "string_at m p = (case strlen m p of Some k \<Rightarrow> bytes_of m p k | None \<Rightarrow> [])"

lemma line_at_cstr: "cstr_at m s k \<Longrightarrow> line_at m s (s + k)"
  unfolding cstr_at_def line_at_def by (metis add_diff_inverse_nat diff_less_mono2 le_add1 nat_add_left_cancel_less not_less)

lemma parsecmd_run:
  assumes "cstr_at m s k"
  shows "parsecmd m s = bindR (parseline (parse_fuel k) m (s + k) s) (\<lambda>(cmd, p).
    if skip_white m (s + k) p \<noteq> s + k then Err (Panic ''syntax'') else Ok (cmd, nulterminate cmd m))"
  using strlen_cstr [OF assms] by (simp add: parsecmd_def peek_def Let_def)

text \<open>
  C12. Parsing a command line always ends: with a panic, or with a command of which every argument list
  fits into argv with its null pointer and every word is, after nulterminate, a NUL-terminated string in
  the buffer that holds the characters typed and nothing of the shell's syntax. Nothing outside the
  line is written.
\<close>

theorem parsecmd_returns:
  assumes "cstr_at m s k"
  shows "(\<exists>msg. parsecmd m s = Err (Panic msg)) \<or>
    (\<exists>c m'. parsecmd m s = Ok (c, m') \<and> short_args c \<and>
      (\<forall>(q, eq) \<in> set_cmd c. s \<le> q \<and> q < eq \<and> eq \<le> s + k \<and> cstr_at m' q (eq - q) \<and>
         bytes_of m' q (eq - q) = bytes_of m q (eq - q) \<and> (\<forall>i. q \<le> i \<and> i < eq \<longrightarrow> word_char (m i))) \<and>
      (\<forall>i. i < s \<or> s + k < i \<longrightarrow> m' i = m i))"
proof -
  have l: "line_at m s (s + k)" by (rule line_at_cstr [OF assms])
  have "returned (cmd_ok m s (s + k)) (s + k) s (parseline (parse_fuel k) m (s + k) s)"
    using all_levels [OF l, of "parse_fuel k"] by (simp add: level_ok_def parse_fuel_def)
  then consider (panic) msg where "parseline (parse_fuel k) m (s + k) s = Err (Panic msg)"
    | (cmd) c p where "parseline (parse_fuel k) m (s + k) s = Ok (c, p)" "cmd_ok m s (s + k) c"
    by (auto simp: returned_def split: res.splits)
  then show ?thesis
  proof cases
    case cmd
    then have ok: "short_args c" "\<forall>w \<in> set_cmd c. word_ok m s (s + k) w" by (auto simp: cmd_ok_def)
    have "(\<forall>(q, eq) \<in> set_cmd c. s \<le> q \<and> q < eq \<and> eq \<le> s + k \<and> cstr_at (nulterminate c m) q (eq - q) \<and>
         bytes_of (nulterminate c m) q (eq - q) = bytes_of m q (eq - q) \<and> (\<forall>i. q \<le> i \<and> i < eq \<longrightarrow> word_char (m i)))"
      using word_string [OF ok(2)] ok(2) by (fastforce simp: word_ok_def)
    moreover have "nulterminate c m i = m i" if "i < s \<or> s + k < i" for i
      using that ok(2) by (fastforce simp: nulterminate_apply word_ok_def)
    ultimately show ?thesis using cmd(1) ok(1) by (simp add: parsecmd_run [OF assms])
  qed (simp add: parsecmd_run [OF assms])
qed

theorem parsecmd_returns_witness:
  "\<exists>m k. cstr_at m 0 k \<and> ((\<exists>msg. parsecmd m 0 = Err (Panic msg)) \<or> (\<exists>c m'. parsecmd m 0 = Ok (c, m') \<and> short_args c \<and> (\<forall>i > k. m' i = m i)))"
proof -
  have c: "cstr_at (c_string (str ''ls | wc'')) 0 7" unfolding cstr_at_def by code_simp
  from parsecmd_returns [OF c] show ?thesis by (intro exI [of _ "c_string (str ''ls | wc'')"] exI [of _ 7] conjI c) auto
qed

end
