(* ===== verification/ShParse.thy ===== *)
theory ShParse
  imports Sh
begin

text \<open>
  Commands written out are parsed back: for every command that the syntax can express, the parser of sh.c
  returns that command when it is given its text.
\<close>

unbundle bit_operations_syntax

section \<open>Printing and parsing\<close>

text \<open>A command over strings written out with parentheses around every part.\<close>

definition paren :: "u8 list \<Rightarrow> u8 list" where
  "paren xs = chr CHR ''('' # xs @ [chr CHR '')'']"

primrec unparse :: "u8 list cmd \<Rightarrow> u8 list" where
  "unparse (EXEC args) = concat (map (\<lambda>w. w @ [chr CHR '' '']) args)"
| "unparse (REDIR c f mode fd) = paren (unparse c) @ (if fd = 0 then chr CHR ''<'' else chr CHR ''>'') # f @ [chr CHR '' '']"
| "unparse (PIPE l r) = paren (unparse l) @ chr CHR ''|'' # paren (unparse r)"
| "unparse (LIST l r) = paren (unparse l) @ chr CHR '';'' # paren (unparse r)"
| "unparse (BACK c) = paren (unparse c) @ [chr CHR ''&'']"

definition is_word :: "u8 list \<Rightarrow> bool" where
  "is_word w \<longleftrightarrow> w \<noteq> [] \<and> (\<forall>c \<in> set w. word_char c)"

text \<open>The commands that the shell's syntax can express.\<close>

primrec writable :: "u8 list cmd \<Rightarrow> bool" where
  "writable (EXEC args) \<longleftrightarrow> length args < MAXARGS \<and> (\<forall>w \<in> set args. is_word w)"
| "writable (REDIR c f mode fd) \<longleftrightarrow> writable c \<and> is_word f \<and> (mode = O_RDONLY \<and> fd = 0 \<or> mode = O_WRONLY OR O_CREATE \<and> fd = 1)"
| "writable (PIPE l r) \<longleftrightarrow> writable l \<and> writable r"
| "writable (LIST l r) \<longleftrightarrow> writable l \<and> writable r"
| "writable (BACK c) \<longleftrightarrow> writable c"

definition at :: "bytes \<Rightarrow> nat \<Rightarrow> u8 list \<Rightarrow> bool" where
  "at m p xs \<longleftrightarrow> (\<forall>i < length xs. m (p + i) = xs ! i)"

lemma at_Nil [simp]: "at m p []"
  by (simp add: at_def)

lemma at_Cons [simp]: "at m p (x # xs) \<longleftrightarrow> m p = x \<and> at m (Suc p) xs"
  by (auto simp: at_def nth_Cons split: nat.splits)

lemma at_append [simp]: "at m p (xs @ ys) \<longleftrightarrow> at m p xs \<and> at m (p + length xs) ys"
  by (induction xs arbitrary: p) auto

lemma at_bytes_of: "at m p xs \<longleftrightarrow> bytes_of m p (length xs) = xs"
  by (auto simp: at_def list_eq_iff_nth_eq)

subsection \<open>Tokens\<close>

lemma not_white: "m p \<notin> set whitespace \<Longrightarrow> skip_white m es p = p"
  by (simp add: skip_white.simps [of m es p])

lemma end_white: "es \<le> p \<Longrightarrow> skip_white m es p = p"
  by (simp add: skip_white.simps [of m es p])

lemma symbol_bytes:
  "chr CHR ''('' \<notin> set whitespace" "chr CHR '')'' \<notin> set whitespace" "chr CHR ''|'' \<notin> set whitespace" "chr CHR '';'' \<notin> set whitespace"
  "chr CHR ''&'' \<notin> set whitespace" "chr CHR ''<'' \<notin> set whitespace" "chr CHR ''>'' \<notin> set whitespace" "0 \<notin> set whitespace"
  "chr CHR '' '' \<in> set whitespace"
  by code_simp+

text \<open>A peek at a character that is not white space stays where it is.\<close>

lemma peek_here: "m p \<notin> set whitespace \<Longrightarrow> peek m es p toks = (m p \<noteq> 0 \<and> m p \<in> set toks, p)"
  by (simp add: peek_def not_white)

lemma symbol_token:
  assumes "m p \<in> set (str ''|();&<'')"
  shows "gettoken m es p = (m p, p, Suc p, skip_white m es (Suc p))"
proof -
  have "\<forall>c \<in> set (str ''|();&<''). c \<noteq> 0 \<and> c \<notin> set whitespace" by code_simp
  then show ?thesis using assms by (simp add: gettoken_def not_white Let_def)
qed

lemma out_token:
  assumes "m p = chr CHR ''>''" "m (Suc p) \<noteq> chr CHR ''>''"
  shows "gettoken m es p = (chr CHR ''>'', p, Suc p, skip_white m es (Suc p))"
proof -
  have "chr CHR ''>'' \<noteq> 0" "chr CHR ''>'' \<notin> set (str ''|();&<'')" by code_simp+
  then show ?thesis using assms symbol_bytes(7) by (simp add: gettoken_def not_white Let_def)
qed

lemma skip_word_run:
  assumes "at m p w" "\<forall>c \<in> set w. word_char c" "p + length w < es" "\<not> word_char (m (p + length w))" "m (p + length w) \<noteq> 0"
  shows "skip_word m es p = p + length w"
  using assms
proof (induction w arbitrary: p)
  case Nil
  then show ?case by (auto simp: skip_word.simps [of m es p] word_char_def)
next
  case (Cons c w)
  then show ?case by (simp add: skip_word.simps [of m es p] word_char_def)
qed

lemma white_not_word: "c \<in> set whitespace \<Longrightarrow> \<not> word_char c \<and> c \<noteq> 0"
  using symbol_bytes(8) by (auto simp: word_char_def)

lemma word_token:
  assumes w: "at m p w" "m (p + length w) \<in> set whitespace" "is_word w" and es: "p + length w < es"
    and n: "m (p + length w + 1) \<notin> set whitespace"
  shows "gettoken m es p = (chr CHR ''a'', p, p + length w, p + length w + 1)"
proof -
  obtain c w' where c: "w = c # w'" using w(3) by (cases w) (auto simp: is_word_def)
  then have wc: "word_char (m p)" using w by (auto simp: is_word_def)
  have "skip_word m es p = p + length w" using w es white_not_word [OF w(2)] by (intro skip_word_run) (auto simp: is_word_def)
  moreover have "skip_white m es (p + length w) = p + length w + 1"
    using w(2) es n by (simp add: skip_white.simps [of m es "p + length w"] not_white)
  moreover have "m p \<notin> set (str ''|();&<'')" "m p \<noteq> chr CHR ''>''" "m p \<noteq> 0" "m p \<notin> set whitespace"
    using wc by (auto simp: word_char_def symbol_chars)
  ultimately show ?thesis by (simp add: gettoken_def not_white Let_def)
qed

subsection \<open>Commands\<close>

definition lexeme :: "bytes \<Rightarrow> nat \<times> nat \<Rightarrow> u8 list" where
  "lexeme m = (\<lambda>(q, eq). bytes_of m q (eq - q))"

definition closing :: "u8 \<Rightarrow> bool" where
  "closing c \<longleftrightarrow> c = 0 \<or> c = chr CHR '')''"

definition reads :: "bytes \<Rightarrow> nat \<Rightarrow> u8 list cmd \<Rightarrow> bool" where
  "reads m es c \<longleftrightarrow> (\<forall>p n. at m p (unparse c) \<and> p + length (unparse c) \<le> es \<and> closing (m (p + length (unparse c))) \<and>
     4 * length (unparse c) + 5 \<le> n \<longrightarrow>
     (\<exists>c'. parseline n m es p = Ok (c', p + length (unparse c)) \<and> map_cmd (lexeme m) c' = c))"

lemma closing_not_white: "closing c \<Longrightarrow> c \<notin> set whitespace"
  using symbol_bytes by (auto simp: closing_def)

lemma word_not_white: "is_word w \<Longrightarrow> hd w \<notin> set whitespace"
  by (cases w) (auto simp: is_word_def word_char_def)

lemma first_not_white:
  assumes "writable c" "at m p (unparse c)" "closing (m (p + length (unparse c)))"
  shows "m p \<notin> set whitespace"
proof (cases c)
  case (EXEC args)
  show ?thesis
  proof (cases args)
    case Nil
    then show ?thesis using assms EXEC by (simp add: closing_not_white)
  next
    case (Cons w ws)
    then have "is_word w" "m p = hd w" using assms EXEC by (cases w; auto simp: is_word_def)+
    then show ?thesis using word_not_white by simp
  qed
qed (use assms(2) symbol_bytes in \<open>auto simp: paren_def\<close>)

lemma no_redir: "m p \<notin> set whitespace \<Longrightarrow> m p \<notin> set (str ''<>'') \<Longrightarrow> parseredirs (Suc n) m es c p = Ok (c, p)"
  by (simp add: peek_here)

lemma no_back: "m p \<notin> set whitespace \<Longrightarrow> m p \<noteq> chr CHR ''&'' \<Longrightarrow> parsebacks (Suc n) m es c p = Ok (c, p)"
  by (simp add: peek_here str_def)

text \<open>A parenthesised command, up to the redirections that follow it.\<close>

lemma parse_block:
  assumes r: "reads m es c" and w: "writable c" and a: "at m p (paren (unparse c))"
    and es: "p + length (unparse c) + 2 \<le> es" and z: "skip_white m es (p + length (unparse c) + 2) = z"
    and n: "4 * length (unparse c) + 5 \<le> n"
  shows "\<exists>c'. map_cmd (lexeme m) c' = c \<and> parseexec (Suc (Suc n)) m es p = parseredirs n m es c' z"
proof -
  let ?k = "length (unparse c)"
  have m: "m p = chr CHR ''(''" "at m (p + 1) (unparse c)" "m (p + 1 + ?k) = chr CHR '')''"
    using a by (simp_all add: paren_def)
  have cl: "closing (m (p + 1 + ?k))" using m(3) by (simp add: closing_def)
  obtain c' where c': "parseline n m es (p + 1) = Ok (c', p + 1 + ?k)" "map_cmd (lexeme m) c' = c"
    using r [unfolded reads_def, rule_format, of "p + 1" n] m(2) es n cl by auto
  have s: "set (str ''('') = {chr CHR ''(''}" "set (str '')'') = {chr CHR '')''}" by (simp_all add: str_def)
  have nz: "chr CHR ''('' \<noteq> 0" "chr CHR '')'' \<noteq> 0" by code_simp+
  have nw: "skip_white m es (p + 1) = p + 1" by (rule not_white) (rule first_not_white [OF w m(2) cl])
  have t1: "gettoken m es p = (chr CHR ''('', p, p + 1, p + 1)"
    using symbol_token [of m p es] m(1) nw by (simp add: str_def)
  have t2: "gettoken m es (p + 1 + ?k) = (chr CHR '')'', p + 1 + ?k, p + ?k + 2, z)"
    using symbol_token [of m "p + 1 + ?k" es] m(3) z by (simp add: str_def)
  have pk1: "peek m es p (str ''('') = (True, p)" using m(1) symbol_bytes(1) nz by (simp add: peek_here s)
  have pk2: "peek m es (p + 1 + ?k) (str '')'') = (True, p + 1 + ?k)" using m(3) symbol_bytes(2) nz by (simp add: peek_here s)
  have "parseexec (Suc (Suc n)) m es p = parseredirs n m es c' z"
    by (simp only: parseexec.simps parseblock.simps pk1 pk2 t1 t2 c'(1) prod.case bindR.simps if_True not_True_eq_False if_False)
  then show ?thesis using c'(2) by blast
qed

definition after_block :: "u8 \<Rightarrow> bool" where
  "after_block c \<longleftrightarrow> closing c \<or> c \<in> set (str ''&;|'')"

lemma after_block_chars:
  "after_block c \<Longrightarrow> c \<notin> set whitespace \<and> c \<notin> set (str ''<>'')"
  "closing c \<Longrightarrow> c \<notin> set (str ''&'') \<and> c \<notin> set (str '';'') \<and> c \<notin> set (str ''|'') \<and> c \<notin> set (str ''<>'') \<and> c \<notin> set (str ''('') \<and>
     c \<notin> set whitespace \<and> (c \<noteq> 0 \<longrightarrow> c \<in> set (str ''|)&;''))"
proof -
  have "\<forall>c \<in> {0, chr CHR '')'', chr CHR ''&'', chr CHR '';'', chr CHR ''|''}. c \<notin> set whitespace \<and> c \<notin> set (str ''<>'')"
    by code_simp
  then show "after_block c \<Longrightarrow> c \<notin> set whitespace \<and> c \<notin> set (str ''<>'')"
    by (auto simp: after_block_def closing_def str_def)
  have "\<forall>c \<in> {0, chr CHR '')''}. c \<notin> set (str ''&'') \<and> c \<notin> set (str '';'') \<and> c \<notin> set (str ''|'') \<and> c \<notin> set (str ''<>'') \<and>
     c \<notin> set (str ''('') \<and> c \<notin> set whitespace \<and> (c \<noteq> 0 \<longrightarrow> c \<in> set (str ''|)&;''))" by code_simp
  then show "closing c \<Longrightarrow> c \<notin> set (str ''&'') \<and> c \<notin> set (str '';'') \<and> c \<notin> set (str ''|'') \<and> c \<notin> set (str ''<>'') \<and> c \<notin> set (str ''('') \<and>
     c \<notin> set whitespace \<and> (c \<noteq> 0 \<longrightarrow> c \<in> set (str ''|)&;''))" by (auto simp: closing_def)
qed

lemma plain_block:
  assumes r: "reads m es c" and w: "writable c" and a: "at m p (paren (unparse c))"
    and es: "p + length (unparse c) + 2 \<le> es" and z: "skip_white m es (p + length (unparse c) + 2) = z"
    and x: "after_block (m z)" and n: "4 * length (unparse c) + 5 \<le> n"
  shows "\<exists>c'. map_cmd (lexeme m) c' = c \<and> parseexec (Suc (Suc n)) m es p = Ok (c', z)"
proof -
  note x' = after_block_chars(1) [OF x]
  obtain n' where "n = Suc n'" using n by (cases n) auto
  then show ?thesis using parse_block [OF r w a es z n] x' no_redir [of m z n' es] by auto
qed

lemma pipe_block:
  assumes r: "reads m es c" and w: "writable c" and a: "at m p (paren (unparse c))"
    and es: "p + length (unparse c) + 2 \<le> es" and z: "skip_white m es (p + length (unparse c) + 2) = z"
    and x: "after_block (m z)" "m z \<noteq> chr CHR ''|''" and n: "4 * length (unparse c) + 5 \<le> n"
  shows "\<exists>c'. map_cmd (lexeme m) c' = c \<and> parsepipe (Suc (Suc (Suc n))) m es p = Ok (c', z)"
proof -
  obtain c' where c': "map_cmd (lexeme m) c' = c" "parseexec (Suc (Suc n)) m es p = Ok (c', z)"
    using plain_block [OF r w a es z x(1) n] by blast
  have "peek m es z (str ''|'') = (False, z)" using after_block_chars(1) [OF x(1)] x(2) by (simp add: peek_here str_def)
  then have "parsepipe (Suc (Suc (Suc n))) m es p = Ok (c', z)"
    by (simp only: parsepipe.simps c'(2) bindR.simps prod.case if_False)
  then show ?thesis using c'(1) by blast
qed

lemma after_block_white: "after_block (m p) \<Longrightarrow> skip_white m es p = p"
  by (rule not_white) (simp add: after_block_chars(1))

text \<open>The separator between two parenthesised commands is seen by peek and consumed by gettoken.\<close>

lemma seen_token:
  assumes "m p = c" "c \<in> set toks" "c \<in> set (str ''|&;'')" "m (Suc p) \<notin> set whitespace"
  shows "peek m es p toks = (True, p)" "gettoken m es p = (c, p, Suc p, Suc p)"
proof -
  have "\<forall>c \<in> set (str ''|&;''). c \<noteq> 0 \<and> c \<notin> set whitespace \<and> c \<in> set (str ''|();&<'')" by code_simp
  then have c: "c \<noteq> 0" "c \<notin> set whitespace" "c \<in> set (str ''|();&<'')" using assms(3) by blast+
  show "peek m es p toks = (True, p)" using assms(1,2) c by (simp add: peek_here)
  show "gettoken m es p = (c, p, Suc p, Suc p)" using assms(1,4) c symbol_token [of m p es] by (simp add: not_white)
qed

text \<open>The end of a line: what parsepipe returned is the result.\<close>

lemma line_ends:
  assumes "parsepipe (Suc n) m es p = Ok (c, q)" "closing (m q)"
  shows "parseline (Suc (Suc n)) m es p = Ok (c, q)"
proof -
  note x = after_block_chars(2) [OF assms(2)]
  have "parsebacks (Suc n) m es c q = Ok (c, q)" using x by (intro no_back) (auto simp: str_def)
  moreover have "peek m es q (str '';'') = (False, q)" using x by (simp add: peek_here)
  ultimately show ?thesis by (simp only: parseline.simps assms(1) bindR.simps prod.case if_False)
qed

lemma reads_PIPE:
  assumes r: "reads m es l" "reads m es r" and w: "writable l" "writable r"
  shows "reads m es (PIPE l r)"
  unfolding reads_def
proof (intro allI impI; elim conjE)
  fix p n
  let ?a = "length (unparse l)" and ?b = "length (unparse r)" and ?u = "unparse (PIPE l r)"
  assume a: "at m p ?u" "p + length ?u \<le> es" and cl: "closing (m (p + length ?u))" and n: "4 * length ?u + 5 \<le> n"
  have len: "length ?u = ?a + ?b + 5" by (simp add: paren_def)
  have m: "at m p (paren (unparse l))" "m (p + ?a + 2) = chr CHR ''|''" "at m (p + ?a + 3) (paren (unparse r))"
    using a(1) by (simp_all add: paren_def eval_nat_numeral add.commute add.left_commute)
  define n' where "n' = n - 5"
  have n': "n = Suc (Suc (Suc (Suc (Suc n'))))" "4 * ?a + 5 \<le> Suc n'" "4 * ?b + 5 \<le> n'"
    using n len unfolding n'_def by simp_all
  have bar: "after_block (chr CHR ''|'')" by code_simp
  obtain l' where l': "map_cmd (lexeme m) l' = l" "parseexec (Suc (Suc (Suc n'))) m es p = Ok (l', p + ?a + 2)"
    using plain_block [OF r(1) w(1) m(1) _ after_block_white _ n'(2)] m(2) bar a(2) len by auto
  have end_pos: "p + ?a + 3 + ?b + 2 = p + length ?u" using len by simp
  have ncl: "after_block (m (p + length ?u))" "m (p + length ?u) \<noteq> chr CHR ''|''"
    using cl by (auto simp: after_block_def closing_def chr_def)
  obtain r' where r': "map_cmd (lexeme m) r' = r" "parsepipe (Suc (Suc (Suc n'))) m es (p + ?a + 3) = Ok (r', p + length ?u)"
    using pipe_block [OF r(2) w(2) m(3) _ after_block_white _ _ n'(3), unfolded end_pos, OF a(2) ncl(1) ncl] by blast
  have sep: "m (p + ?a + 2) = chr CHR ''|''" "chr CHR ''|'' \<in> set (str ''|'')" "chr CHR ''|'' \<in> set (str ''|&;'')"
    "m (Suc (p + ?a + 2)) \<notin> set whitespace"
    using m(2,3) symbol_bytes(1) by (simp_all add: str_def paren_def eval_nat_numeral)
  note seen = seen_token [of m "p + ?a + 2", OF sep, of es]
  have nx: "Suc (p + ?a + 2) = p + ?a + 3" by simp
  have "parsepipe (Suc (Suc (Suc (Suc n')))) m es p = Ok (PIPE l' r', p + length ?u)"
    by (subst parsepipe.simps) (simp only: l'(2) seen nx r'(2) bindR.simps prod.case if_True)
  from line_ends [OF this cl] show "\<exists>c'. parseline n m es p = Ok (c', p + length ?u) \<and> map_cmd (lexeme m) c' = PIPE l r"
    using n'(1) l'(1) r'(1) by auto
qed

lemma line_block:
  assumes r: "reads m es c" and w: "writable c" and a: "at m p (paren (unparse c))"
    and es: "p + length (unparse c) + 2 \<le> es" and z: "skip_white m es (p + length (unparse c) + 2) = z"
    and x: "closing (m z)" and n: "4 * length (unparse c) + 5 \<le> n"
  shows "\<exists>c'. map_cmd (lexeme m) c' = c \<and> parseline (Suc (Suc (Suc (Suc n)))) m es p = Ok (c', z)"
proof -
  have "after_block (m z)" "m z \<noteq> chr CHR ''|''" using x by (auto simp: after_block_def closing_def chr_def)
  from pipe_block [OF r w a es z this n] show ?thesis using line_ends x by blast
qed

lemma closing_white: "closing (m p) \<Longrightarrow> skip_white m es p = p"
  by (rule not_white) (rule closing_not_white)

lemma reads_LIST:
  assumes r: "reads m es l" "reads m es r" and w: "writable l" "writable r"
  shows "reads m es (LIST l r)"
  unfolding reads_def
proof (intro allI impI; elim conjE)
  fix p n
  let ?a = "length (unparse l)" and ?b = "length (unparse r)" and ?u = "unparse (LIST l r)"
  assume a: "at m p ?u" "p + length ?u \<le> es" and cl: "closing (m (p + length ?u))" and n: "4 * length ?u + 5 \<le> n"
  have len: "length ?u = ?a + ?b + 5" by (simp add: paren_def)
  have m: "at m p (paren (unparse l))" "m (p + ?a + 2) = chr CHR '';''" "at m (p + ?a + 3) (paren (unparse r))"
    using a(1) by (simp_all add: paren_def eval_nat_numeral add.commute add.left_commute)
  define n' where "n' = n - 5"
  have n': "n = Suc (Suc (Suc (Suc (Suc n'))))" "4 * ?a + 5 \<le> Suc n'" "4 * ?b + 5 \<le> n'"
    using n len unfolding n'_def by simp_all
  have semi: "after_block (chr CHR '';'')" "chr CHR '';'' \<noteq> chr CHR ''|''" "chr CHR '';'' \<noteq> chr CHR ''&''" by code_simp+
  obtain l' where l': "map_cmd (lexeme m) l' = l" "parsepipe (Suc (Suc (Suc (Suc n')))) m es p = Ok (l', p + ?a + 2)"
    using pipe_block [OF r(1) w(1) m(1) _ after_block_white _ _ n'(2)] m(2) semi a(2) len by auto
  have end_pos: "p + ?a + 3 + ?b + 2 = p + length ?u" using len by simp
  obtain r' where r': "map_cmd (lexeme m) r' = r" "parseline (Suc (Suc (Suc (Suc n')))) m es (p + ?a + 3) = Ok (r', p + length ?u)"
    using line_block [OF r(2) w(2) m(3) _ closing_white _ n'(3), unfolded end_pos, OF a(2) cl cl] by blast
  have sep: "m (p + ?a + 2) = chr CHR '';''" "chr CHR '';'' \<in> set (str '';'')" "chr CHR '';'' \<in> set (str ''|&;'')"
    "m (Suc (p + ?a + 2)) \<notin> set whitespace"
    using m(2,3) symbol_bytes(1) by (simp_all add: str_def paren_def eval_nat_numeral)
  note seen = seen_token [of m "p + ?a + 2", OF sep, of es]
  have nx: "Suc (p + ?a + 2) = p + ?a + 3" by simp
  have nb: "parsebacks (Suc (Suc (Suc (Suc n')))) m es l' (p + ?a + 2) = Ok (l', p + ?a + 2)"
    using m(2) semi symbol_bytes(4) by (intro no_back) simp_all
  have "parseline n m es p = Ok (LIST l' r', p + length ?u)"
    unfolding n'(1) by (subst parseline.simps) (simp only: l'(2) nb seen nx r'(2) bindR.simps prod.case if_True)
  then show "\<exists>c'. parseline n m es p = Ok (c', p + length ?u) \<and> map_cmd (lexeme m) c' = LIST l r"
    using l'(1) r'(1) by auto
qed

lemma reads_BACK:
  assumes r: "reads m es c" and w: "writable c"
  shows "reads m es (BACK c)"
  unfolding reads_def
proof (intro allI impI; elim conjE)
  fix p n
  let ?a = "length (unparse c)" and ?u = "unparse (BACK c)"
  assume a: "at m p ?u" "p + length ?u \<le> es" and cl: "closing (m (p + length ?u))" and n: "4 * length ?u + 5 \<le> n"
  have len: "length ?u = ?a + 3" by (simp add: paren_def)
  have m: "at m p (paren (unparse c))" "m (p + ?a + 2) = chr CHR ''&''"
    using a(1) by (simp_all add: paren_def eval_nat_numeral add.commute add.left_commute)
  define n' where "n' = n - 5"
  have n': "n = Suc (Suc (Suc (Suc (Suc n'))))" "4 * ?a + 5 \<le> Suc n'"
    using n len unfolding n'_def by simp_all
  have amp: "after_block (chr CHR ''&'')" "chr CHR ''&'' \<noteq> chr CHR ''|''" by code_simp+
  obtain c' where c': "map_cmd (lexeme m) c' = c" "parsepipe (Suc (Suc (Suc (Suc n')))) m es p = Ok (c', p + ?a + 2)"
    using pipe_block [OF r w m(1) _ after_block_white _ _ n'(2)] m(2) amp a(2) len by auto
  have x: "m (Suc (p + ?a + 2)) \<notin> set whitespace" "m (Suc (p + ?a + 2)) \<noteq> chr CHR ''&''" "m (Suc (p + ?a + 2)) \<noteq> chr CHR '';''"
    using after_block_chars(2) [OF cl] len by (simp_all add: str_def eval_nat_numeral)
  have sep: "chr CHR ''&'' \<in> set (str ''&'')" "chr CHR ''&'' \<in> set (str ''|&;'')" by (simp_all add: str_def)
  note seen = seen_token [of m "p + ?a + 2", OF m(2) sep x(1), of es]
  have nb: "parsebacks (Suc (Suc (Suc (Suc n')))) m es c' (p + ?a + 2) = Ok (BACK c', Suc (p + ?a + 2))"
    using no_back [of m "Suc (p + ?a + 2)", OF x(1,2)] by (subst parsebacks.simps) (simp only: seen prod.case if_True)
  have ns: "peek m es (Suc (p + ?a + 2)) (str '';'') = (False, Suc (p + ?a + 2))" using x by (simp add: peek_here str_def)
  have nx: "Suc (p + ?a + 2) = p + length ?u" using len by simp
  have "parseline n m es p = Ok (BACK c', p + length ?u)"
    unfolding n'(1) by (subst parseline.simps) (simp only: c'(2) nb [unfolded nx] ns [unfolded nx] bindR.simps prod.case if_False)
  then show "\<exists>d. parseline n m es p = Ok (d, p + length ?u) \<and> map_cmd (lexeme m) d = BACK c"
    using c'(1) by auto
qed

lemma redir_token:
  assumes m: "m p = (if fd = 0 then chr CHR ''<'' else chr CHR ''>'')" and f: "is_word f" "m (Suc p) = hd f"
  shows "peek m es p (str ''<>'') = (True, p)" "gettoken m es p = (m p, p, Suc p, Suc p)"
proof -
  have c: "chr CHR ''<'' \<noteq> 0" "chr CHR ''>'' \<noteq> 0" "chr CHR ''<'' \<in> set (str ''|();&<'')" "\<not> word_char (chr CHR ''>'')" by code_simp+
  then show "peek m es p (str ''<>'') = (True, p)" using m symbol_bytes(6,7) by (simp add: peek_here str_def)
  have "word_char (hd f)" using f(1) by (cases f) (auto simp: is_word_def)
  then have "m (Suc p) \<noteq> chr CHR ''>''" "skip_white m es (Suc p) = Suc p"
    using f(2) c by (auto intro!: not_white simp: word_char_def)
  then show "gettoken m es p = (m p, p, Suc p, Suc p)"
    using m c symbol_token [of m p es] out_token [of m p es] by (cases "fd = 0") simp_all
qed

lemma reads_REDIR:
  assumes r: "reads m es c" and w: "writable (REDIR c f mode fd)"
  shows "reads m es (REDIR c f mode fd)"
  unfolding reads_def
proof (intro allI impI; elim conjE)
  fix p n
  let ?a = "length (unparse c)" and ?u = "unparse (REDIR c f mode fd)"
  assume a: "at m p ?u" "p + length ?u \<le> es" and cl: "closing (m (p + length ?u))" and n: "4 * length ?u + 5 \<le> n"
  have len: "length ?u = ?a + 4 + length f" by (simp add: paren_def)
  have f: "is_word f" "writable c" using w by simp_all
  define q where "q = p + ?a + 2"
  have m: "at m p (paren (unparse c))" "m q = (if fd = 0 then chr CHR ''<'' else chr CHR ''>'')" "at m (Suc q) (f @ [chr CHR '' ''])"
    using a(1) by (simp_all add: paren_def q_def eval_nat_numeral add.commute add.left_commute)
  have hd: "m (Suc q) = hd f" using m(3) f(1) by (cases f) (auto simp: is_word_def)
  note x = after_block_chars(2) [OF cl]
  have fin: "Suc q + length f + 1 = p + length ?u" using len by (simp add: q_def)
  define n' where "n' = n - 6"
  have n': "n = Suc (Suc (Suc (Suc (Suc (Suc n')))))" "4 * ?a + 5 \<le> Suc (Suc n')" using n len unfolding n'_def by simp_all
  have "m q \<notin> set whitespace" using m(2) symbol_bytes by simp
  then have "skip_white m es q = q" by (rule not_white)
  then obtain c' where c': "map_cmd (lexeme m) c' = c" "parseexec (Suc (Suc (Suc (Suc n')))) m es p = parseredirs (Suc (Suc n')) m es c' q"
    using parse_block [OF r f(2) m(1) _ _ n'(2)] a(2) len unfolding q_def by auto
  have nw: "m (Suc q + length f + 1) \<notin> set whitespace" unfolding fin using x by blast
  have wt: "gettoken m es (Suc q) = (chr CHR ''a'', Suc q, Suc q + length f, Suc q + length f + 1)"
    by (rule word_token [of m "Suc q" f, OF _ _ f(1) _ nw]) (use a(2) len q_def m(3) symbol_bytes(9) in simp_all)
  note rt = redir_token [of m q, OF m(2) f(1) hd, of es]
  let ?d = "REDIR c' (Suc q, Suc q + length f) mode fd"
  have "parseredirs (Suc (Suc n')) m es c' q = parseredirs (Suc n') m es ?d (p + length ?u)"
    using w m(2) unfolding fin [symmetric]
    by (subst parseredirs.simps) (auto simp: rt wt chr_def simp del: parseredirs.simps)
  moreover have "parseredirs (Suc n') m es ?d (p + length ?u) = Ok (?d, p + length ?u)" using x by (intro no_redir) auto
  moreover have "peek m es (p + length ?u) (str ''|'') = (False, p + length ?u)" using x by (simp add: peek_here)
  ultimately have "parsepipe (Suc (Suc (Suc (Suc (Suc n'))))) m es p = Ok (?d, p + length ?u)"
    by (subst parsepipe.simps) (simp only: c'(2) bindR.simps prod.case if_False)
  from line_ends [OF this cl] have "parseline n m es p = Ok (?d, p + length ?u)" unfolding n'(1) .
  moreover have "bytes_of m (Suc q) (length f) = f" using m(3) by (simp add: at_bytes_of [symmetric])
  ultimately show "\<exists>d. parseline n m es p = Ok (d, p + length ?u) \<and> map_cmd (lexeme m) d = REDIR c f mode fd"
    using c'(1) by (intro exI [of _ ?d]) (simp add: lexeme_def)
qed

text \<open>The words of an argument list, and where the loop of parseexec finds them.\<close>

primrec places :: "nat \<Rightarrow> u8 list list \<Rightarrow> (nat \<times> nat) list" where
  "places p [] = []"
| "places p (w # ws) = (p, p + length w) # places (p + length w + 1) ws"

text \<open>Words in a buffer, each with one white space character behind it.\<close>

primrec words_at :: "bytes \<Rightarrow> nat \<Rightarrow> u8 list list \<Rightarrow> bool" where
  "words_at m p [] \<longleftrightarrow> True"
| "words_at m p (w # ws) \<longleftrightarrow> at m p w \<and> is_word w \<and> m (p + length w) \<in> set whitespace \<and> words_at m (p + length w + 1) ws"

lemma words_at_unparse: "at m p (unparse (EXEC ws)) \<Longrightarrow> \<forall>w \<in> set ws. is_word w \<Longrightarrow> words_at m p ws"
  using symbol_bytes(9) by (induction ws arbitrary: p) auto

lemma words_first:
  assumes "words_at m p ws" "after_block (m (p + length (unparse (EXEC ws))))"
  shows "m p \<notin> set whitespace" "m p \<notin> set (str ''<>'')" "m p \<notin> set (str ''('')"
proof -
  have "after_block (m p) \<or> word_char (m p)"
  proof (cases ws)
    case (Cons w ws')
    then show ?thesis using assms(1) by (cases w) (auto simp: is_word_def)
  qed (use assms in simp)
  moreover have "\<not> word_char c" if "c \<in> set whitespace \<or> c \<in> set (str ''<>'') \<or> c \<in> set (str ''('')" for c
    using that by (auto simp: word_char_def symbols_def str_def)
  moreover have "c \<notin> set (str ''('')" if "after_block c" for c
    using that after_block_chars(2) [of c] by (auto simp: after_block_def str_def chr_def)
  ultimately show "m p \<notin> set whitespace" "m p \<notin> set (str ''<>'')" "m p \<notin> set (str ''('')"
    using after_block_chars(1) by blast+
qed

lemma parse_words:
  assumes "words_at m p ws" "p + length (unparse (EXEC ws)) \<le> es" "after_block (m (p + length (unparse (EXEC ws))))"
    "k + length ws < MAXARGS" "length ws + 1 < n"
  shows "parseargs n m es k (EXEC as) p = Ok (EXEC (as @ places p ws), p + length (unparse (EXEC ws)))"
  using assms
proof (induction ws arbitrary: p n k as)
  case Nil
  then have x: "after_block (m p)" by simp
  note nw = after_block_chars(1) [OF x]
  have st: "m p = 0 \<or> m p \<in> set (str ''|)&;'')" using x by (auto simp: after_block_def closing_def str_def)
  obtain n' where "n = Suc n'" using Nil by (cases n) auto
  moreover have "gettoken m es p = (0, p, p, p)" if "m p = 0" using that nw by (simp add: gettoken_def not_white Let_def)
  ultimately show ?case using nw st by (auto simp: peek_here)
next
  case (Cons w ws)
  obtain n' where n: "n = Suc (Suc n')" using Cons.prems by (cases n; cases "n - 1") auto
  let ?p = "p + length w + 1"
  have w: "at m p w" "m (p + length w) \<in> set whitespace" "is_word w" "words_at m ?p ws" using Cons.prems by auto
  have cl: "after_block (m (?p + length (unparse (EXEC ws))))" using Cons.prems(3) by (simp add: add.assoc)
  have nw: "m ?p \<notin> set whitespace" "m ?p \<notin> set (str ''<>'')" using words_first [OF w(4) cl] by auto
  have t: "gettoken m es p = (chr CHR ''a'', p, p + length w, ?p)"
    by (rule word_token [OF w(1-3) _ nw(1)]) (use Cons.prems(2) in simp)
  have "word_char (m p)" using w by (cases w) (auto simp: is_word_def)
  then have pk: "peek m es p (str ''|)&;'') = (False, p)"
    by (auto simp: peek_here word_char_def symbols_def str_def)
  have a: "chr CHR ''a'' \<noteq> 0" by code_simp
  have "parseargs n m es k (EXEC as) p = parseargs (Suc n') m es (k + 1) (EXEC (as @ [(p, p + length w)])) ?p"
    using Cons.prems(4) a no_redir [of m ?p n' es, OF nw] unfolding n by (subst parseargs.simps) (simp add: pk t del: parseredirs.simps parseargs.simps)
  also have "\<dots> = Ok (EXEC ((as @ [(p, p + length w)]) @ places ?p ws), ?p + length (unparse (EXEC ws)))"
    using Cons.prems w cl n by (intro Cons.IH) auto
  finally show ?case by (simp add: add.assoc)
qed

lemma places_lexeme: "words_at m p ws \<Longrightarrow> map (lexeme m) (places p ws) = ws"
  by (induction ws arbitrary: p) (auto simp: lexeme_def at_bytes_of [symmetric])

lemma words_le: "length ws \<le> length (unparse (EXEC ws))"
  by (induction ws) auto

lemma exec_words:
  assumes a: "words_at m p ws" "p + length (unparse (EXEC ws)) \<le> es" "after_block (m (p + length (unparse (EXEC ws))))"
    and n: "length ws < MAXARGS" "length ws + 1 < Suc n"
  shows "parseexec (Suc (Suc n)) m es p = Ok (EXEC (places p ws), p + length (unparse (EXEC ws)))"
proof -
  note f = words_first [OF a(1,3)]
  have "peek m es p (str ''('') = (False, p)" using f by (simp add: peek_here)
  moreover note no_redir [of m p n es "EXEC []", OF f(1,2)] parse_words [OF a _ n(2), of 0 "[]"]
  ultimately show ?thesis using n(1)
    by (subst parseexec.simps) (simp only: prod.case if_False bindR.simps append_Nil add_0)
qed

lemma reads_EXEC:
  assumes w: "writable (EXEC ws)"
  shows "reads m es (EXEC ws)"
  unfolding reads_def
proof (intro allI impI; elim conjE)
  fix p n
  let ?u = "unparse (EXEC ws)"
  assume a: "at m p ?u" "p + length ?u \<le> es" and cl: "closing (m (p + length ?u))" and n: "4 * length ?u + 5 \<le> n"
  have ws: "words_at m p ws" "length ws < MAXARGS" using w words_at_unparse [OF a(1)] by simp_all
  define n' where "n' = n - 4"
  have n': "n = Suc (Suc (Suc (Suc n')))" "length ws + 1 < Suc n'" using n words_le [of ws] unfolding n'_def by simp_all
  have "after_block (m (p + length ?u))" using cl by (simp add: after_block_def)
  note exec_words [OF ws(1) a(2) this ws(2) n'(2)]
  moreover have "peek m es (p + length ?u) (str ''|'') = (False, p + length ?u)"
    using after_block_chars(2) [OF cl] by (simp add: peek_here)
  ultimately have "parsepipe (Suc (Suc (Suc n'))) m es p = Ok (EXEC (places p ws), p + length ?u)"
    by (subst parsepipe.simps) (simp only: prod.case if_False bindR.simps)
  from line_ends [OF this cl] have "parseline n m es p = Ok (EXEC (places p ws), p + length ?u)" unfolding n'(1) .
  then show "\<exists>c'. parseline n m es p = Ok (c', p + length ?u) \<and> map_cmd (lexeme m) c' = EXEC ws"
    using places_lexeme [OF ws(1)] by auto
qed

lemma reads_all: "writable c \<Longrightarrow> reads m es c"
  by (induction c) (auto intro: reads_EXEC reads_PIPE reads_LIST reads_BACK reads_REDIR)

lemma unparse_chars: "writable c \<Longrightarrow> x \<in> set (unparse c) \<Longrightarrow> x \<noteq> 0 \<and> x \<noteq> 10 \<and> x \<noteq> 13"
proof -
  have z: "chr CHR ''('' \<notin> {0, 10, 13}" "chr CHR '')'' \<notin> {0, 10, 13}" "chr CHR ''|'' \<notin> {0, 10, 13}" "chr CHR '';'' \<notin> {0, 10, 13}"
    "chr CHR ''&'' \<notin> {0, 10, 13}" "chr CHR ''<'' \<notin> {0, 10, 13}" "chr CHR ''>'' \<notin> {0, 10, 13}" "chr CHR '' '' \<notin> {0, 10, 13}" by code_simp+
  have w: "is_word w \<Longrightarrow> x \<in> set w \<Longrightarrow> x \<notin> {0, 10, 13}" for w by (auto simp: is_word_def word_char_def whitespace_def)
  have "writable c \<Longrightarrow> x \<in> set (unparse c) \<Longrightarrow> x \<notin> {0, 10, 13}" using z w by (induction c) (auto simp: paren_def split: if_splits)
  then show "writable c \<Longrightarrow> x \<in> set (unparse c) \<Longrightarrow> x \<noteq> 0 \<and> x \<noteq> 10 \<and> x \<noteq> 13" by simp
qed

lemma map_lexeme_strings:
  assumes "cmd_ok m s es c"
  shows "map_cmd (\<lambda>w. string_at (nulterminate c m) (fst w)) c = map_cmd (lexeme m) c"
proof (rule cmd.map_cong0)
  fix w assume w: "w \<in> set_cmd c"
  obtain q eq where q: "w = (q, eq)" by fastforce
  have "\<forall>w \<in> set_cmd c. word_ok m s es w" using assms by (simp add: cmd_ok_def)
  from word_string [OF this w [unfolded q]] show "string_at (nulterminate c m) (fst w) = lexeme m w"
    by (simp add: q string_at_def lexeme_def strlen_cstr)
qed

text \<open>
  C11. The shell understands what a command means: a command written out with parentheses around its
  parts is parsed to the same command, whose words are the strings in the buffer.
\<close>

theorem parsecmd_unparse:
  assumes c: "writable c" and m: "bytes_of m s (length (unparse c)) = unparse c" "m (s + length (unparse c)) = 0"
  shows "\<exists>c' m'. parsecmd m s = Ok (c', m') \<and> map_cmd (\<lambda>w. string_at m' (fst w)) c' = c"
proof -
  let ?k = "length (unparse c)"
  have a: "at m s (unparse c)" using m(1) by (simp add: at_bytes_of)
  have cs: "cstr_at m s ?k" using a m(2) unparse_chars [OF c] by (auto simp: cstr_at_def at_def)
  have l: "line_at m s (s + ?k)" by (rule line_at_cstr [OF cs])
  obtain c' where c': "parseline (parse_fuel ?k) m (s + ?k) s = Ok (c', s + ?k)" "map_cmd (lexeme m) c' = c"
    using reads_all [OF c, of m "s + ?k"] a m(2) by (auto simp: reads_def closing_def parse_fuel_def)
  have "cmd_ok m s (s + ?k) c'"
    using all_levels [OF l, of "parse_fuel ?k"] c'(1) by (auto simp: level_ok_def parse_fuel_def)
  from map_lexeme_strings [OF this] show ?thesis
    using c' by (auto simp: parsecmd_run [OF cs] end_white)
qed

theorem parsecmd_unparse_witness:
  "\<exists>c' m'. parsecmd (c_string (str ''((ls -l )|(wc ))>out '')) 0 = Ok (c', m') \<and>
    map_cmd (\<lambda>w. string_at m' (fst w)) c' =
      REDIR (PIPE (EXEC [str ''ls'', str ''-l'']) (EXEC [str ''wc''])) (str ''out'') 0x201 1"
proof -
  let ?c = "REDIR (PIPE (EXEC [str ''ls'', str ''-l'']) (EXEC [str ''wc''])) (str ''out'') 0x201 1"
  have u: "unparse ?c = str ''((ls -l )|(wc ))>out ''" by code_simp
  have w: "writable ?c" by code_simp
  have m: "bytes_of (c_string (str ''((ls -l )|(wc ))>out '')) 0 (length (unparse ?c)) = unparse ?c"
    "c_string (str ''((ls -l )|(wc ))>out '') (0 + length (unparse ?c)) = 0"
    unfolding u by (auto simp: bytes_of_def c_string_def intro!: nth_equalityI)
  from parsecmd_unparse [OF w m] show ?thesis .
qed

end
