(* ===== verification/ShRun.thy ===== *)
theory ShRun
  imports ShParse
begin

text \<open>
  sh.c, the rest: runcmd as the system calls of the processes it forks, what these do to the descriptors of
  the programs that are started, and the main loop that reads a line with gets, changes directory or runs
  the command.
\<close>

unbundle bit_operations_syntax

section \<open>Running a command\<close>

text \<open>
  A process as the system calls it makes. The branches are what the code does with the result: of open
  whether it is negative, of pipe whether it is negative and the two descriptors, of fork the child, the
  parent and the failure; exec goes on only if it fails. exit ends the process.
\<close>

datatype 'w prog =
    Exit
  | Exec "'w list" "'w prog"
  | Close nat "'w prog"
  | Open 'w u32 "bool \<Rightarrow> 'w prog"
  | Dup nat "'w prog"
  | Pipe "(nat \<times> nat) option \<Rightarrow> 'w prog"
  | Fork "'w prog" "'w prog" "'w prog"
  | Wait "'w prog"
  | Printf nat "u8 list" "'w prog"

definition panic_prog :: "string \<Rightarrow> 'w prog" where
  "panic_prog msg = Printf 2 (str msg @ [10]) Exit"

text \<open>\<open>if(fork1() == 0) child; parent\<close>\<close>

definition fork1 :: "'w prog \<Rightarrow> 'w prog \<Rightarrow> 'w prog" where
  "fork1 child parent = Fork child parent (panic_prog ''fork'')"

primrec runcmd :: "u8 list cmd \<Rightarrow> u8 list prog" where
  "runcmd (EXEC argv) =
     (if argv = [] then Exit
      else Exec argv (Printf 2 (str ''exec '' @ argv ! 0 @ str '' failed'' @ [10]) Exit))"
| "runcmd (REDIR cmd f mode fd) =
     Close fd (Open f mode (\<lambda>ok.
       if ok then runcmd cmd else Printf 2 (str ''open '' @ f @ str '' failed'' @ [10]) Exit))"
| "runcmd (LIST left right) = fork1 (runcmd left) (Wait (runcmd right))"
| "runcmd (PIPE left right) =
     Pipe (\<lambda>p. case p of
       None \<Rightarrow> panic_prog ''pipe''
     | Some (p0, p1) \<Rightarrow>
         fork1 (Close 1 (Dup p1 (Close p0 (Close p1 (runcmd left)))))
           (fork1 (Close 0 (Dup p0 (Close p0 (Close p1 (runcmd right)))))
             (Close p0 (Close p1 (Wait (Wait Exit))))))"
| "runcmd (BACK cmd) = fork1 (runcmd cmd) Exit"

section \<open>Descriptors\<close>

text \<open>
  What a descriptor stands for: something the shell was started with, a file opened in a mode, or an end
  of a pipe. A call that needs a descriptor takes the lowest free one, as fdalloc does; the programs that
  are started are listed with their arguments and descriptors, for a run in which exec, fork and every
  open with a free descriptor succeed.
\<close>

datatype obj = Given nat | Opened "u8 list" u32 | ReadEnd nat | WriteEnd nat

definition lowest :: "(nat \<Rightarrow> obj option) \<Rightarrow> nat option" where
  "lowest t = List.find (\<lambda>fd. t fd = None) [0..<NOFILE]"

primrec launches :: "u8 list prog \<Rightarrow> (nat \<Rightarrow> obj option) \<Rightarrow> nat \<Rightarrow> (u8 list list \<times> (nat \<Rightarrow> obj option)) list \<times> nat" where
  "launches Exit t k = ([], k)"
| "launches (Exec argv next) t k = ([(argv, t)], k)"
| "launches (Close fd next) t k = launches next (t(fd := None)) k"
| "launches (Open f mode next) t k =
     (case lowest t of None \<Rightarrow> launches (next False) t k | Some fd \<Rightarrow> launches (next True) (t(fd \<mapsto> Opened f mode)) k)"
| "launches (Dup fd next) t k =
     (case lowest t of None \<Rightarrow> launches next t k | Some new \<Rightarrow> launches next (t(new := t fd)) k)"
| "launches (Pipe next) t k =
     (case lowest t of None \<Rightarrow> launches (next None) t k
      | Some p0 \<Rightarrow>
          (case lowest (t(p0 \<mapsto> ReadEnd k)) of None \<Rightarrow> launches (next None) t k
           | Some p1 \<Rightarrow> launches (next (Some (p0, p1))) (t(p0 \<mapsto> ReadEnd k, p1 \<mapsto> WriteEnd k)) (k + 1)))"
| "launches (Fork child parent failed) t k =
     (case launches child t k of (xs, k) \<Rightarrow> case launches parent t k of (ys, k) \<Rightarrow> (xs @ ys, k))"
| "launches (Wait next) t k = launches next t k"
| "launches (Printf fd msg next) t k = launches next t k"

text \<open>What a command means: the programs it starts, each with its redirections and pipes applied.\<close>

primrec started :: "u8 list cmd \<Rightarrow> (nat \<Rightarrow> obj option) \<Rightarrow> nat \<Rightarrow> (u8 list list \<times> (nat \<Rightarrow> obj option)) list \<times> nat" where
  "started (EXEC argv) t k = (if argv = [] then [] else [(argv, t)], k)"
| "started (REDIR c f mode fd) t k = started c (t(fd \<mapsto> Opened f mode)) k"
| "started (PIPE l r) t k =
     (case started l (t(1 \<mapsto> WriteEnd k)) (k + 1) of (xs, k') \<Rightarrow>
      case started r (t(0 \<mapsto> ReadEnd k)) k' of (ys, k'') \<Rightarrow> (xs @ ys, k''))"
| "started (LIST l r) t k =
     (case started l t k of (xs, k) \<Rightarrow> case started r t k of (ys, k) \<Rightarrow> (xs @ ys, k))"
| "started (BACK c) t k = started c t k"

definition std_only :: "(nat \<Rightarrow> obj option) \<Rightarrow> bool" where
  "std_only t \<longleftrightarrow> (\<forall>fd < 3. t fd \<noteq> None) \<and> (\<forall>fd \<ge> 3. t fd = None)"

lemma lowest_is:
  assumes "\<forall>i < fd. t i \<noteq> None" "t fd = None" "fd < NOFILE"
  shows "lowest t = Some fd"
  using assms unfolding lowest_def find_Some_iff by (intro exI [of _ fd]) auto

lemma std_lowest:
  assumes "std_only t"
  shows "fd < 3 \<Longrightarrow> lowest (t(fd := None)) = Some fd" "lowest t = Some 3" "lowest (t(3 \<mapsto> x)) = Some 4"
    "fd < 3 \<Longrightarrow> lowest (t(3 \<mapsto> x, 4 \<mapsto> y, fd := None)) = Some fd"
proof -
  have t: "i < 3 \<Longrightarrow> t i \<noteq> None" "3 \<le> i \<Longrightarrow> t i = None" for i using assms by (simp_all add: std_only_def)
  show "fd < 3 \<Longrightarrow> lowest (t(fd := None)) = Some fd" using t by (intro lowest_is) auto
  show "lowest t = Some 3" using t by (intro lowest_is) auto
  show "lowest (t(3 \<mapsto> x)) = Some 4" by (intro lowest_is) (auto simp: t intro!: t(1) [unfolded not_None_eq])
  show "fd < 3 \<Longrightarrow> lowest (t(3 \<mapsto> x, 4 \<mapsto> y, fd := None)) = Some fd" using t by (intro lowest_is) auto
qed

primrec std_redirs :: "'w cmd \<Rightarrow> bool" where
  "std_redirs (EXEC argv) \<longleftrightarrow> True"
| "std_redirs (REDIR c f mode fd) \<longleftrightarrow> std_redirs c \<and> fd < 3"
| "std_redirs (PIPE l r) \<longleftrightarrow> std_redirs l \<and> std_redirs r"
| "std_redirs (LIST l r) \<longleftrightarrow> std_redirs l \<and> std_redirs r"
| "std_redirs (BACK c) \<longleftrightarrow> std_redirs c"

lemma runcmd_std:
  assumes "std_only t" "std_redirs c"
  shows "launches (runcmd c) t k = started c t k"
  using assms
proof (induction c arbitrary: t k)
  case (REDIR c f mode fd)
  have "std_only (t(fd \<mapsto> Opened f mode))" using REDIR.prems by (auto simp: std_only_def)
  then show ?case using REDIR std_lowest(1) [of t fd] by simp
next
  case (PIPE l r)
  let ?t = "t(3 \<mapsto> ReadEnd k, 4 \<mapsto> WriteEnd k)"
  have n: "t 3 = None" "t 4 = None" using PIPE.prems(1) by (auto simp: std_only_def)
  have e: "?t(1 := None, 1 := Some (WriteEnd k), 3 := None, 4 := None) = t(1 \<mapsto> WriteEnd k)"
    "?t(0 := None, 0 := Some (ReadEnd k), 3 := None, 4 := None) = t(0 \<mapsto> ReadEnd k)" using n by auto
  have s: "std_only (t(1 \<mapsto> WriteEnd k))" "std_only (t(0 \<mapsto> ReadEnd k))" using PIPE.prems(1) by (auto simp: std_only_def)
  have low: "lowest (?t(1 := None)) = Some 1" "lowest (?t(0 := None)) = Some 0" by (rule std_lowest(4) [OF PIPE.prems(1)]; simp)+
  have ends: "(?t(1 := None)) 4 = Some (WriteEnd k)" "(?t(0 := None)) 3 = Some (ReadEnd k)" by simp_all
  have ih: "launches (runcmd l) (t(1 \<mapsto> WriteEnd k)) k' = started l (t(1 \<mapsto> WriteEnd k)) k'"
    "launches (runcmd r) (t(0 \<mapsto> ReadEnd k)) k' = started r (t(0 \<mapsto> ReadEnd k)) k'" for k'
    using PIPE.IH PIPE.prems(2) s by simp_all
  have "launches (runcmd (PIPE l r)) t k =
    (case launches (runcmd l) (t(1 \<mapsto> WriteEnd k)) (k + 1) of (xs, k') \<Rightarrow>
     case launches (runcmd r) (t(0 \<mapsto> ReadEnd k)) k' of (ys, k'') \<Rightarrow> (xs @ ys, k''))"
    using std_lowest(2,3) [OF PIPE.prems(1)] low ends e by (simp add: fork1_def split: prod.splits del: fun_upd_apply)
  then show ?case by (simp only: ih started.simps)
next
  case (LIST l r)
  then show ?case by (simp add: fork1_def)
next
  case (BACK c)
  then show ?case by (auto simp: fork1_def split: prod.splits)
qed simp

text \<open>
  The first loop of main opens the console until a descriptor above 2 comes back, and closes that one:
  whatever of the three standard descriptors was missing, they are open then and nothing else is.
\<close>

lemma lowest_free: "lowest t = Some fd \<Longrightarrow> t fd = None \<and> fd < NOFILE \<and> (\<forall>i < fd. t i \<noteq> None)"
  by (auto simp: lowest_def find_Some_iff)

function ensure_std :: "(nat \<Rightarrow> obj option) \<Rightarrow> (nat \<Rightarrow> obj option)" where
  "ensure_std t =
     (case lowest t of
        None \<Rightarrow> t
      | Some fd \<Rightarrow>
          if fd \<ge> 3 then (t(fd \<mapsto> Opened (str ''console'') 2))(fd := None)
          else ensure_std (t(fd \<mapsto> Opened (str ''console'') 2)))"
  by pat_completeness auto
termination
proof (relation "measure (\<lambda>t. card {i. i < 3 \<and> t i = None})")
  fix t fd assume h: "lowest t = Some fd" "\<not> 3 \<le> fd"
  have "{i. i < 3 \<and> (t(fd \<mapsto> Opened (str ''console'') 2)) i = None} \<subset> {i. i < 3 \<and> t i = None}"
    using lowest_free [OF h(1)] h(2) by auto
  then show "(t(fd \<mapsto> Opened (str ''console'') 2), t) \<in> measure (\<lambda>t. card {i. i < 3 \<and> t i = None})"
    by (simp add: psubset_card_mono)
qed simp

declare ensure_std.simps [simp del]

lemma ensure_std_only: "\<forall>fd \<ge> 3. t fd = None \<Longrightarrow> std_only (ensure_std t)"
proof (induction t rule: ensure_std.induct)
  case (1 t)
  have "lowest t \<noteq> None" using 1(2) by (auto simp: lowest_def find_None_iff intro!: exI [of _ 3])
  then obtain fd where fd: "lowest t = Some fd" by blast
  note f = lowest_free [OF fd]
  show ?case
  proof (cases "3 \<le> fd")
    case True
    then have "t(fd := None) = t" "\<forall>i < 3. t i \<noteq> None" using f by (auto simp: fun_eq_iff)
    then show ?thesis using True fd 1(2) by (simp add: ensure_std.simps [of t] std_only_def)
  next
    case False
    have "std_only (ensure_std (t(fd \<mapsto> Opened (str ''console'') 2)))"
      by (rule 1(1) [OF fd False]) (use 1(2) False in auto)
    then show ?thesis using fd False by (subst ensure_std.simps) simp
  qed
qed

text \<open>
  C13. Every program of a command line starts with exactly the descriptors its redirections and pipes
  give it: the shell's chain of close, open, dup and pipe puts each file and pipe end at its place and
  leaves no other end of a pipe open in any of the processes it starts. main has seen to it that the three
  standard descriptors are open and no others.
\<close>

theorem runcmd_started:
  assumes "\<forall>fd \<ge> 3. t fd = None" "std_redirs c"
  shows "launches (runcmd c) (ensure_std t) k = started c (ensure_std t) k"
  by (rule runcmd_std [OF ensure_std_only [OF assms(1)] assms(2)])

theorem runcmd_started_witness:
  "launches (runcmd (PIPE (EXEC [str ''ls'']) (REDIR (EXEC [str ''wc'']) (str ''out'') 0x201 1)))
     (ensure_std [0 \<mapsto> Given 0, 1 \<mapsto> Given 1, 2 \<mapsto> Given 2]) 0 =
   ([([str ''ls''], [0 \<mapsto> Given 0, 1 \<mapsto> WriteEnd 0, 2 \<mapsto> Given 2]),
     ([str ''wc''], [0 \<mapsto> ReadEnd 0, 1 \<mapsto> Opened (str ''out'') 0x201, 2 \<mapsto> Given 2])], 1)"
proof -
  let ?t = "[0 \<mapsto> Given 0, 1 \<mapsto> Given 1, 2 \<mapsto> Given 2] :: nat \<Rightarrow> obj option"
  have s: "\<forall>fd \<ge> 3. ?t fd = None" by auto
  have "lowest ?t = Some 3" by (rule lowest_is) (auto simp: less_Suc_eq numeral_3_eq_3)
  then have "ensure_std ?t = ?t(3 := None)" by (subst ensure_std.simps) simp
  then show ?thesis by (subst runcmd_started [OF s]) (auto simp: fun_eq_iff)
qed

section \<open>The main loop\<close>

text \<open>
  gets reads up to a newline, the end of the input or the room in the buffer; the bytes it stored, and
  the input that is left.
\<close>

fun gets_loop :: "nat \<Rightarrow> u8 list \<Rightarrow> u8 list \<times> u8 list" where
  "gets_loop 0 inp = ([], inp)"
| "gets_loop (Suc room) [] = ([], [])"
| "gets_loop (Suc room) (c # inp) =
     (if c = 10 \<or> c = 13 then ([c], inp)
      else (case gets_loop room inp of (xs, rest) \<Rightarrow> (c # xs, rest)))"

definition gets :: "nat \<Rightarrow> u8 list \<Rightarrow> u8 list \<times> u8 list" where
  "gets maxlen inp = gets_loop (maxlen - 1) inp"

text \<open>getcmd clears the buffer and fills it; an empty string is the end of the input.\<close>

definition getcmd :: "nat \<Rightarrow> u8 list \<Rightarrow> (bytes \<times> u8 list) option" where
  "getcmd nbuf inp =
     (case gets nbuf inp of (xs, rest) \<Rightarrow>
        let buf = put_bytes (\<lambda>_. 0) 0 xs in if buf 0 = 0 then None else Some (buf, rest))"

text \<open>What the shell does with a line: change its directory, or fork a child that runs the command.\<close>

datatype action = Chdir "u8 list" | Run "(u8 list cmd) res"

definition shell_line :: "bytes \<Rightarrow> action" where
  "shell_line buf =
     (if buf 0 = chr CHR ''c'' \<and> buf 1 = chr CHR ''d'' \<and> buf 2 = chr CHR '' '' then
        Chdir (string_at (buf(length (string_at buf 0) - 1 := 0)) 3)
      else Run (bindR (parsecmd buf 0) (\<lambda>(c, m). Ok (map_cmd (\<lambda>w. string_at m (fst w)) c))))"

lemma gets_loop_length: "gets_loop n inp = (xs, rest) \<Longrightarrow> length inp = length xs + length rest \<and> length xs \<le> n"
  by (induction n inp arbitrary: xs rest rule: gets_loop.induct) (auto split: if_splits prod.splits)

lemma getcmd_shorter: "getcmd nbuf inp = Some (buf, rest) \<Longrightarrow> length rest < length inp"
  by (auto simp: getcmd_def gets_def Let_def put_bytes_def split: prod.splits if_splits dest!: gets_loop_length)

function shell :: "u8 list \<Rightarrow> action list" where
  "shell inp = (case getcmd 100 inp of None \<Rightarrow> [] | Some (buf, rest) \<Rightarrow> shell_line buf # shell rest)"
  by pat_completeness auto
termination
  by (relation "measure length") (auto dest: getcmd_shorter)

declare shell.simps [simp del]

text \<open>
  The lines that are typed: a change of directory, a pipeline of simple commands, its words separated by
  single blanks, or any command in parentheses, with its parts in parentheses as unparse writes them.
\<close>

datatype line = Cd "u8 list" | Pipeline "u8 list list list" | Grouped "u8 list cmd"

primrec words :: "u8 list list \<Rightarrow> u8 list" where
  "words [] = []"
| "words (w # ws) = w @ (if ws = [] then [] else chr CHR '' '' # words ws)"

primrec pipeline :: "u8 list list list \<Rightarrow> u8 list" where
  "pipeline [] = []"
| "pipeline (ws # rest) = words ws @ (if rest = [] then [] else str '' | '' @ pipeline rest)"

primrec spelling :: "line \<Rightarrow> u8 list" where
  "spelling (Cd dir) = str ''cd '' @ dir"
| "spelling (Pipeline cs) = pipeline cs"
| "spelling (Grouped c) = paren (unparse c)"

definition keyed :: "line \<Rightarrow> u8 list" where
  "keyed l = spelling l @ [10]"

primrec typeable :: "line \<Rightarrow> bool" where
  "typeable (Cd dir) \<longleftrightarrow> 0 \<notin> set dir \<and> 10 \<notin> set dir \<and> 13 \<notin> set dir"
| "typeable (Pipeline cs) \<longleftrightarrow> cs \<noteq> [] \<and> (\<forall>ws \<in> set cs. ws \<noteq> [] \<and> writable (EXEC ws)) \<and> hd (hd cs) \<noteq> str ''cd''"
| "typeable (Grouped c) \<longleftrightarrow> writable c"

text \<open>What is meant by a line.\<close>

primrec pipes :: "u8 list list list \<Rightarrow> u8 list cmd" where
  "pipes [] = EXEC []"
| "pipes (ws # rest) = (if rest = [] then EXEC ws else PIPE (EXEC ws) (pipes rest))"

primrec meaning :: "line \<Rightarrow> action" where
  "meaning (Cd dir) = Chdir dir"
| "meaning (Pipeline cs) = Run (Ok (pipes cs))"
| "meaning (Grouped c) = Run (Ok c)"

subsection \<open>Pipelines\<close>

text \<open>A pipeline in a buffer: words, and a bar and a blank before the next command.\<close>

primrec pipeline_at :: "bytes \<Rightarrow> nat \<Rightarrow> u8 list list list \<Rightarrow> bool" where
  "pipeline_at m p [] \<longleftrightarrow> True"
| "pipeline_at m p (ws # rest) \<longleftrightarrow> words_at m p ws \<and>
     (rest = [] \<or> at m (p + length (unparse (EXEC ws))) (str ''| '') \<and> pipeline_at m (p + length (unparse (EXEC ws)) + 2) rest)"

lemma length_words: "ws \<noteq> [] \<Longrightarrow> length (unparse (EXEC ws)) = length (words ws) + 1"
  by (induction ws) auto

lemma words_atI: "at m p (words ws) \<Longrightarrow> m (p + length (words ws)) \<in> set whitespace \<Longrightarrow> \<forall>w \<in> set ws. is_word w \<Longrightarrow> words_at m p ws"
  using symbol_bytes(9) by (induction ws arbitrary: p) (auto simp: add.assoc split: if_splits)

lemma str_bar: "str '' | '' = [chr CHR '' '', chr CHR ''|'', chr CHR '' '']" "str ''| '' = [chr CHR ''|'', chr CHR '' '']"
  by (simp_all add: str_def)

lemma pipeline_atI:
  "at m p (pipeline cs) \<Longrightarrow> m (p + length (pipeline cs)) = 10 \<Longrightarrow> \<forall>ws \<in> set cs. ws \<noteq> [] \<and> writable (EXEC ws) \<Longrightarrow> pipeline_at m p cs"
proof (induction cs arbitrary: p)
  case (Cons ws rest)
  have n: "10 \<in> set whitespace" by code_simp
  have "m (p + length (words ws)) \<in> set whitespace"
    using Cons.prems(1,2) symbol_bytes(9) n by (auto simp: str_bar split: if_splits)
  then have "words_at m p ws" using Cons.prems by (intro words_atI) auto
  moreover have "at m (p + length (unparse (EXEC ws))) (str ''| '') \<and> pipeline_at m (p + length (unparse (EXEC ws)) + 2) rest"
    if r: "rest \<noteq> []"
  proof -
    have l: "length (unparse (EXEC ws)) = length (words ws) + 1" using Cons.prems(3) by (intro length_words) simp
    then show ?thesis using Cons.prems r
      by (auto simp: str_bar add.assoc eval_nat_numeral intro!: Cons.IH)
  qed
  ultimately show ?case by auto
qed simp

lemma pipeline_first: "pipeline_at m p cs \<Longrightarrow> cs \<noteq> [] \<Longrightarrow> hd cs \<noteq> [] \<Longrightarrow> m p \<notin> set whitespace"
  by (cases cs; cases "hd cs"; cases "hd (hd cs)") (auto simp: is_word_def word_char_def)

text \<open>The bar and the blank behind it are consumed together.\<close>

lemma bar_token:
  assumes "at m q (str ''| '')" "m (q + 2) \<notin> set whitespace" "q + 2 \<le> es"
  shows "peek m es q (str ''|'') = (True, q)" "gettoken m es q = (chr CHR ''|'', q, Suc q, q + 2)"
proof -
  have b: "m q = chr CHR ''|''" "m (Suc q) = chr CHR '' ''" using assms(1) by (simp_all add: str_bar)
  have "skip_white m es (Suc q) = q + 2"
    using assms b(2) symbol_bytes(9) by (simp add: skip_white.simps [of m es "Suc q"] not_white eval_nat_numeral)
  moreover have "m q \<in> set (str ''|();&<'')" "m q \<in> set (str ''|'')" "m q \<noteq> 0"
    unfolding b(1) by code_simp+
  ultimately show "peek m es q (str ''|'') = (True, q)" "gettoken m es q = (chr CHR ''|'', q, Suc q, q + 2)"
    using symbol_token [of m q es] symbol_bytes(3) by (simp_all add: peek_here b(1))
qed

lemma parse_pipeline:
  assumes "pipeline_at m p cs" "cs \<noteq> []" "\<forall>ws \<in> set cs. ws \<noteq> [] \<and> writable (EXEC ws)" "p + length (pipeline cs) + 1 \<le> es"
    "closing (m (p + length (pipeline cs) + 1))" "length (pipeline cs) + 5 \<le> n"
  shows "\<exists>c'. parsepipe n m es p = Ok (c', p + length (pipeline cs) + 1) \<and> map_cmd (lexeme m) c' = pipes cs"
  using assms
proof (induction cs arbitrary: p n)
  case (Cons ws rest)
  let ?u = "unparse (EXEC ws)" and ?q = "p + length (unparse (EXEC ws))"
  have ws: "words_at m p ws" "length ws < MAXARGS" "length ?u = length (words ws) + 1"
    using Cons.prems(1,3) length_words by auto
  define n' where "n' = n - 3"
  have n': "n = Suc (Suc (Suc n'))" "length ws + 1 < Suc n'" "?q \<le> es"
    using Cons.prems(4,6) words_le [of ws] ws(3) unfolding n'_def by simp_all
  have ex: "parseexec (Suc (Suc n')) m es p = Ok (EXEC (places p ws), ?q)" if "after_block (m ?q)"
    by (rule exec_words [OF ws(1) n'(3) that ws(2) n'(2)])
  note lx = places_lexeme [OF ws(1)]
  show ?case
  proof (cases "rest = []")
    case True
    then have cl: "closing (m ?q)" "?q = p + length (pipeline [ws]) + 1" using Cons.prems(5) ws(3) by simp_all
    have "peek m es ?q (str ''|'') = (False, ?q)" using after_block_chars(2) [OF cl(1)] by (simp add: peek_here)
    then have "parsepipe n m es p = Ok (EXEC (places p ws), ?q)"
      using ex cl(1) unfolding n'(1) by (subst parsepipe.simps) (simp only: prod.case if_False bindR.simps after_block_def simp_thms)
    then show ?thesis using True cl(2) lx by auto
  next
    case False
    then have r: "at m ?q (str ''| '')" "pipeline_at m (?q + 2) rest" "hd rest \<noteq> []" using Cons.prems(1,3) by (auto simp: neq_Nil_conv)
    have len: "?q + 2 + length (pipeline rest) = p + length (pipeline (ws # rest))" using False ws(3) by (simp add: str_bar)
    have "\<exists>c'. parsepipe (Suc (Suc n')) m es (?q + 2) = Ok (c', ?q + 2 + length (pipeline rest) + 1) \<and> map_cmd (lexeme m) c' = pipes rest"
      using Cons.prems(3-6) False r(2) n'(1) len ws(3) by (intro Cons.IH) (auto simp: str_bar add.assoc)
    then obtain c' where c': "parsepipe (Suc (Suc n')) m es (?q + 2) = Ok (c', p + length (pipeline (ws # rest)) + 1)"
      "map_cmd (lexeme m) c' = pipes rest" unfolding len by blast
    have es: "?q + 2 \<le> es" using Cons.prems(4) len by linarith
    note b = bar_token [OF r(1) pipeline_first [OF r(2) False r(3)] es]
    have "after_block (m ?q)" using r(1) by (simp add: str_bar after_block_def str_def)
    from ex [OF this] have "parsepipe n m es p = Ok (PIPE (EXEC (places p ws)) c', p + length (pipeline (ws # rest)) + 1)"
      using c'(1) unfolding n'(1) by (subst parsepipe.simps) (simp only: b prod.case if_True bindR.simps)
    then show ?thesis using False c'(2) lx by auto
  qed
qed simp

subsection \<open>Lines\<close>

lemma gets_line: "\<forall>x \<in> set xs. x \<noteq> 10 \<and> x \<noteq> 13 \<Longrightarrow> length xs < n \<Longrightarrow> gets_loop n (xs @ 10 # rest) = (xs @ [10], rest)"
proof (induction xs arbitrary: n)
  case Nil
  then show ?case by (cases n) auto
next
  case (Cons x xs)
  then show ?case by (cases n) auto
qed

text \<open>A line in the cleared buffer.\<close>

lemma line_buffer:
  assumes "0 \<notin> set xs" "m = put_bytes (\<lambda>_. 0) 0 (xs @ [10])"
  shows "at m 0 xs" "m (length xs) = 10" "m (length xs + 1) = 0" "cstr_at m 0 (length xs + 1)"
proof -
  show a: "at m 0 xs" "m (length xs) = 10" "m (length xs + 1) = 0"
    using bytes_of_put_bytes [of "\<lambda>_. 0" 0 "xs @ [10]"] at_bytes_of [of m 0 "xs @ [10]"]
    by (simp_all add: assms(2) put_bytes_def)
  have "m i \<noteq> 0" if "i < length xs + 1" for i
    using a(1,2) that assms(1) by (cases "i = length xs") (auto simp: at_def in_set_conv_nth)
  then show "cstr_at m 0 (length xs + 1)" using a(3) by (simp add: cstr_at_def)
qed

lemma shell_line_runs:
  assumes m: "0 \<notin> set xs" "m = put_bytes (\<lambda>_. 0) 0 (xs @ [10])" and k: "k = length xs + 1"
    and p: "parseline (parse_fuel k) m k 0 = Ok (c', k)" "map_cmd (lexeme m) c' = c"
    and n: "\<not> (m 0 = chr CHR ''c'' \<and> m 1 = chr CHR ''d'' \<and> m 2 = chr CHR '' '')"
  shows "shell_line m = Run (Ok c)"
proof -
  note b = line_buffer [OF m]
  have cs: "cstr_at m 0 k" using b(4) k by simp
  have l: "line_at m 0 (0 + k)" by (rule line_at_cstr [OF cs])
  have "cmd_ok m 0 (0 + k) c'" using all_levels [OF l, of "parse_fuel k"] p(1) by (auto simp: level_ok_def parse_fuel_def)
  from map_lexeme_strings [OF this] have "bindR (parsecmd m 0) (\<lambda>(c, m). Ok (map_cmd (\<lambda>w. string_at m (fst w)) c)) = Ok c"
    using p by (simp add: parsecmd_run [OF cs] end_white)
  then show ?thesis using n by (auto simp: shell_line_def)
qed

lemma cd_not_grouped: "chr CHR ''('' \<noteq> chr CHR ''c''"
  by code_simp

lemma shell_line_grouped:
  assumes c: "writable c" and m: "m = put_bytes (\<lambda>_. 0) 0 (paren (unparse c) @ [10])"
  shows "shell_line m = Run (Ok c)"
proof -
  let ?xs = "paren (unparse c)"
  define k where "k = length ?xs + 1"
  have len: "k = length (unparse c) + 3" by (simp add: k_def paren_def)
  have z: "0 \<notin> set ?xs" using unparse_chars [OF c, of 0] symbol_bytes by (auto simp: paren_def chr_def)
  note b = line_buffer [OF z m]
  have w: "skip_white m k (0 + length (unparse c) + 2) = k"
  proof -
    have "skip_white m k (length (unparse c) + 2) = skip_white m k (length (unparse c) + 2 + 1)"
      using b(2) len by (subst skip_white.simps) (simp add: whitespace_def paren_def)
    then show ?thesis using len by (simp add: end_white)
  qed
  have f: "parse_fuel k = Suc (Suc (Suc (Suc (4 * k + 1))))" by (simp add: parse_fuel_def)
  have "closing (m k)" using b(3) by (simp add: closing_def k_def)
  then obtain c' where "map_cmd (lexeme m) c' = c" "parseline (parse_fuel k) m k 0 = Ok (c', k)"
    using line_block [OF reads_all [OF c] c b(1) _ w, of "4 * k + 1"] len unfolding f by auto
  moreover have "m 0 \<noteq> chr CHR ''c''" using b(1) cd_not_grouped by (simp add: paren_def)
  ultimately show ?thesis by (intro shell_line_runs [OF z m k_def]) auto
qed

lemma words_zero: "\<forall>w \<in> set ws. is_word w \<Longrightarrow> x \<in> set (words ws) \<Longrightarrow> x \<notin> {0, 10, 13}"
proof -
  have "chr CHR '' '' \<notin> {0, 10, 13}" by code_simp
  then show "\<forall>w \<in> set ws. is_word w \<Longrightarrow> x \<in> set (words ws) \<Longrightarrow> x \<notin> {0, 10, 13}"
    by (induction ws) (auto simp: is_word_def word_char_def whitespace_def split: if_splits)
qed

lemma pipeline_zero:
  assumes "\<forall>ws \<in> set cs. ws \<noteq> [] \<and> writable (EXEC ws)" "x \<in> set (pipeline cs)"
  shows "x \<notin> {0, 10, 13}"
proof -
  have s: "set (str '' | '') \<inter> {0, 10, 13} = {}" by code_simp
  show ?thesis using assms
  proof (induction cs)
    case (Cons ws rest)
    then show ?case using words_zero [of ws x] s by (auto split: if_splits)
  qed simp
qed

text \<open>A pipeline does not look like a change of directory.\<close>

lemma pipeline_not_cd:
  assumes "typeable (Pipeline cs)" "at m 0 (pipeline cs)" "m (length (pipeline cs)) = 10"
  shows "\<not> (m 0 = chr CHR ''c'' \<and> m 1 = chr CHR ''d'' \<and> m 2 = chr CHR '' '')"
proof
  assume c: "m 0 = chr CHR ''c'' \<and> m 1 = chr CHR ''d'' \<and> m 2 = chr CHR '' ''"
  have "pipeline_at m 0 cs" using assms by (intro pipeline_atI) auto
  then have "words_at m 0 (hd cs)" using assms(1) by (cases cs) auto
  moreover have "hd cs \<noteq> []" using assms(1) by (cases cs) auto
  ultimately obtain w where w: "w = hd (hd cs)" "at m 0 w" "is_word w" "m (length w) \<in> set whitespace" by (cases "hd cs") auto
  have wc: "word_char (m i)" if "i < length w" for i using w(2,3) that by (auto simp: at_def is_word_def)
  have nw: "chr CHR ''c'' \<notin> set whitespace" "chr CHR ''d'' \<notin> set whitespace" by code_simp+
  have "0 < length w" using w(3) by (simp add: is_word_def)
  moreover have "length w \<noteq> 1" using w(4) c nw(2) by auto
  moreover have "\<not> 2 < length w" using wc [of 2] c white_not_word [OF symbol_bytes(9)] by auto
  ultimately have "length w = 2" by linarith
  then have "w = [m 0, m 1]" using w(2) by (auto simp: at_def list_eq_iff_nth_eq less_2_cases_iff)
  then have "w = str ''cd''" using c by (simp add: str_def)
  then show False using assms(1) w(1) by simp
qed

lemma shell_line_pipeline:
  assumes t: "typeable (Pipeline cs)" and m: "m = put_bytes (\<lambda>_. 0) 0 (pipeline cs @ [10])"
  shows "shell_line m = Run (Ok (pipes cs))"
proof -
  define k where "k = length (pipeline cs) + 1"
  have cs: "cs \<noteq> []" "\<forall>ws \<in> set cs. ws \<noteq> [] \<and> writable (EXEC ws)" using t by simp_all
  have z: "0 \<notin> set (pipeline cs)" using pipeline_zero [OF cs(2)] by blast
  note b = line_buffer [OF z m]
  have at: "pipeline_at m 0 cs" using b(1,2) cs(2) by (intro pipeline_atI) simp_all
  have f: "parse_fuel k = Suc (Suc (parse_fuel k - 2))" "length (pipeline cs) + 5 \<le> Suc (parse_fuel k - 2)"
    by (simp_all add: parse_fuel_def k_def)
  have cl: "closing (m (0 + length (pipeline cs) + 1))" "0 + length (pipeline cs) + 1 \<le> k" using b(3) by (simp_all add: closing_def k_def)
  from parse_pipeline [OF at cs cl(2,1) f(2)] obtain c' where
    c': "parsepipe (Suc (parse_fuel k - 2)) m k 0 = Ok (c', k)" "map_cmd (lexeme m) c' = pipes cs" by (auto simp: k_def)
  have "closing (m k)" using cl(1) by (simp add: k_def)
  from line_ends [OF c'(1) this] have "parseline (parse_fuel k) m k 0 = Ok (c', k)" unfolding f(1) [symmetric] .
  then show ?thesis by (rule shell_line_runs [OF z m k_def _ c'(2) pipeline_not_cd [OF t b(1,2)]])
qed

lemma shell_line_cd:
  assumes d: "typeable (Cd dir)" and m: "m = put_bytes (\<lambda>_. 0) 0 (spelling (Cd dir) @ [10])"
  shows "shell_line m = Chdir dir"
proof -
  let ?xs = "spelling (Cd dir)"
  have "0 \<notin> set (str ''cd '')" by code_simp
  then have z: "0 \<notin> set ?xs" using d by simp
  note b = line_buffer [OF z m]
  have st: "string_at m 0 = ?xs @ [10]"
    using strlen_cstr [OF b(4)] b(1,2) by (simp add: string_at_def at_bytes_of bytes_of_def)
  have cd: "str ''cd '' = [chr CHR ''c'', chr CHR ''d'', chr CHR '' '']" by (simp add: str_def)
  have three: "m 0 = chr CHR ''c''" "m 1 = chr CHR ''d''" "m 2 = chr CHR '' ''" "at m 3 dir"
    using b(1) by (simp_all add: cd eval_nat_numeral)
  let ?m = "m(length ?xs := 0)"
  have len: "length ?xs = 3 + length dir" by (simp add: cd)
  have "at ?m 3 dir" using three(4) len by (auto simp: at_def)
  moreover have "cstr_at ?m 3 (length dir)" using calculation d len by (auto simp: cstr_at_def at_def) (metis nth_mem)
  ultimately have "string_at ?m 3 = dir" using strlen_cstr [of ?m 3 "length dir"] by (simp add: string_at_def at_bytes_of)
  moreover have "length (string_at m 0) - 1 = length ?xs" using st by simp
  ultimately show ?thesis using three(1-3) by (simp add: shell_line_def del: spelling.simps)
qed

lemma line_chars:
  assumes "typeable l"
  shows "\<forall>x \<in> set (spelling l). x \<noteq> 10 \<and> x \<noteq> 13" "spelling l \<noteq> []" "hd (spelling l) \<noteq> 0"
proof -
  have s: "set (str ''cd '') \<inter> {0, 10, 13} = {}" "{chr CHR ''('', chr CHR '')''} \<inter> {0, 10, 13} = {}" by code_simp+
  have n: "\<forall>x \<in> set (spelling l). x \<notin> {0, 10, 13}"
  proof (cases l)
    case (Pipeline cs)
    then show ?thesis using assms pipeline_zero [of cs] by auto
  next
    case (Grouped c)
    then show ?thesis using assms s(2) unparse_chars [of c] by (auto simp: paren_def)
  qed (use assms s(1) in auto)
  then show "\<forall>x \<in> set (spelling l). x \<noteq> 10 \<and> x \<noteq> 13" by blast
  show ne: "spelling l \<noteq> []"
  proof (cases l)
    case (Pipeline cs)
    then obtain w ws rest where "cs = (w # ws) # rest" "w \<noteq> []" using assms by (cases cs; cases "hd cs") (auto simp: is_word_def)
    then show ?thesis using Pipeline by simp
  qed (auto simp: paren_def str_def)
  show "hd (spelling l) \<noteq> 0" using n ne by (metis hd_in_set insertI1)
qed



end
