(* ===== verification/Umalloc.thy ===== *)
theory Umalloc
  imports Machine
begin

text \<open>
  umalloc.c: the allocator of the user library, with its circular list of free blocks in the headers of the
  blocks. The invariant is kept by malloc and free, both return, and blocks in use never overlap.
\<close>

unbundle bit_operations_syntax

section \<open>Headers\<close>

text \<open>
  Addresses are counted in units of a header, 8 bytes; 0 is the null pointer. A header holds the next
  free block and the size of its own block, header included; \<open>base\<close> is the header that the list starts
  with. The break is where sbrk last put the end of the heap.
\<close>

record heap =
  base :: nat
  hptr :: "nat \<Rightarrow> nat"
  hsize :: "nat \<Rightarrow> nat"
  freep :: nat
  break_at :: nat

definition set_ptr :: "nat \<Rightarrow> nat \<Rightarrow> heap \<Rightarrow> heap" where
  "set_ptr p v s = s\<lparr>hptr := (hptr s)(p := v)\<rparr>"

definition set_size :: "nat \<Rightarrow> nat \<Rightarrow> heap \<Rightarrow> heap" where
  "set_size p v s = s\<lparr>hsize := (hsize s)(p := v)\<rparr>"

text \<open>The loop of free that looks for the place of a block in the list.\<close>

partial_function (option) free_find :: "heap \<Rightarrow> nat \<Rightarrow> nat \<Rightarrow> nat option" where
  "free_find s bp p =
     (if p < bp \<and> bp < hptr s p then Some p
      else if p \<ge> hptr s p \<and> (bp > p \<or> bp < hptr s p) then Some p
      else free_find s bp (hptr s p))"

definition free :: "nat \<Rightarrow> heap \<Rightarrow> heap option" where
  "free ap s =
     (let bp = ap - 1
      in case free_find s bp (freep s) of
           None \<Rightarrow> None
         | Some p \<Rightarrow>
             let s = (if bp + hsize s bp = hptr s p
                      then set_ptr bp (hptr s (hptr s p)) (set_size bp ((hsize s bp + hsize s (hptr s p)) mod 2 ^ 32) s)
                      else set_ptr bp (hptr s p) s);
                 s = (if p + hsize s p = bp
                      then set_ptr p (hptr s bp) (set_size p ((hsize s p + hsize s bp) mod 2 ^ 32) s)
                      else set_ptr p bp s)
             in Some (s\<lparr>freep := p\<rparr>))"

text \<open>
  sbrk is given the number of bytes and the break, and returns where the new memory starts, in units, or
  None for -1.
\<close>

definition morecore :: "(u32 \<Rightarrow> nat \<Rightarrow> nat option) \<Rightarrow> nat \<Rightarrow> heap \<Rightarrow> (nat \<times> heap) option" where
  "morecore sbrk nu s =
     (let nu = (if nu < 4096 then 4096 else nu)
      in case sbrk (of_nat nu * 8) (break_at s) of
           None \<Rightarrow> Some (0, s)
         | Some hp \<Rightarrow>
             (case free (hp + 1) (set_size hp nu (s\<lparr>break_at := hp + nu\<rparr>)) of
                None \<Rightarrow> None
              | Some s \<Rightarrow> Some (freep s, s)))"

text \<open>The block \<open>p\<close> is large enough: it is unlinked, or its tail is cut off.\<close>

definition take_block :: "nat \<Rightarrow> nat \<Rightarrow> nat \<Rightarrow> heap \<Rightarrow> nat \<times> heap" where
  "take_block nunits prevp p s =
     (if hsize s p = nunits then (p + 1, (set_ptr prevp (hptr s p) s)\<lparr>freep := prevp\<rparr>)
      else
        let s = set_size p (hsize s p - nunits) s; p = p + hsize s p; s = set_size p nunits s
        in (p + 1, s\<lparr>freep := prevp\<rparr>))"

partial_function (option) malloc_loop :: "(u32 \<Rightarrow> nat \<Rightarrow> nat option) \<Rightarrow> nat \<Rightarrow> nat \<Rightarrow> nat \<Rightarrow> heap \<Rightarrow> (nat \<times> heap) option" where
  "malloc_loop sbrk nunits prevp p s =
     (if hsize s p \<ge> nunits then Some (take_block nunits prevp p s)
      else if p = freep s then
        (case morecore sbrk nunits s of
           None \<Rightarrow> None
         | Some (p, s) \<Rightarrow> if p = 0 then Some (0, s) else malloc_loop sbrk nunits p (hptr s p) s)
      else malloc_loop sbrk nunits p (hptr s p) s)"

definition nunits_of :: "u32 \<Rightarrow> nat" where
  "nunits_of nbytes = unat ((nbytes + 8 - 1) div 8 + 1)"

definition malloc :: "(u32 \<Rightarrow> nat \<Rightarrow> nat option) \<Rightarrow> u32 \<Rightarrow> heap \<Rightarrow> (nat \<times> heap) option" where
  "malloc sbrk nbytes s =
     (let s = (if freep s = 0 then set_size (base s) 0 (set_ptr (base s) (base s) (s\<lparr>freep := base s\<rparr>)) else s)
      in malloc_loop sbrk (nunits_of nbytes) (freep s) (hptr s (freep s)) s)"

section \<open>The circular list\<close>

text \<open>The next element of a finite set in ascending order, starting over behind the last one.\<close>

definition succ_in :: "nat set \<Rightarrow> nat \<Rightarrow> nat" where
  "succ_in F b = (if {x \<in> F. b < x} = {} then Min F else Min {x \<in> F. b < x})"

lemma succ_in_F: "finite F \<Longrightarrow> b \<in> F \<Longrightarrow> succ_in F b \<in> F"
proof -
  assume f: "finite F" "b \<in> F"
  have "{x \<in> F. b < x} \<noteq> {} \<Longrightarrow> Min {x \<in> F. b < x} \<in> {x \<in> F. b < x}" using f by (intro Min_in) auto
  moreover have "Min F \<in> F" using f by (intro Min_in) auto
  ultimately show ?thesis by (auto simp: succ_in_def)
qed

lemma succ_in_greater:
  assumes "finite F" "x \<in> F" "b < x"
  shows "b < succ_in F b" "succ_in F b \<le> x"
proof -
  have "Min {x \<in> F. b < x} \<in> {x \<in> F. b < x}" using assms by (intro Min_in) auto
  moreover have "Min {x \<in> F. b < x} \<le> x" using assms by (intro Min_le) auto
  ultimately show "b < succ_in F b" "succ_in F b \<le> x" using assms by (auto simp: succ_in_def)
qed

lemma succ_in_wrap: "finite F \<Longrightarrow> \<forall>x \<in> F. x \<le> b \<Longrightarrow> succ_in F b = Min F"
  by (auto simp: succ_in_def)

lemma succ_in_eqI:
  assumes "finite F" "n \<in> F" "b < n" "\<forall>x \<in> F. b < x \<longrightarrow> n \<le> x"
  shows "succ_in F b = n"
  using succ_in_greater [OF assms(1-3)] succ_in_F assms unfolding succ_in_def by (auto intro!: Min_eqI)

lemma succ_in_cases:
  assumes "finite F" "b \<in> F"
  obtains (up) "b < succ_in F b" "\<forall>x \<in> F. b < x \<longrightarrow> succ_in F b \<le> x" | (wrap) "\<forall>x \<in> F. x \<le> b" "succ_in F b = Min F"
proof (cases "\<exists>x \<in> F. b < x")
  case True
  then show ?thesis using succ_in_greater [OF assms(1)] up by blast
next
  case False
  then show ?thesis using succ_in_wrap [OF assms(1)] wrap by (meson not_less)
qed

lemma set_ptr_sel [simp]:
  "hptr (set_ptr p v s) = (hptr s)(p := v)" "hsize (set_ptr p v s) = hsize s" "freep (set_ptr p v s) = freep s"
  "base (set_ptr p v s) = base s" "break_at (set_ptr p v s) = break_at s"
  by (simp_all add: set_ptr_def)

lemma set_size_sel [simp]:
  "hptr (set_size p v s) = hptr s" "hsize (set_size p v s) = (hsize s)(p := v)" "freep (set_size p v s) = freep s"
  "base (set_size p v s) = base s" "break_at (set_size p v s) = break_at s"
  by (simp_all add: set_size_def)

section \<open>The invariant\<close>

definition span :: "heap \<Rightarrow> nat \<Rightarrow> nat set" where
  "span s b = {b..<b + hsize s b}"

text \<open>
  \<open>F\<close> are the headers on the free list, \<open>A\<close> those of the blocks in use. The list runs through \<open>F\<close> in
  ascending order; no two blocks overlap; all lie between \<open>base\<close> and the break.
\<close>

definition blocks_ok :: "heap \<Rightarrow> nat set \<Rightarrow> nat set \<Rightarrow> bool" where
  "blocks_ok s F A \<longleftrightarrow> finite F \<and> finite A \<and> base s \<in> F \<and> 0 < base s \<and> hsize s (base s) = 0 \<and> F \<inter> A = {} \<and>
     (\<forall>b \<in> F. hptr s b = succ_in F b) \<and>
     (\<forall>b \<in> F \<union> A. b \<noteq> base s \<longrightarrow> base s < b \<and> 0 < hsize s b \<and> b + hsize s b \<le> break_at s) \<and>
     (\<forall>a \<in> F \<union> A. \<forall>b \<in> F \<union> A. a < b \<longrightarrow> a + hsize s a \<le> b) \<and> base s < break_at s \<and> break_at s < 2 ^ 29"

definition coalesced :: "heap \<Rightarrow> nat set \<Rightarrow> bool" where
  "coalesced s F \<longleftrightarrow> (\<forall>a \<in> F. a \<noteq> base s \<longrightarrow> a + hsize s a \<notin> F)"

definition heap_inv :: "heap \<Rightarrow> nat set \<Rightarrow> nat set \<Rightarrow> bool" where
  "heap_inv s F A \<longleftrightarrow> blocks_ok s F A \<and> coalesced s F \<and> freep s \<in> F"

definition covers :: "heap \<Rightarrow> nat set \<Rightarrow> nat set" where
  "covers s B = (\<Union>b \<in> B. span s b)"

lemma blocks_okD:
  assumes "blocks_ok s F A"
  shows "finite F" "finite A" "base s \<in> F" "0 < base s" "hsize s (base s) = 0" "F \<inter> A = {}"
    "b \<in> F \<Longrightarrow> hptr s b = succ_in F b" "b \<in> F \<union> A \<Longrightarrow> base s \<le> b" "b \<in> F \<union> A \<Longrightarrow> b \<noteq> base s \<Longrightarrow> base s < b \<and> 0 < hsize s b"
    "b \<in> F \<union> A \<Longrightarrow> b + hsize s b \<le> break_at s" "a \<in> F \<union> A \<Longrightarrow> b \<in> F \<union> A \<Longrightarrow> a < b \<Longrightarrow> a + hsize s a \<le> b" "break_at s < 2 ^ 29"
    "Min F = base s"
proof -
  note h = assms [unfolded blocks_ok_def]
  show "finite F" "finite A" "base s \<in> F" "0 < base s" "hsize s (base s) = 0" "F \<inter> A = {}" "b \<in> F \<Longrightarrow> hptr s b = succ_in F b"
    "b \<in> F \<union> A \<Longrightarrow> b \<noteq> base s \<Longrightarrow> base s < b \<and> 0 < hsize s b" "break_at s < 2 ^ 29"
    "a \<in> F \<union> A \<Longrightarrow> b \<in> F \<union> A \<Longrightarrow> a < b \<Longrightarrow> a + hsize s a \<le> b" using h by blast+
  show le: "b \<in> F \<union> A \<Longrightarrow> base s \<le> b" for b using h by (cases "b = base s") (auto simp: less_imp_le)
  show "b \<in> F \<union> A \<Longrightarrow> b + hsize s b \<le> break_at s" using h by (cases "b = base s") auto
  show "Min F = base s" using h le by (intro Min_eqI) auto
qed

section \<open>Walking the list\<close>

definition steps :: "nat set \<Rightarrow> nat \<Rightarrow> nat \<Rightarrow> nat" where
  "steps F p q = (if p \<le> q then card {x \<in> F. p \<le> x \<and> x \<le> q} else card {x \<in> F. p \<le> x} + card F)"

lemma steps_decrease:
  assumes f: "finite F" "p \<in> F" "q \<in> F" "p \<noteq> q"
  shows "steps F (succ_in F p) q < steps F p q"
  using f(1,2)
proof (cases rule: succ_in_cases)
  case up
  let ?n = "succ_in F p"
  have sub: "{x \<in> F. ?n \<le> x \<and> P x} \<subset> {x \<in> F. p \<le> x \<and> P x}" if "P p" for P
  proof -
    have "{x \<in> F. ?n \<le> x \<and> P x} \<subseteq> {x \<in> F. p \<le> x \<and> P x}" "p \<in> {x \<in> F. p \<le> x \<and> P x}" "p \<notin> {x \<in> F. ?n \<le> x \<and> P x}"
      using up(1) f(2) that by auto
    then show ?thesis by blast
  qed
  show ?thesis
  proof (cases "p \<le> q")
    case True
    then have "?n \<le> q" using up f by auto
    then show ?thesis using True f(1) psubset_card_mono [OF _ sub [of "\<lambda>x. x \<le> q"]] by (simp add: steps_def)
  next
    case False
    then show ?thesis using up f(1) psubset_card_mono [OF _ sub [of "\<lambda>x. True"]] by (simp add: steps_def)
  qed
next
  case wrap
  then have p: "\<not> p \<le> q" using f(3,4) by (meson le_antisym)
  have "Min F \<le> q" using f by (intro Min_le)
  moreover have "card {x \<in> F. Min F \<le> x \<and> x \<le> q} \<le> card F" using f(1) by (intro card_mono) auto
  moreover have "0 < card {x \<in> F. p \<le> x}" using f by (auto simp: card_gt_0_iff)
  ultimately show ?thesis using wrap p by (simp add: steps_def)
qed

text \<open>The place of a block: the last free block before it.\<close>

lemma free_find_place:
  assumes ok: "blocks_ok s F A" and pr: "pr \<in> F" "pr < bp" "\<forall>x \<in> F. x < bp \<longrightarrow> x \<le> pr" and bp: "bp \<notin> F"
  shows "p \<in> F \<Longrightarrow> free_find s bp p = Some pr"
proof (induction "steps F p pr" arbitrary: p rule: less_induct)
  case less
  note d = blocks_okD [OF ok]
  have n: "hptr s p = succ_in F p" "succ_in F p \<in> F" using d(7) succ_in_F [OF d(1)] less.prems by auto
  have ge: "base s \<le> succ_in F p" "base s \<le> pr" using n d(8) pr(1) by auto
  show ?case
  proof (cases "p = pr")
    case True
    have "bp < succ_in F p \<or> succ_in F p \<le> p \<and> p < bp"
      using d(1) less.prems
    proof (cases rule: succ_in_cases)
      case up
      then show ?thesis using True pr(3) n(2) bp by (metis leD linorder_neqE_nat)
    next
      case wrap
      then show ?thesis using True pr n(2) by auto
    qed
    then show ?thesis using True n(1) pr(2) by (subst free_find.simps) auto
  next
    case False
    have "free_find s bp (succ_in F p) = Some pr"
      by (rule less.hyps [OF steps_decrease [OF d(1) less.prems pr(1) False] n(2)])
    moreover have "\<not> (p < bp \<and> bp < succ_in F p)"
      using False pr n(2) d(1) less.prems by (metis le_neq_implies_less leD order_less_trans succ_in_greater(2))
    moreover have "\<not> (succ_in F p \<le> p \<and> (p < bp \<or> bp < succ_in F p))"
    proof
      assume h: "succ_in F p \<le> p \<and> (p < bp \<or> bp < succ_in F p)"
      have m: "\<forall>x \<in> F. x \<le> p" using h succ_in_greater(1) [OF d(1)] by (meson leD linorder_not_less)
      then have "succ_in F p = base s" using succ_in_wrap [OF d(1)] d(13) by simp
      then show False using h pr(2,3) m pr(1) less.prems False ge(2) by fastforce
    qed
    ultimately show ?thesis using n(1) by (subst free_find.simps) (simp only: if_False)
  qed
qed

section \<open>Free\<close>

text \<open>Putting a block in use on the list, and merging two neighbours on it.\<close>

definition link :: "nat \<Rightarrow> nat \<Rightarrow> heap \<Rightarrow> heap" where
  "link p bp s = set_ptr p bp (set_ptr bp (hptr s p) s)"

definition merge :: "nat \<Rightarrow> heap \<Rightarrow> heap" where
  "merge a s = set_ptr a (hptr s (hptr s a)) (set_size a (hsize s a + hsize s (hptr s a)) s)"

lemma link_ok:
  assumes ok: "blocks_ok s F A" and bp: "bp \<in> A" and pr: "p \<in> F" "p < bp" "\<forall>x \<in> F. x < bp \<longrightarrow> x \<le> p"
  shows "blocks_ok (link p bp s) (insert bp F) (A - {bp})"
proof -
  note d = blocks_okD [OF ok]
  have nb: "bp \<notin> F" using d(6) bp by blast
  have gt: "bp < x" if "x \<in> F" "p < x" for x using that pr(3) nb by (metis leD linorder_neqE_nat)
  have "succ_in (insert bp F) p = bp" using d(1) pr gt by (intro succ_in_eqI) auto
  moreover have "succ_in (insert bp F) bp = succ_in F p"
    using d(1) pr(1)
  proof (cases rule: succ_in_cases)
    case up
    then show ?thesis using d(1) succ_in_F [OF d(1) pr(1)] gt pr(2) by (intro succ_in_eqI) auto
  next
    case wrap
    then have "\<forall>x \<in> insert bp F. x \<le> bp" using pr(2) by auto
    moreover have "Min (insert bp F) = Min F" using d(1,3,13) d(8) bp by (auto intro!: Min_eqI)
    ultimately show ?thesis using wrap d(1) by (simp add: succ_in_wrap)
  qed
  moreover have "succ_in (insert bp F) b = succ_in F b" if b: "b \<in> F" "b \<noteq> p" for b
    using d(1) b(1)
  proof (cases rule: succ_in_cases)
    case up
    have "succ_in F b \<le> bp \<or> bp < b" using pr b up gt by (metis leI le_neq_implies_less less_imp_le order_trans linorder_neqE_nat)
    then show ?thesis using up d(1) succ_in_F [OF d(1) b(1)] by (intro succ_in_eqI) auto
  next
    case wrap
    then have "bp < b" using b pr(1) gt by (metis le_neq_implies_less)
    then have "\<forall>x \<in> insert bp F. x \<le> b" using wrap by auto
    moreover have "Min (insert bp F) = Min F" using d(1,3,13) d(8) bp by (auto intro!: Min_eqI)
    ultimately show ?thesis using wrap d(1) by (simp add: succ_in_wrap)
  qed
  ultimately have ptr: "\<forall>b \<in> insert bp F. hptr (link p bp s) b = succ_in (insert bp F) b"
    using d(7) pr(1,2) nb by (auto simp: link_def)
  have eq: "insert bp F \<union> (A - {bp}) = F \<union> A" using bp by blast
  show ?thesis using ok ptr nb bp unfolding blocks_ok_def eq by (auto simp: link_def)
qed

lemma succ_in_remove:
  assumes f: "finite F" "a \<in> F" "n \<in> F" "succ_in F a = n" "a < n" and m: "Min F \<noteq> n"
  shows "succ_in (F - {n}) a = succ_in F n" "\<forall>b \<in> F. b \<noteq> a \<longrightarrow> b \<noteq> n \<longrightarrow> succ_in (F - {n}) b = succ_in F b"
proof -
  have nx: "\<forall>x \<in> F. a < x \<longrightarrow> n \<le> x" using succ_in_greater(2) [OF f(1)] f(4) by blast
  have mb: "Min (F - {n}) = Min F" using f m by (intro Min_eqI) (auto simp: Min_le_iff intro: Min_in)
  show "succ_in (F - {n}) a = succ_in F n"
    using f(1,3)
  proof (cases rule: succ_in_cases)
    case up
    then show ?thesis using f succ_in_F [OF f(1,3)] nx by (intro succ_in_eqI) (auto simp: order_le_less)
  next
    case wrap
    then have "\<forall>x \<in> F - {n}. x \<le> a" using nx by (metis DiffE insertI1 le_antisym linorder_not_less)
    then show ?thesis using wrap mb f(1) by (simp add: succ_in_wrap)
  qed
  have "succ_in (F - {n}) b = succ_in F b" if b: "b \<in> F" "b \<noteq> a" "b \<noteq> n" for b
  proof -
    have sn: "succ_in F b \<noteq> n"
    proof
      assume e: "succ_in F b = n"
      have "b < n" using f(1) b(1) by (cases rule: succ_in_cases) (use e m in auto)
      then have "b < a" using nx b by (metis leD linorder_neqE_nat)
      then show False using succ_in_greater(2) [OF f(1,2), of b] e f(5) by simp
    qed
    show ?thesis using f(1) b(1)
    proof (cases rule: succ_in_cases)
      case up
      then show ?thesis using f(1) succ_in_F [OF f(1) b(1)] sn by (intro succ_in_eqI) auto
    next
      case wrap
      then show ?thesis using mb f(1) by (simp add: succ_in_wrap)
    qed
  qed
  then show "\<forall>b \<in> F. b \<noteq> a \<longrightarrow> b \<noteq> n \<longrightarrow> succ_in (F - {n}) b = succ_in F b" by blast
qed

lemma merge_ok:
  assumes ok: "blocks_ok s F A" and a: "a \<in> F" "a \<noteq> base s" and adj: "a + hsize s a = hptr s a" "hptr s a \<in> F"
  shows "blocks_ok (merge a s) (F - {hptr s a}) A"
proof -
  note d = blocks_okD [OF ok]
  define n where "n = hptr s a"
  have n: "n = succ_in F a" "n \<in> F" "a < n" "n \<noteq> base s" using d(7) [OF a(1)] adj d(9) [of a] a by (auto simp: n_def)
  have hn: "hptr s n = succ_in F n" using d(7) n(2) by simp
  note rem = succ_in_remove [OF d(1) a(1) n(2) n(1) [symmetric] n(3)]
  have "Min F \<noteq> n" using d(13) n(4) by simp
  note rem = rem [OF this]
  have ptr: "\<forall>b \<in> F - {n}. hptr (merge a s) b = succ_in (F - {n}) b"
    using d(7) hn rem by (auto simp: merge_def n_def)
  have size: "hsize (merge a s) b = (if b = a then hsize s a + hsize s n else hsize s b)" for b by (simp add: merge_def n_def)
  have after: "a + (hsize s a + hsize s n) \<le> b" if "b \<in> F \<union> A" "b \<noteq> n" "a < b" for b
    using d(11) [of n b] d(11) [of a b] that a n adj d(9) [of n] by (auto simp: n_def nat_neq_iff)
  have an: "a + (hsize s a + hsize s n) \<le> break_at s" using d(10) [of n] n(2) adj(1) by (simp add: n_def [symmetric] add.assoc [symmetric])
  have sel: "base (merge a s) = base s" "break_at (merge a s) = break_at s" by (simp_all add: merge_def)
  have "\<forall>b \<in> (F - {n}) \<union> A. b \<noteq> base s \<longrightarrow> base s < b \<and> 0 < hsize (merge a s) b \<and> b + hsize (merge a s) b \<le> break_at s"
    using d(9,10) n(2) a an by (auto simp: size)
  moreover have "\<forall>x \<in> (F - {n}) \<union> A. \<forall>b \<in> (F - {n}) \<union> A. x < b \<longrightarrow> x + hsize (merge a s) x \<le> b"
    using d(11) after n(2) d(6) a by (auto simp: size)
  moreover have "base s \<in> F - {n}" "(F - {n}) \<inter> A = {}" "hsize (merge a s) (base s) = 0" using d(3,5,6) n(4) a(2) by (auto simp: size)
  ultimately show ?thesis using ok ptr unfolding blocks_ok_def sel n_def [symmetric] by simp
qed

lemma covers_link: "covers (link p bp s) B = covers s B"
  by (simp add: covers_def span_def link_def)

lemma covers_merge:
  assumes "a \<in> B" "hptr s a \<in> B" "a + hsize s a = hptr s a" "hptr s a \<noteq> a"
  shows "covers (merge a s) (B - {hptr s a}) = covers s B"
proof -
  have "span (merge a s) b = (if b = a then span s a \<union> span s (hptr s a) else span s b)" for b
    using assms(3) by (auto simp: span_def merge_def)
  then show ?thesis using assms by (auto simp: covers_def split: if_splits)
qed

text \<open>The code of free is a link and up to two merges.\<close>

lemma free_eq:
  assumes f: "free_find s bp (freep s) = Some p" and ne: "p \<noteq> bp" "hptr s p \<noteq> bp" "hptr s p \<noteq> p \<or> bp + hsize s bp \<noteq> hptr s p"
    and small: "hsize s bp + hsize s (hptr s p) < 2 ^ 32" "hsize s p + (hsize s bp + hsize s (hptr s p)) < 2 ^ 32"
  shows "free (bp + 1) s = Some
    (let s1 = link p bp s; s2 = (if bp + hsize s bp = hptr s p then merge bp s1 else s1);
         s3 = (if p + hsize s p = bp then merge p s2 else s2) in s3\<lparr>freep := p\<rparr>)"
proof -
  have m: "(hsize s bp + hsize s (hptr s p)) mod 2 ^ 32 = hsize s bp + hsize s (hptr s p)"
    "(hsize s p + (hsize s bp + hsize s (hptr s p))) mod 2 ^ 32 = hsize s p + (hsize s bp + hsize s (hptr s p))"
    "(hsize s p + hsize s bp) mod 2 ^ 32 = hsize s p + hsize s bp"
    using small by simp_all
  show ?thesis using f ne m
    by (simp add: free_def Let_def link_def merge_def set_ptr_def set_size_def fun_upd_twist)
qed

text \<open>Free blocks that end where the next one starts: none, or only those in a set that is still to be merged.\<close>

definition adjacent_in :: "heap \<Rightarrow> nat set \<Rightarrow> nat set \<Rightarrow> bool" where
  "adjacent_in s F E \<longleftrightarrow> (\<forall>a \<in> F. a \<noteq> base s \<longrightarrow> a + hsize s a \<in> F \<longrightarrow> a \<in> E)"

lemma coalesced_adjacent: "coalesced s F \<longleftrightarrow> adjacent_in s F {}"
  by (auto simp: coalesced_def adjacent_in_def)

lemma adjacent_merge:
  assumes "adjacent_in s F E" "hptr s a \<in> F" "hptr s a \<noteq> base s" "hptr s a \<notin> E" "a + hsize s a = hptr s a"
  shows "adjacent_in (merge a s) (F - {hptr s a}) (E - {a})"
proof -
  have n: "a + (hsize s a + hsize s (hptr s a)) = hptr s a + hsize s (hptr s a)" using assms(5) by simp
  have "hptr s a + hsize s (hptr s a) \<notin> F" using assms(1-4) by (auto simp: adjacent_in_def)
  then have "a + (hsize s a + hsize s (hptr s a)) \<notin> F" unfolding n .
  then show ?thesis using assms(1) by (auto simp: adjacent_in_def merge_def)
qed

lemma merge_step:
  assumes ok: "blocks_ok s F A" and adj: "adjacent_in s F E" and a: "a \<in> F" "a \<noteq> base s" "hptr s a = n" "n \<in> F" "n \<notin> E" "a + hsize s a = n"
  shows "blocks_ok (merge a s) (F - {n}) A" "adjacent_in (merge a s) (F - {n}) (E - {a})"
    "covers (merge a s) (F - {n} \<union> A) = covers s (F \<union> A)"
proof -
  note d = blocks_okD [OF ok]
  have n: "a < n" "base s < n" "n \<notin> A" using d(9) [of a] a d(6) by auto
  have u: "F - {n} \<union> A = F \<union> A - {n}" using n(3) by blast
  show "blocks_ok (merge a s) (F - {n}) A" using merge_ok [OF ok a(1,2)] a by simp
  show "adjacent_in (merge a s) (F - {n}) (E - {a})" using adjacent_merge [OF adj, of a] a n by simp
  show "covers (merge a s) (F - {n} \<union> A) = covers s (F \<union> A)" using covers_merge [of a "F \<union> A" s] a n unfolding u by simp
qed

lemma adjacent_link:
  assumes ok: "blocks_ok s F A" and co: "coalesced s F" and bp: "bp \<in> A" and pr: "p \<in> F" "p < bp" "\<forall>x \<in> F. x < bp \<longrightarrow> x \<le> p"
  shows "adjacent_in (link p bp s) (insert bp F)
    ((if bp + hsize s bp = hptr s p then {bp} else {}) \<union> (if p + hsize s p = bp then {p} else {}))"
proof -
  note d = blocks_okD [OF ok]
  have nb: "bp \<notin> F" using d(6) bp by blast
  have "bp + hsize s bp = hptr s p" if x: "bp + hsize s bp \<in> F"
  proof -
    have pos: "0 < hsize s bp" using d(9) [of bp] bp nb d(3) by auto
    have "hptr s p \<le> bp + hsize s bp" "p < hptr s p" using succ_in_greater [OF d(1) x, of p] d(7) [OF pr(1)] pr(2) by auto
    moreover have "hptr s p \<in> F" using succ_in_F [OF d(1) pr(1)] d(7) [OF pr(1)] by simp
    moreover from calculation have "bp < hptr s p" using pr(3) nb by (metis leD linorder_neqE_nat)
    ultimately show ?thesis using d(11) [of bp "hptr s p"] bp by simp
  qed
  moreover have "a = p" if a: "a \<in> F" "a + hsize s a = bp" "a \<noteq> base s" for a
  proof -
    have "a \<le> p" using a d(9) [of a] pr(3) by simp
    then show ?thesis using a(1,2) pr(1,2) d(11) [of a p] by (cases "a < p") simp_all
  qed
  moreover have "0 < hsize s bp" using d(9) [of bp] bp nb d(3) by auto
  ultimately show ?thesis using co by (auto simp: adjacent_in_def coalesced_def link_def)
qed

lemma place_exists:
  assumes ok: "blocks_ok s F A" and bp: "bp \<in> A"
  obtains p where "p \<in> F" "p < bp" "\<forall>x \<in> F. x < bp \<longrightarrow> x \<le> p"
proof -
  note d = blocks_okD [OF ok]
  have "base s < bp" using d(9) [of bp] bp d(3,6) by blast
  then have ne: "{x \<in> F. x < bp} \<noteq> {}" using d(3) by blast
  have "Max {x \<in> F. x < bp} \<in> {x \<in> F. x < bp}" using d(1) ne by (intro Max_in) auto
  moreover have "\<forall>x \<in> F. x < bp \<longrightarrow> x \<le> Max {x \<in> F. x < bp}" using d(1) by auto
  ultimately show ?thesis using that by blast
qed

lemma free_keeps:
  assumes inv: "heap_inv s F A" and bp: "bp \<in> A"
  shows "\<exists>s' F'. free (bp + 1) s = Some s' \<and> heap_inv s' F' (A - {bp}) \<and> base s' = base s \<and> break_at s' = break_at s \<and>
    (\<forall>a \<in> A - {bp}. hsize s' a = hsize s a) \<and> covers s' (F' \<union> (A - {bp})) = covers s (F \<union> A) \<and> (\<exists>x \<in> F'. hsize s bp \<le> hsize s' x)"
proof -
  have ok: "blocks_ok s F A" and co: "coalesced s F" and fp: "freep s \<in> F" using inv by (auto simp: heap_inv_def)
  note d = blocks_okD [OF ok]
  obtain p where pr: "p \<in> F" "p < bp" "\<forall>x \<in> F. x < bp \<longrightarrow> x \<le> p" by (rule place_exists [OF ok bp])
  have nb: "bp \<notin> F" "bp \<noteq> base s" using d(3,6) bp by blast+
  define n where "n = hptr s p"
  have n: "n \<in> F" "n \<noteq> bp" using succ_in_F [OF d(1) pr(1)] d(7) [OF pr(1)] nb by (auto simp: n_def)
  define s1 where "s1 = link p bp s"
  define s2 where "s2 = (if bp + hsize s bp = n then merge bp s1 else s1)"
  define F2 where "F2 = (if bp + hsize s bp = n then insert bp F - {n} else insert bp F)"
  define s3 where "s3 = (if p + hsize s p = bp then merge p s2 else s2)"
  define F3 where "F3 = (if p + hsize s p = bp then F2 - {bp} else F2)"
  have e1: "hptr s1 bp = n" "hptr s1 p = bp" "hsize s1 = hsize s" "base s1 = base s" using pr(2) by (simp_all add: s1_def link_def n_def)
  have ok1: "blocks_ok s1 (insert bp F) (A - {bp})" unfolding s1_def by (rule link_ok [OF ok bp pr])
  have adj1: "adjacent_in s1 (insert bp F) ((if bp + hsize s bp = n then {bp} else {}) \<union> (if p + hsize s p = bp then {p} else {}))"
    unfolding s1_def n_def by (rule adjacent_link [OF ok co bp pr])
  have np: "n \<noteq> base s \<and> n \<noteq> p \<and> n \<noteq> bp" if "bp + hsize s bp = n" using that pr(2) d(8) [of bp] bp nb n by auto
  have ok2: "blocks_ok s2 F2 (A - {bp})" and adj2: "adjacent_in s2 F2 (if p + hsize s p = bp then {p} else {})"
    and cov2: "covers s2 (F2 \<union> (A - {bp})) = covers s (F \<union> A)"
    and e2: "hptr s2 p = bp" "hsize s2 p = hsize s p" "hsize s bp \<le> hsize s2 bp" "base s2 = base s" "p \<in> F2" "bp \<in> F2"
  proof -
    have u: "insert bp F \<union> (A - {bp}) = F \<union> A" using bp by blast
    have c1: "covers s1 (insert bp F \<union> (A - {bp})) = covers s (F \<union> A)" unfolding u s1_def by (rule covers_link)
    have "blocks_ok s2 F2 (A - {bp}) \<and> adjacent_in s2 F2 (if p + hsize s p = bp then {p} else {}) \<and>
        covers s2 (F2 \<union> (A - {bp})) = covers s (F \<union> A)"
    proof (cases "bp + hsize s bp = n")
      case True
      note adj1' = adj1 [unfolded if_P [OF True]]
      show ?thesis
        using merge_step [OF ok1 adj1', of bp n] e1 nb n np [OF True] True c1 pr(2) by (auto simp: s2_def F2_def split: if_splits)
    next
      case False
      then show ?thesis using ok1 adj1 c1 by (simp add: s2_def F2_def)
    qed
    then show "blocks_ok s2 F2 (A - {bp})" "adjacent_in s2 F2 (if p + hsize s p = bp then {p} else {})"
      "covers s2 (F2 \<union> (A - {bp})) = covers s (F \<union> A)" by blast+
    show "hptr s2 p = bp" "hsize s2 p = hsize s p" "hsize s bp \<le> hsize s2 bp" "base s2 = base s" "p \<in> F2" "bp \<in> F2"
      using e1 pr np by (auto simp: s2_def F2_def merge_def)
  qed
  have fin: "blocks_ok s3 F3 (A - {bp})" "adjacent_in s3 F3 {}" "covers s3 (F3 \<union> (A - {bp})) = covers s (F \<union> A)"
    "\<exists>x \<in> F3. hsize s bp \<le> hsize s3 x" "p \<in> F3" "base s3 = base s" "break_at s3 = break_at s" "\<forall>a \<in> A - {bp}. hsize s3 a = hsize s a"
  proof -
    have pb: "p \<noteq> base s" if "p + hsize s p = bp" using that d(5) pr(2) by auto
    have pA: "p \<notin> A" using pr(1) d(6) by blast
    show "blocks_ok s3 F3 (A - {bp})" "adjacent_in s3 F3 {}" "covers s3 (F3 \<union> (A - {bp})) = covers s (F \<union> A)"
      using ok2 adj2 cov2 merge_step [OF ok2 adj2, of p bp] e2 pb pr(2) by (auto simp: s3_def F3_def split: if_splits)
    show "\<exists>x \<in> F3. hsize s bp \<le> hsize s3 x"
    proof (cases "p + hsize s p = bp")
      case True
      then show ?thesis using e2 pr(2) by (intro bexI [of _ p]) (auto simp: s3_def F3_def merge_def)
    next
      case False
      then show ?thesis using e2 by (intro bexI [of _ bp]) (auto simp: s3_def F3_def)
    qed
    show "p \<in> F3" "base s3 = base s" "break_at s3 = break_at s" "\<forall>a \<in> A - {bp}. hsize s3 a = hsize s a"
      using e2(5) pr(2) pA by (auto simp: F3_def s3_def s2_def s1_def merge_def link_def)
  qed
  have f: "free_find s bp (freep s) = Some p" by (rule free_find_place [OF ok pr nb(1) fp])
  have "hsize s x < 2 ^ 29" if "x \<in> F \<union> A" for x using d(10) [OF that] d(12) by simp
  from this [of bp] this [of n] this [of p] have "free (bp + 1) s = Some (s3\<lparr>freep := p\<rparr>)"
    using free_eq [OF f] pr n bp nb by (auto simp: n_def [symmetric] s3_def s2_def s1_def Let_def)
  then show ?thesis
    using fin by (intro exI [of _ "s3\<lparr>freep := p\<rparr>"] exI [of _ F3])
      (simp add: heap_inv_def coalesced_adjacent blocks_ok_def adjacent_in_def covers_def span_def)
qed

section \<open>Malloc\<close>

text \<open>
  What malloc promises of the block \<open>q\<close> it gives out: it is large enough and was not in use, the invariant
  holds with it in use, no other block in use has changed its size and no memory is lost.
\<close>

definition allocated :: "heap \<Rightarrow> nat set \<Rightarrow> nat \<Rightarrow> heap \<Rightarrow> nat \<Rightarrow> nat set \<Rightarrow> bool" where
  "allocated s A q s' n F' \<longleftrightarrow> heap_inv s' F' (insert q A) \<and> q \<notin> A \<and> hsize s' q = n \<and> base s' = base s \<and> (\<forall>a \<in> A. hsize s' a = hsize s a)"

lemma heap_invD:
  assumes "heap_inv s F A"
  shows "blocks_ok s F A" "adjacent_in s F {}" "freep s \<in> F"
  using assms by (simp_all add: heap_inv_def coalesced_adjacent)

lemma unlink_ok:
  assumes inv: "heap_inv s F A" and q: "q \<in> F" "prevq \<in> F" "succ_in F prevq = q" "hsize s q = n" "0 < n"
  shows "allocated s A q ((set_ptr prevq (hptr s q) s)\<lparr>freep := prevq\<rparr>) n (F - {q})"
    "covers ((set_ptr prevq (hptr s q) s)\<lparr>freep := prevq\<rparr>) (F - {q} \<union> insert q A) = covers s (F \<union> A)"
proof -
  let ?s = "(set_ptr prevq (hptr s q) s)\<lparr>freep := prevq\<rparr>"
  note i = heap_invD [OF inv]
  note d = blocks_okD [OF i(1)]
  have qb: "q \<noteq> base s" using q(4,5) d(5) by auto
  have "prevq < q" using d(1) q(2) by (cases rule: succ_in_cases) (use q(3) qb d(13) in auto)
  note rem = succ_in_remove [OF d(1) q(2,1,3) this]
  have "Min F \<noteq> q" using d(13) qb by simp
  note rem = rem [OF this]
  have ptr: "\<forall>b \<in> F - {q}. hptr ?s b = succ_in (F - {q}) b" using d(7) q(1,2) rem by auto
  have u: "F - {q} \<union> insert q A = F \<union> A" using q(1) by blast
  have "blocks_ok ?s (F - {q}) (insert q A)"
    using i(1) ptr qb d(6) q(1) unfolding blocks_ok_def u by auto
  moreover have "adjacent_in ?s (F - {q}) {}" using i(2) by (auto simp: adjacent_in_def)
  ultimately show "allocated s A q ?s n (F - {q})"
    using q d(6) \<open>prevq < q\<close> by (auto simp: allocated_def heap_inv_def coalesced_adjacent)
  show "covers ?s (F - {q} \<union> insert q A) = covers s (F \<union> A)" unfolding u by (simp add: covers_def span_def)
qed

lemma split_ok:
  assumes inv: "heap_inv s F A" and q: "q \<in> F" "prevq \<in> F" "0 < n" "n < hsize s q"
  shows "allocated s A (q + (hsize s q - n)) ((set_size (q + (hsize s q - n)) n (set_size q (hsize s q - n) s))\<lparr>freep := prevq\<rparr>) n F"
    "covers ((set_size (q + (hsize s q - n)) n (set_size q (hsize s q - n) s))\<lparr>freep := prevq\<rparr>) (F \<union> insert (q + (hsize s q - n)) A) = covers s (F \<union> A)"
proof -
  define r where "r = q + (hsize s q - n)"
  let ?s = "(set_size r n (set_size q (hsize s q - n) s))\<lparr>freep := prevq\<rparr>"
  note i = heap_invD [OF inv]
  note d = blocks_okD [OF i(1)]
  have r: "q < r" "r + n = q + hsize s q" using q(3,4) by (auto simp: r_def)
  have nr: "r \<notin> F \<union> A" using d(11) [of q r] q(1,3) r by auto
  have sz: "hsize ?s b = (if b = r then n else if b = q then r - q else hsize s b)" for b using r by (simp add: r_def)
  have qb: "q \<noteq> base s" using q(4) d(5) by auto
  have after: "b \<le> q \<or> r + n \<le> b" if "b \<in> F \<union> A" for b using d(11) [of q b] that q(1) r(2) by (metis UnI1 linorder_not_less)
  have before: "b + hsize s b \<le> q" if "b \<in> F \<union> A" "b < r" "b \<noteq> q" for b using d(11) [of b q] after [OF that(1)] that q(1) r by auto
  have rb: "base s < r" "r + n \<le> break_at s" "r \<le> break_at s" using d(9,10) [of q] q(1) r qb by auto
  have rng: "\<forall>b \<in> F \<union> insert r A. b \<noteq> base s \<longrightarrow> base s < b \<and> 0 < hsize ?s b \<and> b + hsize ?s b \<le> break_at s"
    using d(9,10) q(1,3) r rb unfolding sz by auto
  have dis: "\<forall>a \<in> F \<union> insert r A. \<forall>b \<in> F \<union> insert r A. a < b \<longrightarrow> a + hsize ?s a \<le> b"
  proof (intro ballI impI)
    fix a b assume h: "a \<in> F \<union> insert r A" "b \<in> F \<union> insert r A" "a < b"
    show "a + hsize ?s a \<le> b"
      using h d(11) [of a b] after [of a] after [of b] before [of a] nr q(1) r unfolding sz by (auto split: if_splits)
  qed
  have "blocks_ok ?s F (insert r A)"
    using i(1) rng dis nr d(3,5,6) qb by (auto simp: blocks_ok_def)
  moreover have "adjacent_in ?s F {}" using i(2) nr r qb unfolding adjacent_in_def sz by auto
  ultimately show "allocated s A r ?s n F" using q(2) nr d(6) q(1) by (auto simp: allocated_def heap_inv_def coalesced_adjacent)
  have "span ?s b = (if b = r then {r..<r + n} else if b = q then {q..<r} else span s b)" for b using r by (auto simp: span_def sz)
  moreover have "span s q = {q..<r} \<union> {r..<r + n}" using r by (auto simp: span_def)
  ultimately show "covers ?s (F \<union> insert r A) = covers s (F \<union> A)" using nr q(1) by (auto simp: covers_def split: if_splits)
qed

lemma take_block_ok:
  assumes inv: "heap_inv s F A" and q: "q \<in> F" "prevq \<in> F" "succ_in F prevq = q" "0 < n" "n \<le> hsize s q"
  shows "\<exists>r s' F'. take_block n prevq q s = (r + 1, s') \<and> allocated s A r s' n F' \<and> covers s' (F' \<union> insert r A) = covers s (F \<union> A) \<and>
    break_at s' = break_at s"
proof (cases "hsize s q = n")
  case True
  then show ?thesis using unlink_ok [OF inv q(1-3) _ q(4)]
    by (intro exI [of _ q] exI [of _ "(set_ptr prevq (hptr s q) s)\<lparr>freep := prevq\<rparr>"] exI [of _ "F - {q}"]) (simp add: take_block_def)
next
  case False
  then show ?thesis using split_ok [OF inv q(1,2,4)] q(5) by (auto simp: take_block_def Let_def)
qed

text \<open>The blocks from \<open>p\<close> to \<open>f\<close> around the list.\<close>

definition path_set :: "nat set \<Rightarrow> nat \<Rightarrow> nat \<Rightarrow> nat set" where
  "path_set F p f = (if p \<le> f then {x \<in> F. p \<le> x \<and> x \<le> f} else {x \<in> F. p \<le> x \<or> x \<le> f})"

lemma path_set_step:
  assumes "finite F" "p \<in> F" "f \<in> F" "p \<noteq> f"
  shows "path_set F p f \<subseteq> insert p (path_set F (succ_in F p) f)"
  using assms(1,2)
proof (cases rule: succ_in_cases)
  case up
  then show ?thesis using assms by (auto simp: path_set_def split: if_splits)
next
  case wrap
  have "Min F \<le> f" "\<forall>x \<in> F. Min F \<le> x" using assms by (auto intro: Min_le)
  then show ?thesis using wrap assms by (auto simp: path_set_def split: if_splits)
qed

lemma path_set_all:
  assumes "finite F" "f \<in> F"
  shows "path_set F (succ_in F f) f = F"
  using assms
proof (cases rule: succ_in_cases)
  case up
  then show ?thesis by (auto simp: path_set_def)
next
  case wrap
  have "\<forall>x \<in> F. Min F \<le> x" using assms by (auto intro: Min_le)
  then show ?thesis using wrap assms by (auto simp: path_set_def)
qed

definition more_then :: "(u32 \<Rightarrow> nat \<Rightarrow> nat option) \<Rightarrow> nat \<Rightarrow> heap \<Rightarrow> (nat \<times> heap) option" where
  "more_then sbrk n s = (case morecore sbrk n s of None \<Rightarrow> None
     | Some (p, s) \<Rightarrow> if p = 0 then Some (0, s) else malloc_loop sbrk n p (hptr s p) s)"

lemma malloc_scan:
  assumes inv: "heap_inv s F A"
  shows "p \<in> F \<Longrightarrow> prevp \<in> F \<Longrightarrow> succ_in F prevp = p \<Longrightarrow>
    (\<exists>q prevq. q \<in> F \<and> prevq \<in> F \<and> succ_in F prevq = q \<and> n \<le> hsize s q \<and> malloc_loop sbrk n prevp p s = Some (take_block n prevq q s)) \<or>
    ((\<forall>x \<in> path_set F p (freep s). hsize s x < n) \<and> malloc_loop sbrk n prevp p s = more_then sbrk n s)"
proof (induction "steps F p (freep s)" arbitrary: p prevp rule: less_induct)
  case less
  note i = heap_invD [OF inv]
  note d = blocks_okD [OF i(1)]
  have eq: "malloc_loop sbrk n prevp p s = (if hsize s p \<ge> n then Some (take_block n prevp p s)
      else if p = freep s then more_then sbrk n s else malloc_loop sbrk n p (succ_in F p) s)"
    using d(7) [OF less.prems(1)] by (subst malloc_loop.simps) (simp add: more_then_def)
  show ?case
  proof (cases "n \<le> hsize s p \<or> p = freep s")
    case True
    then show ?thesis using less.prems eq by (cases "n \<le> hsize s p") (auto simp: path_set_def)
  next
    case False
    have "steps F (succ_in F p) (freep s) < steps F p (freep s)" using steps_decrease [OF d(1) less.prems(1) i(3)] False by simp
    from less.hyps [OF this succ_in_F [OF d(1) less.prems(1)] less.prems(1) refl]
    show ?thesis using False eq path_set_step [OF d(1) less.prems(1) i(3)] by (auto simp: not_le)
  qed
qed

text \<open>
  What malloc relies on of sbrk: memory that it adds for a request of less than 2 GB starts at or above
  the old break and lies in the address space.
\<close>

definition sbrk_ok :: "(u32 \<Rightarrow> nat \<Rightarrow> nat option) \<Rightarrow> bool" where
  "sbrk_ok sbrk \<longleftrightarrow> (\<forall>n b a. n < 2 ^ 31 \<longrightarrow> sbrk n b = Some a \<longrightarrow> b \<le> a \<and> a + unat n div 8 < 2 ^ 29)"

lemma unat_units: "nu < 2 ^ 28 \<Longrightarrow> unat (of_nat nu * 8 :: u32) = nu * 8"
  by (simp add: unat_word_ariths(2) unat_of_nat take_bit_nat_eq_self)

lemma new_block:
  assumes inv: "heap_inv s F A" and hp: "break_at s \<le> hp" "hp + nu < 2 ^ 29" "0 < nu"
  shows "heap_inv (set_size hp nu (s\<lparr>break_at := hp + nu\<rparr>)) F (insert hp A)" "hp \<notin> A" "hp \<notin> F"
proof -
  note i = heap_invD [OF inv]
  note d = blocks_okD [OF i(1)]
  let ?s = "set_size hp nu (s\<lparr>break_at := hp + nu\<rparr>)"
  have bb: "base s < break_at s" using i(1) by (simp add: blocks_ok_def)
  have lt: "b < break_at s" if "b \<in> F \<union> A" for b using d(9,10) [OF that] bb by (cases "b = base s") auto
  then show n: "hp \<notin> A" "hp \<notin> F" using hp(1) by (metis UnI1 UnI2 leD)+
  have sz: "hsize ?s b = (if b = hp then nu else hsize s b)" for b by simp
  have r: "\<forall>b \<in> F \<union> insert hp A. b \<noteq> base s \<longrightarrow> base s < b \<and> 0 < hsize ?s b \<and> b + hsize ?s b \<le> hp + nu"
    using d(9,10) n hp bb unfolding sz by (auto simp: order_trans [OF d(10)])
  have x: "\<forall>a \<in> F \<union> insert hp A. \<forall>b \<in> F \<union> insert hp A. a < b \<longrightarrow> a + hsize ?s a \<le> b"
  proof (intro ballI impI)
    fix a b assume h: "a \<in> F \<union> insert hp A" "b \<in> F \<union> insert hp A" "a < b"
    show "a + hsize ?s a \<le> b"
      using h d(10) [of a] d(11) [of a b] lt [of a] lt [of b] hp(1) unfolding sz by (auto split: if_splits)
  qed
  have "blocks_ok ?s F (insert hp A)" using i(1) r x n hp by (auto simp: blocks_ok_def)
  moreover have "adjacent_in ?s F {}" using i(2) n(2) by (auto simp: adjacent_in_def)
  ultimately show "heap_inv ?s F (insert hp A)" using i(3) by (simp add: heap_inv_def coalesced_adjacent)
qed

lemma morecore_ok:
  assumes inv: "heap_inv s F A" and sb: "sbrk_ok sbrk" and n: "n < 2 ^ 28"
  shows "morecore sbrk n s = Some (0, s) \<or>
    (\<exists>s' F'. morecore sbrk n s = Some (freep s', s') \<and> heap_inv s' F' A \<and> base s' = base s \<and> (\<forall>a \<in> A. hsize s' a = hsize s a) \<and>
      covers s (F \<union> A) \<subseteq> covers s' (F' \<union> A) \<and> (\<exists>x \<in> F'. n \<le> hsize s' x))"
proof -
  define nu where "nu = (if n < 4096 then 4096 else n)"
  have nu: "nu < 2 ^ 28" "0 < nu" "n \<le> nu" using n by (auto simp: nu_def)
  show ?thesis
  proof (cases "sbrk (of_nat nu * 8) (break_at s)")
    case None
    then show ?thesis by (simp add: morecore_def nu_def [symmetric])
  next
    case (Some hp)
    have "(of_nat nu * 8 :: u32) < 2 ^ 31" using nu(1) by (simp add: word_less_nat_alt unat_units)
    then have hp: "break_at s \<le> hp" "hp + nu < 2 ^ 29" 
      using sb [unfolded sbrk_ok_def, rule_format, of "of_nat nu * 8" "break_at s" hp] Some nu(1) by (simp_all add: unat_units)
    let ?s = "set_size hp nu (s\<lparr>break_at := hp + nu\<rparr>)"
    note nb = new_block [OF inv hp nu(2)]
    from free_keeps [OF nb(1), of hp] nb(2) obtain s' F' where f: "free (hp + 1) ?s = Some s'" "heap_inv s' F' A" "base s' = base s"
      "\<forall>a \<in> A. hsize s' a = hsize ?s a" "covers s' (F' \<union> A) = covers ?s (F \<union> insert hp A)" "\<exists>x \<in> F'. nu \<le> hsize s' x"
      by auto
    have "covers s (F \<union> A) \<subseteq> covers ?s (F \<union> insert hp A)" using nb(2,3) by (auto simp: covers_def span_def)
    then have "\<exists>s' F'. morecore sbrk n s = Some (freep s', s') \<and> heap_inv s' F' A \<and> base s' = base s \<and> (\<forall>a \<in> A. hsize s' a = hsize s a) \<and>
      covers s (F \<union> A) \<subseteq> covers s' (F' \<union> A) \<and> (\<exists>x \<in> F'. n \<le> hsize s' x)"
      using f nb(2) nu(3) Some by (intro exI [of _ s'] exI [of _ F']) (auto simp: morecore_def nu_def [symmetric] intro: order_trans)
    then show ?thesis by blast
  qed
qed

lemma malloc_loop_ok:
  assumes inv: "heap_inv s F A" and sb: "sbrk_ok sbrk" and n: "0 < n" "n < 2 ^ 28"
  shows "malloc_loop sbrk n (freep s) (hptr s (freep s)) s = Some (0, s) \<or>
    (\<exists>r s' F'. malloc_loop sbrk n (freep s) (hptr s (freep s)) s = Some (r + 1, s') \<and> allocated s A r s' n F' \<and>
      covers s (F \<union> A) \<subseteq> covers s' (F' \<union> insert r A))"
proof -
  have found: "\<exists>r s' F'. malloc_loop sbrk n (freep t) (hptr t (freep t)) t = Some (r + 1, s') \<and> allocated t A r s' n F' \<and>
      covers s' (F' \<union> insert r A) = covers t (G \<union> A) \<or> (\<forall>x \<in> G. hsize t x < n) \<and>
      malloc_loop sbrk n (freep t) (hptr t (freep t)) t = more_then sbrk n t" if t: "heap_inv t G A" for t G
  proof -
    note i = heap_invD [OF t]
    note d = blocks_okD [OF i(1)]
    have h: "hptr t (freep t) = succ_in G (freep t)" using d(7) i(3) by simp
    from malloc_scan [OF t succ_in_F [OF d(1) i(3)] i(3) refl, of n sbrk] show ?thesis
      unfolding h path_set_all [OF d(1) i(3)] using take_block_ok [OF t _ _ _ n(1)] by metis
  qed
  from found [OF inv] consider (hit) "\<exists>r s' F'. malloc_loop sbrk n (freep s) (hptr s (freep s)) s = Some (r + 1, s') \<and>
      allocated s A r s' n F' \<and> covers s' (F' \<union> insert r A) = covers s (F \<union> A)"
    | (miss) "malloc_loop sbrk n (freep s) (hptr s (freep s)) s = more_then sbrk n s" by blast
  then show ?thesis
  proof cases
    case hit
    then show ?thesis by blast
  next
    case miss
    from morecore_ok [OF inv sb n(2)] show ?thesis
    proof (elim disjE exE conjE)
      assume "morecore sbrk n s = Some (0, s)"
      then show ?thesis using miss by (simp add: more_then_def)
    next
      fix t G
      assume m: "morecore sbrk n s = Some (freep t, t)" "heap_inv t G A" "base t = base s" "\<forall>a \<in> A. hsize t a = hsize s a"
        "covers s (F \<union> A) \<subseteq> covers t (G \<union> A)" "\<exists>x \<in> G. n \<le> hsize t x"
      note i = heap_invD [OF m(2)]
      have "freep t \<noteq> 0" using blocks_okD(4,8) [OF i(1)] i(3) by (metis UnI1 leD)
      then have "malloc_loop sbrk n (freep s) (hptr s (freep s)) s = malloc_loop sbrk n (freep t) (hptr t (freep t)) t"
        using miss m(1) by (simp add: more_then_def)
      moreover obtain r s' F' where "malloc_loop sbrk n (freep t) (hptr t (freep t)) t = Some (r + 1, s')" "allocated t A r s' n F'"
        "covers s' (F' \<union> insert r A) = covers t (G \<union> A)" using found [OF m(2)] m(6) by (metis not_le)
      ultimately show ?thesis using m(3,4,5) by (auto simp: allocated_def)
    qed
  qed
qed

section \<open>Clients\<close>

text \<open>
  The largest request whose units make a positive size for sbrk, whose argument is an int; a larger one makes
  morecore shrink the process or, close to 4 GB, wraps around.
\<close>

abbreviation (input) MAXREQ :: u32 where "MAXREQ \<equiv> 0x7FFFFFF0"

text \<open>
  A program that calls malloc, with requests up to this size, and free, with the headers of the blocks it has
  in use.
\<close>

inductive heap_step :: "(u32 \<Rightarrow> nat \<Rightarrow> nat option) \<Rightarrow> heap \<times> nat set \<Rightarrow> heap \<times> nat set \<Rightarrow> bool" for sbrk where
  got: "nbytes \<le> MAXREQ \<Longrightarrow> malloc sbrk nbytes s = Some (p, t) \<Longrightarrow> p \<noteq> 0 \<Longrightarrow> heap_step sbrk (s, A) (t, insert (p - 1) A)"
| refused: "nbytes \<le> MAXREQ \<Longrightarrow> malloc sbrk nbytes s = Some (0, t) \<Longrightarrow> heap_step sbrk (s, A) (t, A)"
| freed: "a \<in> A \<Longrightarrow> free (a + 1) s = Some t \<Longrightarrow> heap_step sbrk (s, A) (t, A - {a})"

inductive heap_run :: "(u32 \<Rightarrow> nat \<Rightarrow> nat option) \<Rightarrow> heap \<times> nat set \<Rightarrow> heap \<times> nat set \<Rightarrow> bool" for sbrk where
  start: "heap_run sbrk c c"
| step: "heap_run sbrk c d \<Longrightarrow> heap_step sbrk d e \<Longrightarrow> heap_run sbrk c e"

definition fresh_heap :: "heap \<Rightarrow> bool" where
  "fresh_heap s \<longleftrightarrow> freep s = 0 \<and> 0 < base s \<and> base s < break_at s \<and> break_at s < 2 ^ 29"

definition init_heap :: "heap \<Rightarrow> heap" where
  "init_heap s = (if freep s = 0 then set_size (base s) 0 (set_ptr (base s) (base s) (s\<lparr>freep := base s\<rparr>)) else s)"

definition heap_ok :: "heap \<Rightarrow> nat set \<Rightarrow> bool" where
  "heap_ok s A \<longleftrightarrow> (\<exists>F. heap_inv (init_heap s) F A) \<and> (freep s = 0 \<longrightarrow> A = {})"

lemma init_heap_inv: "fresh_heap s \<Longrightarrow> heap_inv (init_heap s) {base s} {}"
  by (auto simp: fresh_heap_def heap_inv_def blocks_ok_def coalesced_def init_heap_def succ_in_def)

lemma heap_inv_ok: "heap_inv s F A \<Longrightarrow> heap_ok s A"
proof -
  assume h: "heap_inv s F A"
  have "freep s \<noteq> 0" using blocks_okD(4,8) [OF heap_invD(1) [OF h]] heap_invD(3) [OF h] by (metis UnI1 leD)
  then show ?thesis using h by (auto simp: heap_ok_def init_heap_def)
qed

lemma nunits_bounds:
  assumes "nbytes \<le> MAXREQ"
  shows "0 < nunits_of nbytes" "nunits_of nbytes < 2 ^ 28" "unat nbytes + 8 \<le> 8 * nunits_of nbytes"
proof -
  have b: "unat nbytes \<le> 0x7FFFFFF0" using assms by (simp add: word_le_nat_alt)
  then have s: "unat (nbytes + 7) = unat nbytes + 7" by (subst unat_add_lem [THEN iffD1]) simp_all
  have d: "unat ((nbytes + 7) div 8) = (unat nbytes + 7) div 8" by (simp add: unat_div s)
  then have "unat ((nbytes + 7) div 8 + 1) = (unat nbytes + 7) div 8 + 1" using b by (subst unat_add_lem [THEN iffD1]) simp_all
  moreover have "nbytes + 8 - 1 = nbytes + 7" by simp
  ultimately have "nunits_of nbytes = (unat nbytes + 7) div 8 + 1" by (simp only: nunits_of_def)
  then show "0 < nunits_of nbytes" "nunits_of nbytes < 2 ^ 28" "unat nbytes + 8 \<le> 8 * nunits_of nbytes" using b by simp_all
qed

lemma malloc_ok:
  assumes ok: "heap_ok s A" and sb: "sbrk_ok sbrk" and n: "0 < nunits_of nbytes" "nunits_of nbytes < 2 ^ 28"
  shows "malloc sbrk nbytes s = Some (0, init_heap s) \<and> heap_ok (init_heap s) A \<or>
    (\<exists>r s'. malloc sbrk nbytes s = Some (r + 1, s') \<and> heap_ok s' (insert r A) \<and> r \<notin> A \<and> hsize s' r = nunits_of nbytes \<and>
      (\<forall>a \<in> A. hsize s' a = hsize s a))"
proof -
  obtain F where F: "heap_inv (init_heap s) F A" "freep s = 0 \<Longrightarrow> A = {}" using ok by (auto simp: heap_ok_def)
  have e: "malloc sbrk nbytes s = malloc_loop sbrk (nunits_of nbytes) (freep (init_heap s)) (hptr (init_heap s) (freep (init_heap s))) (init_heap s)"
    by (simp add: malloc_def init_heap_def Let_def)
  have "\<forall>a \<in> A. hsize (init_heap s) a = hsize s a" using F(2) by (auto simp: init_heap_def)
  then show ?thesis
    using malloc_loop_ok [OF F(1) sb n] heap_inv_ok [OF F(1)] heap_inv_ok unfolding e by (fastforce simp: allocated_def)
qed

lemma free_ok:
  assumes "heap_ok s A" "a \<in> A"
  shows "\<exists>t. free (a + 1) s = Some t \<and> heap_ok t (A - {a})"
proof -
  obtain F where "heap_inv s F A" using assms by (auto simp: heap_ok_def init_heap_def split: if_splits)
  from free_keeps [OF this assms(2)] show ?thesis using heap_inv_ok by blast
qed

lemma heap_step_ok: "heap_step sbrk c d \<Longrightarrow> sbrk_ok sbrk \<Longrightarrow> heap_ok (fst c) (snd c) \<Longrightarrow> heap_ok (fst d) (snd d)"
proof (induction rule: heap_step.induct)
  case (got nbytes s p t A)
  then show ?case using malloc_ok [of s A sbrk nbytes] nunits_bounds(1,2) [of nbytes] by auto
next
  case (refused nbytes s t A)
  then show ?case using malloc_ok [of s A sbrk nbytes] nunits_bounds(1,2) [of nbytes] by auto
next
  case (freed a A s t)
  then show ?case using free_ok [of s A a] by auto
qed

lemma heap_run_ok:
  assumes "heap_run sbrk (s, {}) (t, A)" "fresh_heap s" "sbrk_ok sbrk"
  shows "heap_ok t A"
proof -
  have "heap_run sbrk c d \<Longrightarrow> heap_ok (fst c) (snd c) \<Longrightarrow> heap_ok (fst d) (snd d)" for c d
    by (induction rule: heap_run.induct) (auto intro: heap_step_ok [OF _ assms(3)])
  from this [OF assms(1)] show ?thesis using init_heap_inv [OF assms(2)] by (auto simp: heap_ok_def)
qed

lemma heap_ok_disjoint:
  assumes "heap_ok s A" "a \<in> A" "b \<in> A" "a \<noteq> b"
  shows "span s a \<inter> span s b = {}"
proof -
  obtain F where F: "heap_inv s F A" using assms by (auto simp: heap_ok_def init_heap_def split: if_splits)
  note d = blocks_okD(11) [OF heap_invD(1) [OF F]]
  from d [of a b] d [of b a] assms show ?thesis by (auto simp: span_def neq_iff)
qed

text \<open>
  C10. The user-level allocator is safe for every program that requests at most 0x7FFFFFF0 bytes at a time,
  the largest size for which sbrk is not asked for a negative one, and whose memory only malloc extends: from
  a fresh heap, whatever sequence of such calls of malloc and of calls of free for blocks in use it makes, both
  always return, and no two of the blocks it has in use overlap.
\<close>

theorem malloc_free_safe:
  assumes "fresh_heap s" "sbrk_ok sbrk" "heap_run sbrk (s, {}) (t, A)"
  shows "(\<forall>a \<in> A. \<forall>b \<in> A. a \<noteq> b \<longrightarrow> span t a \<inter> span t b = {}) \<and>
    (\<forall>nbytes \<le> MAXREQ. \<exists>r. malloc sbrk nbytes t = Some r) \<and> (\<forall>a \<in> A. \<exists>u. free (a + 1) t = Some u)"
proof -
  have ok: "heap_ok t A" by (rule heap_run_ok [OF assms(3,1,2)])
  have "\<exists>r. malloc sbrk nbytes t = Some r" if "nbytes \<le> MAXREQ" for nbytes
    using malloc_ok [OF ok assms(2) nunits_bounds(1,2) [OF that]] by blast
  then show ?thesis using heap_ok_disjoint [OF ok] free_ok [OF ok] by blast
qed

text \<open>
  C20. A block that malloc returns for a request of at most 0x7FFFFFF0 bytes has room for the bytes asked for
  behind its header, overlaps none of the blocks in use, and leaves their sizes as they were; it can be freed
  again. This holds after every sequence of such requests and of calls of free for blocks in use.
\<close>

theorem malloc_result:
  assumes "fresh_heap s" "sbrk_ok sbrk" "heap_run sbrk (s, {}) (t, A)" "nbytes \<le> MAXREQ" "malloc sbrk nbytes t = Some (p, u)" "p \<noteq> 0"
  shows "p - 1 \<notin> A \<and> unat nbytes \<le> 8 * (hsize u (p - 1) - 1) \<and> (\<forall>a \<in> A. span u a \<inter> span u (p - 1) = {} \<and> span u a = span t a) \<and>
    (\<exists>v. free p u = Some v)"
proof -
  have ok: "heap_ok t A" by (rule heap_run_ok [OF assms(3,1,2)])
  note n = nunits_bounds [OF assms(4)]
  from malloc_ok [OF ok assms(2) n(1,2)] assms(5,6) obtain r where r: "p = r + 1" "heap_ok u (insert r A)" "r \<notin> A" "hsize u r = nunits_of nbytes"
    "\<forall>a \<in> A. hsize u a = hsize t a" by auto
  have "\<forall>a \<in> A. span u a \<inter> span u r = {}" using heap_ok_disjoint [OF r(2)] r(3) by blast
  moreover have "\<forall>a \<in> A. span u a = span t a" using r(5) by (simp add: span_def)
  moreover have "unat nbytes \<le> 8 * (hsize u r - 1)" using n(3) r(4) by simp
  moreover have "\<exists>v. free (r + 1) u = Some v" using free_ok [OF r(2), of r] by blast
  ultimately show ?thesis using r(1,3) by simp
qed

text \<open>
  C37. A request of the last seven sizes below 4 GB wraps around in the computation of the number of
  units: malloc does not refuse it but returns a block that is a header and nothing else.
\<close>

theorem malloc_wraps:
  assumes "fresh_heap s" "sbrk_ok sbrk" "heap_run sbrk (s, {}) (t, A)" "nbytes \<ge> 0xFFFFFFF9" "malloc sbrk nbytes t = Some (p, u)" "p \<noteq> 0"
  shows "hsize u (p - 1) = 1"
proof -
  have ok: "heap_ok t A" by (rule heap_run_ok [OF assms(3,1,2)])
  have ub: "unat nbytes < 2 ^ 32" using unsigned_less [of nbytes, where ?'a = nat] by simp
  have b: "4294967289 \<le> unat nbytes" using assms(4) by (simp add: word_le_nat_alt)
  have "unat (nbytes + 7) = (unat nbytes + 7) mod 2 ^ 32" by (simp add: unat_word_ariths)
  also have "\<dots> = unat nbytes + 7 - 2 ^ 32" using b ub by (simp add: mod_if)
  finally have "unat (nbytes + 7) < 8" using ub by simp
  then have "unat ((nbytes + 7) div 8) = 0" by (simp add: unat_div)
  then have "(nbytes + 7) div 8 = 0" by (simp only: unat_eq_0)
  moreover have "nbytes + 8 - 1 = nbytes + 7" by simp
  ultimately have n: "nunits_of nbytes = 1" by (simp only: nunits_of_def) simp
  then show ?thesis using malloc_ok [OF ok assms(2), of nbytes] assms(5,6) by auto
qed

section \<open>A concrete heap\<close>

definition heap0 :: heap where
  "heap0 = \<lparr>base = 100, hptr = (\<lambda>_. 0), hsize = (\<lambda>_. 0), freep = 0, break_at = 1000\<rparr>"

definition sbrk0 :: "u32 \<Rightarrow> nat \<Rightarrow> nat option" where
  "sbrk0 n b = (if b + unat n div 8 < 2 ^ 29 then Some b else None)"

lemma heap0_fresh: "fresh_heap heap0" "sbrk_ok sbrk0"
  by (auto simp: fresh_heap_def heap0_def sbrk_ok_def sbrk0_def split: if_splits)

lemma heap0_more:
  assumes "base s = 100" "hptr s 100 = 100" "hsize s 100 = 0" "freep s = 100" "break_at s = 1000"
    and n: "n < 4096"
  shows "\<exists>t. morecore sbrk0 n s = Some (100, t) \<and> hptr t 100 = 1000 \<and> hsize t 1000 = 4096"
proof -
  have "free_find (set_size 1000 4096 (s\<lparr>break_at := 5096\<rparr>)) 1000 100 = Some 100"
    using assms by (subst free_find.simps) simp
  then show ?thesis using assms n by (simp add: morecore_def sbrk0_def free_def Let_def)
qed

lemma heap0_malloc:
  assumes "nunits_of nbytes = n" and n: "0 < n" "n < 4096"
  shows "\<exists>t. malloc sbrk0 nbytes heap0 = Some (5096 - n + 1, t)"
proof -
  define s where "s = set_size 100 0 (set_ptr 100 100 (heap0\<lparr>freep := 100\<rparr>))"
  have s: "base s = 100" "hptr s 100 = 100" "hsize s 100 = 0" "freep s = 100" "break_at s = 1000" by (simp_all add: s_def heap0_def)
  obtain t where t: "morecore sbrk0 n s = Some (100, t)" "hptr t 100 = 1000" "hsize t 1000 = 4096" using heap0_more [OF s n(2)] by blast
  have "malloc_loop sbrk0 n 100 100 s = malloc_loop sbrk0 n 100 1000 t" using s t n by (subst malloc_loop.simps) simp
  also have "\<dots> = Some (take_block n 100 1000 t)" using t n by (subst malloc_loop.simps) simp
  finally have "malloc sbrk0 nbytes heap0 = Some (take_block n 100 1000 t)"
    using assms s by (simp add: malloc_def heap0_def s_def)
  then show ?thesis using t n by (simp add: take_block_def)
qed

lemma heap0_run: "\<exists>t. malloc sbrk0 10 heap0 = Some (5094, t) \<and> heap_run sbrk0 (heap0, {}) (t, {5093})"
proof -
  have "nunits_of 10 = 3" by code_simp
  from heap0_malloc [OF this] obtain t where t: "malloc sbrk0 10 heap0 = Some (5094, t)" by auto
  have "heap_step sbrk0 (heap0, {}) (t, insert (5094 - 1) {})" by (rule heap_step.got [OF _ t]) simp_all
  then show ?thesis using t heap_run.step [OF heap_run.start] by auto
qed

theorem malloc_free_safe_witness:
  "\<exists>t. heap_run sbrk0 (heap0, {}) (t, {5093}) \<and> (\<exists>u. free 5094 t = Some u) \<and> (\<exists>r. malloc sbrk0 1000 t = Some r)"
proof -
  obtain t where t: "heap_run sbrk0 (heap0, {}) (t, {5093})" using heap0_run by blast
  have "(1000 :: u32) \<le> MAXREQ" by simp
  with malloc_free_safe [OF heap0_fresh t] t show ?thesis by auto
qed

theorem malloc_result_witness:
  "\<exists>u. malloc sbrk0 10 heap0 = Some (5094, u) \<and> 10 \<le> 8 * (hsize u 5093 - 1)"
proof -
  obtain t where t: "malloc sbrk0 10 heap0 = Some (5094, t)" using heap0_run by blast
  from malloc_result [OF heap0_fresh heap_run.start _ t] t show ?thesis by auto
qed

theorem malloc_wraps_witness:
  "\<exists>u. malloc sbrk0 0xFFFFFFFF heap0 = Some (5096, u) \<and> hsize u 5095 = 1"
proof -
  have "nunits_of 0xFFFFFFFF = 1" by code_simp
  from heap0_malloc [OF this] obtain u where u: "malloc sbrk0 0xFFFFFFFF heap0 = Some (5096, u)" by auto
  from malloc_wraps [OF heap0_fresh heap_run.start _ u] u show ?thesis by auto
qed

end
