(* ===== verification/Block.thy ===== *)
theory Block
  imports Held Inode
begin

text \<open>
  Blocks inside a transaction: reading a block, changing it through the log and releasing it, as the code
  of fs.c does, and on top of that the allocation of blocks.
\<close>

unbundle bit_operations_syntax

section \<open>Room in the cache and in the log\<close>

text \<open>
  A state in which \<open>k\<close> more blocks may be logged: the buffers of \<open>B\<close> are held and no others, the log has room
  for \<open>k\<close> more blocks and the cache for \<open>k\<close> more dirty buffers besides the two that fs.c holds at most. When
  \<open>k\<close> is not 0 the state is inside a transaction.
\<close>

definition room :: "nat set \<Rightarrow> nat \<Rightarrow> 'a klog_scheme \<Rightarrow> bool" where
  "room B k s \<longleftrightarrow> bio_inv s \<and> havedisk1 s \<and> curproc s \<noteq> None \<and>
     (\<forall>b < NBUF. b \<notin> B \<longrightarrow> \<not> sl_locked (b_lock (bufs s b)) \<and> b_refcnt (bufs s b) = 0) \<and>
     k + 2 \<le> card (clean_bufs s) \<and> 0 \<le> lh_n s \<and>
     (k = 0 \<or> 1 \<le> outstanding s \<and> lh_n s + int k \<le> int LOGSIZE \<and> lh_n s + int k < log_size s)"

text \<open>What block operations leave alone: everything but the buffers, the log header and process states.\<close>

definition same_fs :: "'a klog_scheme \<Rightarrow> 'a klog_scheme \<Rightarrow> bool" where
  "same_fs s t \<longleftrightarrow> same_procs s t \<and> disk t = disk s \<and> klog.more t = klog.more s"

lemma same_fs_refl [simp]: "same_fs s s"
  by (simp add: same_fs_def)

lemma same_fs_trans [trans]: "same_fs s t \<Longrightarrow> same_fs t u \<Longrightarrow> same_fs s u"
  by (auto simp: same_fs_def intro: same_procs_trans)

lemma same_fs_sel:
  fixes s t :: "'a fs_scheme"
  assumes "same_fs s t"
  shows "sb t = sb s" "icache t = icache s" "fs.more t = fs.more s"
  using assms by (cases s; cases t; simp add: same_fs_def)+

lemma bio_frame_log:
  fixes s t :: "'a klog_scheme"
  assumes "bio_frame s t"
  shows "lh_n t = lh_n s" "log_size t = log_size s" "outstanding t = outstanding s" "klog.more t = klog.more s"
  using assms by (cases s; cases t; simp add: bio_frame_def)+

lemma same_fs_frame: "bio_frame s t \<Longrightarrow> disk t = disk s \<Longrightarrow> same_fs s t"
  using bio_frame_log [of s t] by (simp add: same_fs_def bio_frame_def)

lemma my_lock_same: "same_procs s t \<Longrightarrow> my_lock s lk \<Longrightarrow> my_lock t lk"
  by (auto simp: my_lock_def same_procs_sel)

lemma held_same:
  assumes "held s m c" "bufs t c = bufs s c" "same_fs s t"
  shows "held t m c"
  using assms my_lock_same [of s t] by (auto simp: held_def cached_def same_fs_def)

lemma ready_mono: "room B k s \<Longrightarrow> j \<le> k \<Longrightarrow> room B j s"
  by (auto simp: room_def)

lemma ready_kept:
  assumes "room A k s" "bio_inv t" "bio_frame s t"
    and "\<And>b. b < NBUF \<Longrightarrow> b \<notin> B \<Longrightarrow> \<not> sl_locked (b_lock (bufs t b)) \<and> b_refcnt (bufs t b) = 0"
    and "\<And>b. b < NBUF \<Longrightarrow> bit (b_flags (bufs t b)) 2 \<Longrightarrow> bit (b_flags (bufs s b)) 2"
  shows "room B k t"
proof -
  have "clean_bufs s \<subseteq> clean_bufs t" using assms(5) by (auto simp: clean_bufs_def)
  then have "card (clean_bufs s) \<le> card (clean_bufs t)" by (intro card_mono) auto
  then show ?thesis using assms bio_frame_log [OF assms(3)] by (auto simp: room_def bio_frame_def same_procs_def)
qed

section \<open>One block\<close>

lemma bread_ready:
  assumes r: "room B k s" and B: "B \<subseteq> {a}" and n: "n < FSSIZE"
    and nb: "\<And>c. c \<in> B \<Longrightarrow> sl_locked (b_lock (bufs s c)) \<and> b_blockno (bufs s c) \<noteq> n"
  obtains b t where "bread ROOTDEV n s = Ok (b, t)" "room (insert b B) k t" "held t n b" "b \<notin> B"
    "b_data (bufs t b) = view s n" "view t = view s" "\<And>c. c \<noteq> b \<Longrightarrow> bufs t c = bufs s c" "same_fs s t"
proof -
  have inv: "bio_inv s" using r by (simp add: room_def)
  have "\<not> clean_bufs s \<subseteq> {a}" using r card_mono [of "{a}" "clean_bufs s"] by (auto simp: room_def)
  then obtain c where "c \<in> clean_bufs s" "c \<noteq> a" by auto
  then have "available n s" using r B n nb by (fastforce simp: available_def bio_ready_def room_def clean_bufs_def)
  then obtain b t where ok: "bread ROOTDEV n s = Ok (b, t)" using bread_ok by blast
  from bread_spec [OF inv ok] obtain bf where b: "b < NBUF" "bio_frame s t" "bufs t = (bufs s)(b := bf)" "disk t = disk s"
    "\<not> sl_locked (b_lock (bufs s b))" "my_lock t (b_lock bf)" "b_refcnt bf = Suc (b_refcnt (bufs s b))"
    "bit (b_flags bf) 2 = bit (b_flags (bufs s b)) 2" "cached t n b" "b_data bf = view s n"
    "\<not> bit (b_flags bf) 2 \<longrightarrow> b_data bf = disk s ROOTDEV n" "bio_inv t" "view t = view s" .
  have nB: "b \<notin> B" using nb b(5) by blast
  then have "b_refcnt bf = 1" using r b(1,7) by (simp add: room_def)
  then have "held t n b" using b(3,4,6,9,11) by (simp add: held_def)
  moreover have "room (insert b B) k t"
    by (rule ready_kept [OF r b(12,2)]) (use b(3,8) r in \<open>auto simp: room_def split: if_splits\<close>)
  ultimately show thesis using b nB same_fs_frame [OF b(2,4)] by (intro that [OF ok]) auto
qed

lemma brelse_ready:
  assumes r: "room B k s" and x: "held s n x"
  obtains t where "brelse x s = Ok t" "room (B - {x}) k t" "view t = view s"
    "\<And>c. c \<noteq> x \<Longrightarrow> bufs t c = bufs s c" "same_fs s t"
proof -
  have inv: "bio_inv s" and c: "cached s n x" "my_lock s (b_lock (bufs s x))"
    "\<not> bit (b_flags (bufs s x)) 2 \<Longrightarrow> b_data (bufs s x) = disk s ROOTDEV n"
    using r x by (simp_all add: room_def held_def)
  from brelse_spec [OF inv c] obtain t bf where t: "brelse x s = Ok t" "bio_frame s t" "bufs t = (bufs s)(x := bf)"
    "bio_inv t" "\<not> sl_locked (b_lock bf)" "b_refcnt bf = b_refcnt (bufs s x) - 1" "b_flags bf = b_flags (bufs s x)"
    "disk t = disk s" "view t = view s" .
  have "room (B - {x}) k t"
    by (rule ready_kept [OF r t(4,2)]) (use t(3,5-7) x r in \<open>auto simp: room_def held_def split: if_splits\<close>)
  with t same_fs_frame [OF t(2,8)] show thesis by (intro that [OF t(1)]) auto
qed

text \<open>Logging a held block marks it dirty; what readers see does not change by that.\<close>

lemma log_write_state:
  assumes "lh_n s < int LOGSIZE" "lh_n s < log_size s - 1" "1 \<le> outstanding s"
  obtains bl m where "log_write x s = Ok (upd_buf x (\<lambda>bf. bf\<lparr>b_flags := b_flags bf OR B_DIRTY\<rparr>) (s\<lparr>lh_block := bl, lh_n := m\<rparr>))"
    "lh_n s \<le> m" "m \<le> lh_n s + 1"
proof (cases "int (log_index (b_blockno (bufs s x)) s) = lh_n s")
  case True
  show thesis
    by (rule that [of "lh_n s + 1" "(lh_block s)(log_index (b_blockno (bufs s x)) s := b_blockno (bufs s x))"])
      (use assms True in \<open>simp_all add: log_write_def Let_def\<close>)
next
  case False
  show thesis
    by (rule that [of "lh_n s" "(lh_block s)(log_index (b_blockno (bufs s x)) s := b_blockno (bufs s x))"])
      (use assms False in \<open>simp_all add: log_write_def Let_def\<close>)
qed

lemma lh_update_sel [simp]:
  "cached (s\<lparr>lh_block := bl, lh_n := m\<rparr>) = cached s" "view (s\<lparr>lh_block := bl, lh_n := m\<rparr>) = view s"
  "bio_inv (s\<lparr>lh_block := bl, lh_n := m\<rparr>) = bio_inv s" "my_lock (s\<lparr>lh_block := bl, lh_n := m\<rparr>) = my_lock s"
proof -
  show c: "cached (s\<lparr>lh_block := bl, lh_n := m\<rparr>) = cached s" by (simp add: cached_def fun_eq_iff)
  show "view (s\<lparr>lh_block := bl, lh_n := m\<rparr>) = view s" by (simp add: view_def fun_eq_iff c split: option.split)
qed (simp_all add: bio_inv_def my_lock_def fun_eq_iff)

lemma mark_dirty:
  assumes inv: "bio_inv s" and c: "cached s n x" and lk: "my_lock s (b_lock (bufs s x))"
    and t: "t = upd_buf x (\<lambda>bf. bf\<lparr>b_flags := b_flags bf OR B_DIRTY\<rparr>) s"
  shows "bio_inv t" "cached t n x" "my_lock t (b_lock (bufs t x))" "view t = view s" "bit (b_flags (bufs t x)) 2"
proof -
  have x: "x < NBUF" using c by (simp add: cached_def)
  have fl: "bit (b_flags (bufs s x) OR B_DIRTY) j \<longleftrightarrow> bit (b_flags (bufs s x)) j \<or> j = 2" for j
    by (simp add: bit_or_iff bit_buf_flags)
  have bufs: "bufs t = (bufs s)(x := (bufs s x)\<lparr>b_flags := b_flags (bufs s x) OR B_DIRTY\<rparr>)" using t by simp
  show i: "bio_inv t"
    by (rule bio_inv_update [OF inv x bufs])
      (use inv t c x lk bio_inv_uniq [OF inv x] fl in \<open>auto simp: bio_inv_def cached_def my_lock_def\<close>)
  show "cached t n x" and "my_lock t (b_lock (bufs t x))" and "bit (b_flags (bufs t x)) 2"
    using c t lk fl by (simp_all add: cached_def)
  have ct: "cached t m b \<longleftrightarrow> cached s m b" for m b using c fl by (auto simp: cached_def bufs)
  have "view t m = view s m" for m
    by (rule view_cong) (use t ct in \<open>auto simp: bufs\<close>)
  then show "view t = view s" by blast
qed

lemma log_write_ready:
  assumes r: "room B (Suc k) s" and h: "held s n x" "x \<in> B"
  obtains t where "log_write x (upd_buf x (\<lambda>bf. bf\<lparr>b_data := g bf\<rparr>) s) = Ok t" "room B k t" "held t n x"
    "view t = (view s)(n := g (bufs s x))" "\<And>c. c \<noteq> x \<Longrightarrow> bufs t c = bufs s c" "same_fs s t"
proof -
  have inv: "bio_inv s" and c: "cached s n x" "my_lock s (b_lock (bufs s x))" using r h by (simp_all add: room_def held_def)
  define u where "u = upd_buf x (\<lambda>bf. bf\<lparr>b_data := g bf\<rparr>) s"
  note u = set_data [OF inv c u_def]
  have "lh_n u < int LOGSIZE" "lh_n u < log_size u - 1" "1 \<le> outstanding u" using r by (auto simp: room_def u_def upd_buf_def)
  then obtain bl m where w: "log_write x u = Ok (upd_buf x (\<lambda>bf. bf\<lparr>b_flags := b_flags bf OR B_DIRTY\<rparr>) (u\<lparr>lh_block := bl, lh_n := m\<rparr>))"
    "lh_n u \<le> m" "m \<le> lh_n u + 1" by (rule log_write_state)
  define v where "v = u\<lparr>lh_block := bl, lh_n := m\<rparr>"
  define t where "t = upd_buf x (\<lambda>bf. bf\<lparr>b_flags := b_flags bf OR B_DIRTY\<rparr>) v"
  have v: "bio_inv v" "cached v n x" "my_lock v (b_lock (bufs v x))" "view v = view u" using u by (simp_all add: v_def)
  note t = mark_dirty [OF v(1-3) t_def]
  have b: "bufs t = (bufs s)(x := (bufs s x)\<lparr>b_data := g (bufs s x), b_flags := b_flags (bufs s x) OR B_DIRTY\<rparr>)"
    by (simp add: t_def v_def u_def)
  have sel: "lh_n t = m" "log_size t = log_size s" "outstanding t = outstanding s" "havedisk1 t = havedisk1 s"
    "curproc t = curproc s" "lh_n u = lh_n s" by (simp_all add: t_def v_def u_def upd_buf_def)
  have "clean_bufs s \<subseteq> insert x (clean_bufs t)" by (auto simp: clean_bufs_def b)
  then have "card (clean_bufs s) \<le> card (insert x (clean_bufs t))" by (intro card_mono) simp_all
  then have cd: "card (clean_bufs s) \<le> Suc (card (clean_bufs t))" by (simp add: card_insert_if split: if_splits)
  have "\<forall>c < NBUF. c \<notin> B \<longrightarrow> \<not> sl_locked (b_lock (bufs t c)) \<and> b_refcnt (bufs t c) = 0"
    using r h(2) by (simp add: room_def b)
  then have "room B k t" using r t(1) w(2,3) sel cd by (simp add: room_def)
  moreover have "held t n x" using h t by (simp add: held_def b)
  moreover have "same_fs s t"
    by (simp add: same_fs_def t_def v_def u_def upd_buf_def same_procs_cong)
  moreover have "view t = (view s)(n := g (bufs s x))" using t(4) v(4) u(4) by simp
  moreover have "log_write x (upd_buf x (\<lambda>bf. bf\<lparr>b_data := g bf\<rparr>) s) = Ok t"
    using w(1) by (simp only: t_def v_def u_def)
  ultimately show thesis by (intro that [of t]) (simp_all add: b)
qed

text \<open>The pattern of fs.c: read a block, change its data through the log, release it.\<close>

definition edit_block :: "u32 \<Rightarrow> u32 \<Rightarrow> (bytes \<Rightarrow> bytes) \<Rightarrow> 'a klog_scheme \<Rightarrow> 'a klog_scheme res" where
  "edit_block dev n g s =
     bindR (bread dev n s) (\<lambda>(bp, s). bindR (log_write bp (upd_buf bp (\<lambda>bf. bf\<lparr>b_data := g (b_data bf)\<rparr>) s)) (brelse bp))"

lemma edit_block_ready:
  assumes r: "room B (Suc k) s" and B: "B \<subseteq> {a}" and n: "n < FSSIZE"
    and nb: "\<And>c. c \<in> B \<Longrightarrow> sl_locked (b_lock (bufs s c)) \<and> b_blockno (bufs s c) \<noteq> n"
  obtains t where "edit_block ROOTDEV n g s = Ok t" "room B k t" "view t = (view s)(n := g (view s n))"
    "\<And>c. c \<in> B \<Longrightarrow> bufs t c = bufs s c" "same_fs s t"
proof -
  from bread_ready [OF r B n nb] obtain b t where t: "bread ROOTDEV n s = Ok (b, t)" "room (insert b B) (Suc k) t" "held t n b" "b \<notin> B"
    "b_data (bufs t b) = view s n" "view t = view s" "\<And>c. c \<noteq> b \<Longrightarrow> bufs t c = bufs s c" "same_fs s t" by blast
  from log_write_ready [OF t(2,3) insertI1, of "\<lambda>bf. g (b_data bf)"] obtain u
    where u: "log_write b (upd_buf b (\<lambda>bf. bf\<lparr>b_data := g (b_data bf)\<rparr>) t) = Ok u" "room (insert b B) k u" "held u n b"
      "view u = (view t)(n := g (b_data (bufs t b)))" "\<And>c. c \<noteq> b \<Longrightarrow> bufs u c = bufs t c" "same_fs t u" by blast
  from brelse_ready [OF u(2,3)] obtain v where v: "brelse b u = Ok v" "room (insert b B - {b}) k v" "view v = view u"
    "\<And>c. c \<noteq> b \<Longrightarrow> bufs v c = bufs u c" "same_fs u v" by blast
  have "insert b B - {b} = B" using t(4) by auto
  moreover have "same_fs s v" using t(8) u(6) v(5) by (blast intro: same_fs_trans)
  moreover have "bufs v c = bufs s c" if "c \<in> B" for c using that t(4,7) u(5) v(4) by (cases "c = b") simp_all
  ultimately show thesis using t u(1,4) v by (intro that [of v]) (simp_all add: edit_block_def)
qed

text \<open>The same with no other buffer held.\<close>

lemma bread_alone:
  assumes r: "room {} k s" and n: "n < FSSIZE"
  obtains b t where "bread ROOTDEV n s = Ok (b, t)" "room {b} k t" "held t n b" "b_data (bufs t b) = view s n"
    "view t = view s" "same_fs s t"
proof (rule bread_ready [OF r empty_subsetI n])
  fix b t assume "bread ROOTDEV n s = Ok (b, t)" "room (insert b {}) k t" "held t n b" "b_data (bufs t b) = view s n"
    "view t = view s" "same_fs s t"
  then show thesis by (rule that)
qed simp_all

lemma edit_block_alone:
  assumes r: "room {} (Suc k) s" and n: "n < FSSIZE"
  obtains t where "edit_block ROOTDEV n g s = Ok t" "room {} k t" "view t = (view s)(n := g (view s n))" "same_fs s t"
proof (rule edit_block_ready [OF r empty_subsetI n, of g])
  fix t assume "edit_block ROOTDEV n g s = Ok t" "room {} k t" "view t = (view s)(n := g (view s n))" "same_fs s t"
  then show thesis by (rule that)
qed simp_all

end
