(* ===== verification/Layout.thy ===== *)
theory Layout
  imports Inode
begin

text \<open>
  The bytes of a file, from the block addresses of its inode and the blocks of the disk: direct blocks, the
  indirect block, and what writing a block or adding one does to the file. Nothing here depends on who
  writes the blocks.
\<close>

section \<open>The blocks and the bytes of a file\<close>

type_synonym image = "u32 \<Rightarrow> bytes"
type_synonym addrs = "nat \<Rightarrow> u32"

definition fblock :: "image \<Rightarrow> addrs \<Rightarrow> nat \<Rightarrow> u32" where
  "fblock v a k = (if k < NDIRECT then a k else if a NDIRECT = 0 then 0 else ld32 (v (a NDIRECT)) (4 * (k - NDIRECT)))"

text \<open>A byte of the file; a block that was never allocated reads as zeros.\<close>

definition fbyte :: "image \<Rightarrow> addrs \<Rightarrow> nat \<Rightarrow> u8" where
  "fbyte v a off = (if fblock v a (off div BSIZE) = 0 then 0 else v (fblock v a (off div BSIZE)) (off mod BSIZE))"

text \<open>The places that hold an address: the blocks of the file in order, then the indirect block.\<close>

definition slot :: "image \<Rightarrow> addrs \<Rightarrow> nat \<Rightarrow> u32" where
  "slot v a j = (if j = MAXFILE then a NDIRECT else fblock v a j)"

definition fblocks :: "image \<Rightarrow> addrs \<Rightarrow> u32 set" where
  "fblocks v a = slot v a ` {..MAXFILE} - {0}"

definition wf_file :: "image \<Rightarrow> addrs \<Rightarrow> bool" where
  "wf_file v a \<longleftrightarrow> (\<forall>i \<le> MAXFILE. \<forall>j \<le> MAXFILE. slot v a i = slot v a j \<and> slot v a i \<noteq> 0 \<longrightarrow> i = j)"

definition zeroed :: "bytes \<Rightarrow> bool" where
  "zeroed d \<longleftrightarrow> (\<forall>i < BSIZE. d i = 0)"

lemma fblock_in: "k < MAXFILE \<Longrightarrow> fblock v a k \<noteq> 0 \<Longrightarrow> fblock v a k \<in> fblocks v a"
  by (auto simp: fblocks_def slot_def intro!: rev_image_eqI [of k])

lemma indirect_in: "a NDIRECT \<noteq> 0 \<Longrightarrow> a NDIRECT \<in> fblocks v a"
  by (auto simp: fblocks_def slot_def intro!: rev_image_eqI [of MAXFILE])

lemma wf_file_indirect: "wf_file v a \<Longrightarrow> k < MAXFILE \<Longrightarrow> fblock v a k \<noteq> 0 \<Longrightarrow> fblock v a k \<noteq> a NDIRECT"
  unfolding wf_file_def slot_def by (metis le_refl nat_less_le)

lemma wf_file_inj: "wf_file v a \<Longrightarrow> j < MAXFILE \<Longrightarrow> k < MAXFILE \<Longrightarrow> fblock v a k \<noteq> 0 \<Longrightarrow> fblock v a j = fblock v a k \<Longrightarrow> j = k"
  unfolding wf_file_def slot_def by (metis less_imp_le_nat nat_less_le)

lemma ld32_zeroed: "zeroed d \<Longrightarrow> p + 4 \<le> BSIZE \<Longrightarrow> ld32 d p = 0"
  by (simp add: zeroed_def ld32_def)

section \<open>Changes elsewhere\<close>

lemma fblock_cong: "(\<And>b. b \<in> fblocks v a \<Longrightarrow> w b = v b) \<Longrightarrow> fblock w a k = fblock v a k"
  using indirect_in [of a v] by (auto simp: fblock_def)

lemma file_cong:
  assumes "\<And>b. b \<in> fblocks v a \<Longrightarrow> w b = v b"
  shows "fblock w a = fblock v a" "slot w a = slot v a" "fblocks w a = fblocks v a" "wf_file w a = wf_file v a"
proof -
  show f: "fblock w a = fblock v a" using fblock_cong [of v a w] assms by blast
  then show sl: "slot w a = slot v a" by (simp add: slot_def fun_eq_iff)
  show "fblocks w a = fblocks v a" "wf_file w a = wf_file v a" by (simp_all add: fblocks_def wf_file_def sl)
qed

lemma fbyte_cong:
  assumes "\<And>b. b \<in> fblocks v a \<Longrightarrow> w b = v b" "off < MAXFILE * BSIZE"
  shows "fbyte w a off = fbyte v a off"
proof -
  have "off div BSIZE < MAXFILE" using assms(2) by (simp add: div_less_iff_less_mult)
  then show ?thesis using assms(1) fblock_in [of "off div BSIZE" v a] by (auto simp: fbyte_def file_cong(1) [OF assms(1)])
qed

section \<open>Writing a block of the file\<close>

lemma write_fblock:
  assumes wf: "wf_file v a" and k: "k < MAXFILE" "fblock v a k \<noteq> 0" and w: "w = v(fblock v a k := d)"
  shows "fblock w a = fblock v a" "fblocks w a = fblocks v a" "wf_file w a"
    "off < MAXFILE * BSIZE \<Longrightarrow> fbyte w a off = (if off div BSIZE = k then d (off mod BSIZE) else fbyte v a off)"
proof -
  have "w (a NDIRECT) = v (a NDIRECT)" using wf_file_indirect [OF wf k] w by simp
  then have "fblock w a j = fblock v a j" for j by (simp add: fblock_def)
  then show f: "fblock w a = fblock v a" by blast
  then have sl: "slot w a = slot v a" by (simp add: slot_def fun_eq_iff)
  then show "fblocks w a = fblocks v a" "wf_file w a" using wf by (simp_all add: fblocks_def wf_file_def)
  have wb: "w b = (if b = fblock v a k then d else v b)" for b using w by simp
  assume "off < MAXFILE * BSIZE"
  then have o: "off div BSIZE < MAXFILE" by (simp add: div_less_iff_less_mult)
  show "fbyte w a off = (if off div BSIZE = k then d (off mod BSIZE) else fbyte v a off)"
    using wf_file_inj [OF wf o k] k(2) wb by (auto simp: fbyte_def f)
qed

section \<open>Adding a block\<close>

text \<open>Three ways a file grows: a direct block, the indirect block, and a block in the indirect block.\<close>

lemma wf_file_slots:
  assumes wf: "wf_file v a" and n: "n \<noteq> 0" "n \<notin> fblocks v a" and k: "k \<le> MAXFILE" "slot v a k = 0"
    and sl: "\<And>j. j \<le> MAXFILE \<Longrightarrow> slot w c j = (if j = k then n else slot v a j)"
  shows "wf_file w c" "fblocks w c = insert n (fblocks v a)"
proof -
  have ne: "slot v a j \<noteq> n" if "j \<le> MAXFILE" for j using n that by (auto simp: fblocks_def)
  show "wf_file w c" unfolding wf_file_def
  proof (intro allI impI)
    fix i j assume ij: "i \<le> MAXFILE" "j \<le> MAXFILE" "slot w c i = slot w c j \<and> slot w c i \<noteq> 0"
    then show "i = j" using sl [OF ij(1)] sl [OF ij(2)] ne [OF ij(1)] ne [OF ij(2)] wf by (auto simp: wf_file_def split: if_splits)
  qed
  have "slot w c ` {..MAXFILE} = insert n (slot v a ` ({..MAXFILE} - {k}))" using sl k(1) by (auto simp: image_iff split: if_splits)
  then show "fblocks w c = insert n (fblocks v a)" using n(1) k by (auto simp: fblocks_def)
qed

lemma add_direct:
  assumes wf: "wf_file v a" and n: "n \<noteq> 0" "n \<notin> fblocks v a" and k: "k < NDIRECT" "a k = 0"
    and w: "\<And>b. b \<in> fblocks v a \<Longrightarrow> w b = v b" "zeroed (w n)"
  shows "wf_file w (a(k := n))" "fblocks w (a(k := n)) = insert n (fblocks v a)"
    "\<And>j. fblock w (a(k := n)) j = (if j = k then n else fblock v a j)" "off < MAXFILE * BSIZE \<Longrightarrow> fbyte w (a(k := n)) off = fbyte v a off"
proof -
  show f: "fblock w (a(k := n)) j = (if j = k then n else fblock v a j)" for j
    using k indirect_in [of a v] w(1) by (auto simp: fblock_def)
  have "slot w (a(k := n)) j = (if j = k then n else slot v a j)" for j using k f by (simp add: slot_def)
  then show "wf_file w (a(k := n))" "fblocks w (a(k := n)) = insert n (fblocks v a)"
    using wf_file_slots [OF wf n, of k w "a(k := n)"] k by (simp_all add: slot_def fblock_def)
  assume o: "off < MAXFILE * BSIZE"
  have "fblock v a k = 0" using k by (simp add: fblock_def)
  then show "fbyte w (a(k := n)) off = fbyte v a off"
    using f fbyte_cong [of v a w, OF w(1) o] w(2) n(1) file_cong(1) [of v a w, OF w(1)] by (auto simp: fbyte_def zeroed_def)
qed

lemma add_indirect:
  assumes wf: "wf_file v a" and n: "n \<noteq> 0" "n \<notin> fblocks v a" and z: "a NDIRECT = 0"
    and w: "\<And>b. b \<in> fblocks v a \<Longrightarrow> w b = v b" "zeroed (w n)"
  shows "wf_file w (a(NDIRECT := n))" "fblocks w (a(NDIRECT := n)) = insert n (fblocks v a)"
    "\<And>j. j < MAXFILE \<Longrightarrow> fblock w (a(NDIRECT := n)) j = fblock v a j"
    "off < MAXFILE * BSIZE \<Longrightarrow> fbyte w (a(NDIRECT := n)) off = fbyte v a off"
proof -
  show f: "fblock w (a(NDIRECT := n)) j = fblock v a j" if "j < MAXFILE" for j
    using that z n(1) ld32_zeroed [OF w(2), of "4 * (j - NDIRECT)"] by (simp add: fblock_def)
  have "slot w (a(NDIRECT := n)) j = (if j = MAXFILE then n else slot v a j)" if "j \<le> MAXFILE" for j
    using that f by (simp add: slot_def)
  then show "wf_file w (a(NDIRECT := n))" "fblocks w (a(NDIRECT := n)) = insert n (fblocks v a)"
    using wf_file_slots [OF wf n, of MAXFILE w "a(NDIRECT := n)"] z by (simp_all add: slot_def)
  assume o: "off < MAXFILE * BSIZE"
  then have "off div BSIZE < MAXFILE" by (simp add: div_less_iff_less_mult)
  then show "fbyte w (a(NDIRECT := n)) off = fbyte v a off"
    using f [of "off div BSIZE"] fblock_in [of "off div BSIZE" v a] w(1) by (auto simp: fbyte_def)
qed

lemma add_in_indirect:
  assumes wf: "wf_file v a" and n: "n \<noteq> 0" "n \<notin> fblocks v a" and k: "NDIRECT \<le> k" "k < MAXFILE" "fblock v a k = 0"
    and i: "a NDIRECT \<noteq> 0" "w (a NDIRECT) = st32 (v (a NDIRECT)) (4 * (k - NDIRECT)) n"
    and w: "\<And>b. b \<in> fblocks v a \<Longrightarrow> b \<noteq> a NDIRECT \<Longrightarrow> w b = v b" "zeroed (w n)"
  shows "wf_file w a" "fblocks w a = insert n (fblocks v a)" "\<And>j. fblock w a j = (if j = k then n else fblock v a j)"
    "off < MAXFILE * BSIZE \<Longrightarrow> fbyte w a off = fbyte v a off"
proof -
  show f: "fblock w a j = (if j = k then n else fblock v a j)" for j
  proof (cases "j < NDIRECT \<or> j = k")
    case False
    then have "4 * (k - NDIRECT) + 4 \<le> 4 * (j - NDIRECT) \<or> 4 * (j - NDIRECT) + 4 \<le> 4 * (k - NDIRECT)" using k by auto
    then show ?thesis using False i k ld32_st32_disjoint by (simp add: fblock_def)
  qed (use k i in \<open>auto simp: fblock_def\<close>)
  have "slot w a j = (if j = k then n else slot v a j)" if "j \<le> MAXFILE" for j using k f by (simp add: slot_def)
  then show "wf_file w a" "fblocks w a = insert n (fblocks v a)"
    using wf_file_slots [OF wf n, of k w a] k by (simp_all add: slot_def)
  assume o: "off < MAXFILE * BSIZE"
  then have o: "off div BSIZE < MAXFILE" by (simp add: div_less_iff_less_mult)
  show "fbyte w a off = fbyte v a off"
    using f [of "off div BSIZE"] fblock_in [OF o] w wf_file_indirect [OF wf o] k(3) n(1) by (auto simp: fbyte_def zeroed_def)
qed

end
