(* ===== verification/Balloc.thy ===== *)
theory Balloc
  imports Block Layout
begin

text \<open>
  The free map of fs.c: balloc hands out a block that the map has free, marks it and clears it; bfree gives
  it back.
\<close>

unbundle bit_operations_syntax

section \<open>The free map\<close>

text \<open>Whether the map marks a block, for the blocks as readers see them; the blocks of the map itself.\<close>

definition block_used :: "superblock \<Rightarrow> (u32 \<Rightarrow> bytes) \<Rightarrow> u32 \<Rightarrow> bool" where
  "block_used x v b \<longleftrightarrow> map_bit (v (BBLOCK b x)) (unat b mod BPB)"

definition map_ok :: "superblock \<Rightarrow> bool" where
  "map_ok x \<longleftrightarrow> sb_size x \<le> FSSIZE \<and> unat (sb_bmapstart x) < 4096"

lemma map_bit_iff: "map_bit d bi \<longleftrightarrow> bit (d (bi div 8)) (bi mod 8)"
  by (simp add: map_bit_def bit_iff_odd_drop_bit and_exp_eq_0_iff_not_bit push_bit_eq_mult)

lemma map_bit_set [simp]: "map_bit (set_map_bit i d) j \<longleftrightarrow> j = i \<or> map_bit d j"
proof -
  have "j = i" if "j div 8 = i div 8" "j mod 8 = i mod 8" using that by (metis div_mult_mod_eq)
  then show ?thesis by (auto simp: map_bit_iff set_map_bit_def bit_simps)
qed

lemma map_bit_clear [simp]: "map_bit (clear_map_bit i d) j \<longleftrightarrow> j \<noteq> i \<and> map_bit d j"
proof -
  have "j = i" if "j div 8 = i div 8" "j mod 8 = i mod 8" using that by (metis div_mult_mod_eq)
  then show ?thesis by (auto simp: map_bit_iff clear_map_bit_def bit_simps)
qed

lemma unat_BBLOCK: "map_ok x \<Longrightarrow> b < FSSIZE \<Longrightarrow> unat (BBLOCK b x) = unat b div BPB + unat (sb_bmapstart x)"
  "map_ok x \<Longrightarrow> b < FSSIZE \<Longrightarrow> BBLOCK b x < FSSIZE"
proof -
  assume m: "map_ok x" and b: "b < FSSIZE"
  then have "unat b < 10000" by (simp add: word_less_nat_alt)
  then have "unat b div BPB \<le> 2" by simp
  then show *: "unat (BBLOCK b x) = unat b div BPB + unat (sb_bmapstart x)"
    using m by (simp add: BBLOCK_def unat_word_ariths unat_div map_ok_def)
  show "BBLOCK b x < FSSIZE"
    using * m \<open>unat b div BPB \<le> 2\<close> by (simp add: word_less_nat_alt map_ok_def)
qed

lemma BBLOCK_first:
  assumes "map_ok x" "BPB dvd b" "bi < BPB" "b + bi < unat (sb_size x)"
  shows "BBLOCK (of_nat b) x = BBLOCK (of_nat (b + bi)) x" "unat (of_nat (b + bi) :: u32) = b + bi"
    "(b + bi) mod BPB = bi" "(of_nat (b + bi) :: u32) < FSSIZE" "(of_nat b :: u32) < FSSIZE"
    "(of_nat b :: u32) < sb_size x"
proof -
  have "unat (sb_size x) \<le> 10000" using assms(1) by (simp add: map_ok_def word_le_nat_alt)
  then have lt: "b + bi < 10000" using assms(4) by simp
  then show u: "unat (of_nat (b + bi) :: u32) = b + bi"
    by (simp add: unat_of_nat del: of_nat_add)
  have u': "unat (of_nat b :: u32) = b" using lt by (simp add: unat_of_nat)
  show f: "(of_nat (b + bi) :: u32) < FSSIZE" "(of_nat b :: u32) < FSSIZE" using u u' lt by (simp_all add: word_less_nat_alt)
  show "(of_nat b :: u32) < sb_size x" using u' assms(4) by (simp add: word_less_nat_alt)
  show "(b + bi) mod BPB = bi" using assms(2,3) by (auto simp: dvd_def)
  have "(b + bi) div BPB = b div BPB" using assms(2,3) by (auto simp: dvd_def)
  then show "BBLOCK (of_nat b) x = BBLOCK (of_nat (b + bi)) x"
    using unat_BBLOCK(1) [OF assms(1) f(1)] unat_BBLOCK(1) [OF assms(1) f(2)] u u' by (simp add: word_unat_eq_iff)
qed

section \<open>Allocating\<close>

text \<open>
  While blocks of the map are read and changed, the buffers of \<open>B\<close> hold blocks that are in use and not part
  of the map.
\<close>

definition held_used :: "nat set \<Rightarrow> superblock \<Rightarrow> 'a bio_scheme \<Rightarrow> bool" where
  "held_used B x s \<longleftrightarrow> (\<forall>c \<in> B. sl_locked (b_lock (bufs s c)) \<and> b_blockno (bufs s c) < FSSIZE \<and>
     block_used x (view s) (b_blockno (bufs s c)) \<and> (\<forall>b < sb_size x. b_blockno (bufs s c) \<noteq> BBLOCK b x))"

lemma held_used_empty [simp]: "held_used {} x s"
  by (simp add: held_used_def)

lemma held_used_cong: "held_used B x s \<Longrightarrow> view t = view s \<Longrightarrow> (\<And>c. c \<in> B \<Longrightarrow> bufs t c = bufs s c) \<Longrightarrow> held_used B x t"
  by (simp add: held_used_def)

text \<open>A map block in which no bit is free, and one where a bit is.\<close>

lemma free_bit_Some: "free_bit d b sz = Some bi \<Longrightarrow> bi < BPB \<and> b + bi < sz \<and> \<not> map_bit d bi"
  using find_SomeD [of "\<lambda>bi. \<not> map_bit d bi" "[0..<min BPB (sz - b)]" bi] by (auto simp: free_bit_def)

lemma free_bit_None: "free_bit d b sz = None \<Longrightarrow> bi < BPB \<Longrightarrow> b + bi < sz \<Longrightarrow> map_bit d bi"
  by (auto simp: free_bit_def find_None_iff)

lemma bzero_edit: "bzero dev n s = edit_block dev n (\<lambda>d. fill d 0 0 BSIZE) s"
  by (simp add: bzero_def edit_block_def)

text \<open>What an allocation does: block \<open>n\<close> was free, is now marked in the map and holds zeros.\<close>

definition allocated :: "nat set \<Rightarrow> nat \<Rightarrow> 'a fs_scheme \<Rightarrow> u32 \<Rightarrow> 'a fs_scheme \<Rightarrow> bool" where
  "allocated B k s n t \<longleftrightarrow> room B k t \<and> n < sb_size (sb s) \<and> \<not> block_used (sb s) (view s) n \<and>
     (\<exists>z. zeroed z \<and> view t = (view s)(BBLOCK n (sb s) := set_map_bit (unat n mod BPB) (view s (BBLOCK n (sb s))), n := z)) \<and>
     (\<forall>c \<in> B. bufs t c = bufs s c) \<and> same_fs s t"

lemma allocated_from:
  assumes "allocated B k u n v" "view u = view s" "same_fs s u" "\<And>c. c \<in> B \<Longrightarrow> bufs u c = bufs s c"
  shows "allocated B k s n v"
  using assms same_fs_sel(1) [OF assms(3)] same_fs_trans [OF assms(3)] by (simp add: allocated_def)

lemma balloc_found:
  fixes s :: "'a fs_scheme"
  assumes r: "room B (Suc (Suc k)) s" and B: "B \<subseteq> {a}" and hu: "held_used B (sb s) s" and m: "map_ok (sb s)"
    and b: "BPB dvd b" "b < unat (sb_size (sb s))" and f: "free_bit (view s (BBLOCK (of_nat b) (sb s))) b (unat (sb_size (sb s))) = Some bi"
  shows "\<exists>n t. balloc_loop ROOTDEV (b # bs) s = Ok (n, t) \<and> allocated B k s n t"
proof -
  let ?x = "sb s" and ?M = "BBLOCK (of_nat b) (sb s)"
  define n :: u32 where "n = of_nat (b + bi)"
  note fb = free_bit_Some [OF f]
  note g = BBLOCK_first [OF m b(1) conjunct1 [OF fb] conjunct1 [OF conjunct2 [OF fb]], folded n_def]
  have M: "?M = BBLOCK n ?x" "?M < FSSIZE" using g unat_BBLOCK(2) [OF m g(4)] by simp_all
  have free: "\<not> block_used ?x (view s) n" using fb g(2,3) M(1) by (simp add: block_used_def)
  have nb: "sl_locked (b_lock (bufs s c)) \<and> b_blockno (bufs s c) \<noteq> ?M" if "c \<in> B" for c
    using hu that g(6) by (auto simp: held_used_def)
  from bread_ready [OF r B M(2) nb] obtain bp t where t: "bread ROOTDEV ?M s = Ok (bp, t)"
    "b_data (bufs t bp) = view s ?M" "same_fs s t" by blast
  from edit_block_ready [OF r B M(2) nb, of "set_map_bit bi"] obtain u where u: "edit_block ROOTDEV ?M (set_map_bit bi) s = Ok u"
    "room B (Suc k) u" "view u = (view s)(?M := set_map_bit bi (view s ?M))" "\<And>c. c \<in> B \<Longrightarrow> bufs u c = bufs s c" "same_fs s u" by blast
  have nb': "sl_locked (b_lock (bufs u c)) \<and> b_blockno (bufs u c) \<noteq> n" if "c \<in> B" for c
    using hu that free u(4) by (auto simp: held_used_def)
  from edit_block_ready [OF u(2) B g(4) nb', of "\<lambda>d. fill d 0 0 BSIZE"] obtain v where v: "bzero ROOTDEV n u = Ok v"
    "room B k v" "view v = (view u)(n := fill (view u n) 0 0 BSIZE)" "\<And>c. c \<in> B \<Longrightarrow> bufs v c = bufs u c" "same_fs u v"
    by (auto simp: bzero_edit)
  have sz: "sb t = ?x" using same_fs_sel [OF t(3)] by simp
  have "balloc_loop ROOTDEV (b # bs) s = bindR (edit_block ROOTDEV ?M (set_map_bit bi) s) (\<lambda>s. bindR (bzero ROOTDEV n s) (\<lambda>s. Ok (n, s)))"
    using t f sz by (simp add: edit_block_def n_def bindR_assoc)
  then have "balloc_loop ROOTDEV (b # bs) s = Ok (n, v)" using u(1) v(1) by simp
  moreover have "n < sb_size ?x" using g(2) fb by (simp add: word_less_nat_alt)
  moreover have "zeroed (fill (view u n) 0 0 BSIZE)" by (simp add: zeroed_def fill_apply)
  moreover have "same_fs s v" using u(5) v(5) by (rule same_fs_trans)
  ultimately show ?thesis using free v(2,3,4) u(3,4) M(1) g(2,3) by (auto simp: allocated_def)
qed

text \<open>balloc looks through the map blocks from the first, and finds a free bit if there is one.\<close>

lemma balloc_loop_ready:
  fixes s :: "'a fs_scheme"
  assumes "room B (Suc (Suc k)) s" and B: "B \<subseteq> {a}" and "held_used B (sb s) s" and m: "map_ok (sb s)"
    and "\<forall>b \<in> set bs. BPB dvd b \<and> b < unat (sb_size (sb s))"
    and "b \<in> set bs" "bi < BPB" "b + bi < unat (sb_size (sb s))" "\<not> map_bit (view s (BBLOCK (of_nat b) (sb s))) bi"
  shows "\<exists>n t. balloc_loop ROOTDEV bs s = Ok (n, t) \<and> allocated B k s n t"
  using assms
proof (induction bs arbitrary: s)
  case (Cons c bs)
  let ?x = "sb s" and ?M = "BBLOCK (of_nat c) (sb s)"
  have c: "BPB dvd c" "c < unat (sb_size ?x)" using Cons.prems(5) by simp_all
  show ?case
  proof (cases "free_bit (view s ?M) c (unat (sb_size ?x))")
    case (Some bi)
    from balloc_found [OF Cons.prems(1) B Cons.prems(3,4) c Some] show ?thesis .
  next
    case None
    have fc: "(of_nat c :: u32) < FSSIZE" "(of_nat c :: u32) < sb_size ?x"
      using BBLOCK_first(5,6) [OF Cons.prems(4) c(1), of 0] c(2) by simp_all
    note M = unat_BBLOCK(2) [OF Cons.prems(4) fc(1)]
    have nb: "sl_locked (b_lock (bufs s y)) \<and> b_blockno (bufs s y) \<noteq> ?M" if "y \<in> B" for y
      using Cons.prems(3) that fc(2) by (auto simp: held_used_def)
    from bread_ready [OF Cons.prems(1) B M nb] obtain bp t where t: "bread ROOTDEV ?M s = Ok (bp, t)" "room (insert bp B) (Suc (Suc k)) t"
      "held t ?M bp" "bp \<notin> B" "b_data (bufs t bp) = view s ?M" "view t = view s" "\<And>c. c \<noteq> bp \<Longrightarrow> bufs t c = bufs s c" "same_fs s t" by blast
    from brelse_ready [OF t(2,3)] obtain u where u: "brelse bp t = Ok u" "room (insert bp B - {bp}) (Suc (Suc k)) u" "view u = view t"
      "\<And>c. c \<noteq> bp \<Longrightarrow> bufs u c = bufs t c" "same_fs t u" by blast
    have su: "same_fs s u" using t(8) u(5) by (rule same_fs_trans)
    have x: "sb t = ?x" "sb u = ?x" "view u = view s" using same_fs_sel [OF t(8)] same_fs_sel [OF su] t(6) u(3) by simp_all
    have bu: "bufs u y = bufs s y" if "y \<in> B" for y using that t(4,7) u(4) by (cases "y = bp") simp_all
    have ru: "room B (Suc (Suc k)) u" using u(2) t(4) by (simp add: Diff_insert_absorb)
    have hu: "held_used B (sb u) u" using held_used_cong [OF Cons.prems(3) x(3) bu] x by simp
    have "b \<noteq> c" using Cons.prems(7-9) free_bit_None [OF None] by auto
    then have "b \<in> set bs" using Cons.prems(6) by simp
    with Cons.IH [OF ru B hu] Cons.prems(4,5,7-9) x obtain n v where "balloc_loop ROOTDEV bs u = Ok (n, v)" "allocated B k u n v"
      by auto
    moreover have "balloc_loop ROOTDEV (c # bs) s = balloc_loop ROOTDEV bs u" using t(1,5) u(1) None x by simp
    ultimately show ?thesis using allocated_from [OF _ x(3) su bu] by auto
  qed
qed simp

lemma balloc_ready:
  fixes s :: "'a fs_scheme"
  assumes r: "room B (Suc (Suc k)) s" and B: "B \<subseteq> {a}" and hu: "held_used B (sb s) s" and m: "map_ok (sb s)"
    and f: "f < sb_size (sb s)" "\<not> block_used (sb s) (view s) f"
  obtains n t where "balloc ROOTDEV s = Ok (n, t)" "allocated B k s n t"
proof -
  let ?S = "unat (sb_size (sb s))"
  let ?bs = "map (\<lambda>k. k * BPB) [0..<(?S + BPB - 1) div BPB]"
  define b bi where "b = unat f div BPB * BPB" and "bi = unat f mod BPB"
  have fl: "unat f < ?S" using f(1) by (simp add: word_less_nat_alt)
  have sum: "b + bi = unat f" "bi < BPB" by (simp_all add: b_def bi_def)
  have "unat f div BPB < (?S + BPB - 1) div BPB" using fl by (auto simp: less_eq_div_iff_mult_less_eq Suc_le_eq [symmetric])
  then have "b \<in> set ?bs" by (auto simp: b_def)
  moreover have "\<forall>b \<in> set ?bs. BPB dvd b \<and> b < ?S" by auto
  moreover have "of_nat (b + bi) = f" using sum by simp
  then have "\<not> map_bit (view s (BBLOCK (of_nat b) (sb s))) bi"
    using f(2) BBLOCK_first(1) [OF m _ sum(2), of b] fl sum by (simp add: block_used_def b_def bi_def)
  ultimately show thesis
    using balloc_loop_ready [OF r B hu m, of ?bs b bi] sum fl that by (auto simp: balloc_def)
qed

end
