(* ===== verification/Bmap.thy ===== *)
theory Bmap
  imports Balloc
begin

text \<open>
  The blocks of a file in a file system: which blocks a file may use, what an allocation does to the files,
  and bmap, which finds the block of an offset and adds it to the file when it is missing.
\<close>

unbundle bit_operations_syntax

section \<open>Files in a file system\<close>

text \<open>The first block behind the map. All blocks before it are marked in the map.\<close>

definition data_start :: "superblock \<Rightarrow> nat" where
  "data_start x = unat (sb_bmapstart x) + unat (sb_size x) div BPB + 1"

definition fs_ok :: "superblock \<Rightarrow> image \<Rightarrow> bool" where
  "fs_ok x v \<longleftrightarrow> map_ok x \<and> data_start x \<le> unat (sb_size x) \<and> (\<forall>b. unat b < data_start x \<longrightarrow> block_used x v b)"

definition file_ok :: "superblock \<Rightarrow> image \<Rightarrow> addrs \<Rightarrow> bool" where
  "file_ok x v a \<longleftrightarrow> wf_file v a \<and> (\<forall>b \<in> fblocks v a. data_start x \<le> unat b \<and> b < sb_size x \<and> block_used x v b)"

definition free_blocks :: "superblock \<Rightarrow> image \<Rightarrow> nat" where
  "free_blocks x v = card {b. b < sb_size x \<and> \<not> block_used x v b}"

lemma size_FSSIZE: "fs_ok x v \<Longrightarrow> b < sb_size x \<Longrightarrow> b < FSSIZE"
  by (auto simp: fs_ok_def map_ok_def)

lemma BBLOCK_before: "fs_ok x v \<Longrightarrow> b < sb_size x \<Longrightarrow> unat (BBLOCK b x) < data_start x"
proof -
  assume x: "fs_ok x v" and b: "b < sb_size x"
  have "unat (BBLOCK b x) = unat b div BPB + unat (sb_bmapstart x)"
    using unat_BBLOCK(1) [OF _ size_FSSIZE [OF x b]] x by (simp add: fs_ok_def)
  moreover have "unat b div BPB \<le> unat (sb_size x) div BPB" using b by (intro div_le_mono) (simp add: word_less_nat_alt)
  ultimately show ?thesis by (simp add: data_start_def)
qed

text \<open>An allocation: the new block lies behind the map, and no block that is in use changes but a map block.\<close>

lemma alloc_view:
  assumes x: "fs_ok x v" and n: "n < sb_size x" "\<not> block_used x v n"
    and w: "w = v(BBLOCK n x := set_map_bit (unat n mod BPB) (v (BBLOCK n x)), n := z)"
  shows "data_start x \<le> unat n" "n \<noteq> 0" "w n = z" "\<And>b. data_start x \<le> unat b \<Longrightarrow> b \<noteq> n \<Longrightarrow> w b = v b"
    "\<And>b. b < sb_size x \<Longrightarrow> block_used x w b \<longleftrightarrow> block_used x v b \<or> b = n" "fs_ok x w" "free_blocks x v = Suc (free_blocks x w)"
proof -
  show dn: "data_start x \<le> unat n" using x n(2) by (auto simp: fs_ok_def not_le [symmetric])
  then show "n \<noteq> 0" by (auto simp: data_start_def)
  show "w n = z" by (simp add: w)
  show "w b = v b" if "data_start x \<le> unat b" "b \<noteq> n" for b using BBLOCK_before [OF x n(1)] that by (auto simp: w)
  show u: "block_used x w b \<longleftrightarrow> block_used x v b \<or> b = n" if b: "b < sb_size x" for b
  proof -
    have "BBLOCK b x \<noteq> n" using BBLOCK_before [OF x b] dn by auto
    moreover have "b = n" if "BBLOCK b x = BBLOCK n x" "unat b mod BPB = unat n mod BPB"
    proof -
      have "unat b div BPB = unat n div BPB"
        using that(1) unat_BBLOCK(1) [of x, OF _ size_FSSIZE [OF x b]] unat_BBLOCK(1) [of x, OF _ size_FSSIZE [OF x n(1)]] x by (simp add: fs_ok_def)
      with that(2) show "b = n" by (metis div_mult_mod_eq word_unat_eq_iff)
    qed
    ultimately show ?thesis by (auto simp: block_used_def w)
  qed
  have "b < sb_size x" if "unat b < data_start x" for b using that x by (simp add: fs_ok_def word_less_nat_alt)
  then show "fs_ok x w" using x u by (simp add: fs_ok_def)
  have "{b. b < sb_size x \<and> \<not> block_used x v b} = insert n {b. b < sb_size x \<and> \<not> block_used x w b}" using n u by auto
  then show "free_blocks x v = Suc (free_blocks x w)" using u [OF n(1)] by (simp add: free_blocks_def)
qed

text \<open>
  One step of a file from the blocks \<open>v\<close> and addresses \<open>a\<close> to \<open>w\<close> and \<open>c\<close>: only blocks of the file and blocks
  that were free change, and the file takes no block that was in use.
\<close>

definition file_step :: "superblock \<Rightarrow> image \<Rightarrow> addrs \<Rightarrow> image \<Rightarrow> addrs \<Rightarrow> bool" where
  "file_step x v a w c \<longleftrightarrow> fs_ok x w \<and> file_ok x w c \<and>
     (\<forall>b. data_start x \<le> unat b \<and> b < sb_size x \<and> block_used x v b \<and> b \<notin> fblocks v a \<longrightarrow> w b = v b) \<and>
     (\<forall>b < sb_size x. block_used x v b \<longrightarrow> block_used x w b) \<and>
     (\<forall>b \<in> fblocks w c. b \<in> fblocks v a \<or> \<not> block_used x v b)"

lemma file_step_refl: "fs_ok x v \<Longrightarrow> file_ok x v a \<Longrightarrow> file_step x v a v a"
  by (auto simp: file_step_def)

lemma file_step_trans:
  assumes "file_step x v a w c" "file_step x w c u d"
  shows "file_step x v a u d"
proof -
  have "b < sb_size x" if "b \<in> fblocks u d" for b using that assms(2) by (auto simp: file_step_def file_ok_def)
  then show ?thesis using assms unfolding file_step_def by metis
qed

text \<open>A file that does not share blocks with the one that is changed stays as it is.\<close>

lemma file_step_other:
  assumes st: "file_step x v a w c" and o: "file_ok x v a2" "fblocks v a2 \<inter> fblocks v a = {}"
  shows "fblocks w a2 = fblocks v a2" "file_ok x w a2" "fblocks w a2 \<inter> fblocks w c = {}"
    "off < MAXFILE * BSIZE \<Longrightarrow> fbyte w a2 off = fbyte v a2 off" "fblock w a2 = fblock v a2"
proof -
  have same: "w b = v b" if "b \<in> fblocks v a2" for b using that st o by (auto simp: file_step_def file_ok_def)
  note f = file_cong [of v a2 w, OF same]
  show b: "fblocks w a2 = fblocks v a2" "fblock w a2 = fblock v a2" using f by blast+
  show "file_ok x w a2" using o(1) st f(4) by (auto simp: file_ok_def b file_step_def)
  show "fblocks w a2 \<inter> fblocks w c = {}" using o st by (fastforce simp: b file_step_def file_ok_def)
  show "off < MAXFILE * BSIZE \<Longrightarrow> fbyte w a2 off = fbyte v a2 off" by (rule fbyte_cong [of v a2 w, OF same])
qed

text \<open>The map does not depend on the data blocks.\<close>

lemma data_change:
  assumes x: "fs_ok x v" and w: "\<And>b. b < sb_size x \<Longrightarrow> w (BBLOCK b x) = v (BBLOCK b x)"
  shows "fs_ok x w" "\<And>b. b < sb_size x \<Longrightarrow> block_used x w b = block_used x v b" "free_blocks x w = free_blocks x v"
proof -
  show u: "block_used x w b = block_used x v b" if "b < sb_size x" for b
    using w [OF that] by (simp add: block_used_def)
  have "b < sb_size x" if "unat b < data_start x" for b using that x by (simp add: fs_ok_def word_less_nat_alt)
  then show "fs_ok x w" using x u by (simp add: fs_ok_def)
  have "{b. b < sb_size x \<and> \<not> block_used x w b} = {b. b < sb_size x \<and> \<not> block_used x v b}" using u by auto
  then show "free_blocks x w = free_blocks x v" by (simp add: free_blocks_def)
qed

lemma file_step_write:
  assumes x: "fs_ok x v" and f: "file_ok x v a" and k: "k < MAXFILE" "fblock v a k \<noteq> 0" and w: "w = v(fblock v a k := d)"
  shows "file_step x v a w a" "free_blocks x w = free_blocks x v"
proof -
  have b: "fblock v a k \<in> fblocks v a" by (rule fblock_in [OF k])
  then have "data_start x \<le> unat (fblock v a k)" using f by (simp add: file_ok_def)
  then have lo: "w (BBLOCK c x) = v (BBLOCK c x)" if "c < sb_size x" for c using BBLOCK_before [OF x that] by (auto simp: w)
  have wb: "w c = (if c = fblock v a k then d else v c)" for c using w by simp
  note d = data_change [of x v w, OF x lo]
  have wf: "wf_file v a" using f by (simp add: file_ok_def)
  note g = write_fblock [OF wf k w]
  show "file_step x v a w a" unfolding file_step_def file_ok_def g(2) 
    using d(1,2) g(3) f b wb by (auto simp: file_ok_def)
  show "free_blocks x w = free_blocks x v" by (rule d(3))
qed

lemma file_step_grow:
  assumes x: "fs_ok x v" and f: "file_ok x v a" and n: "n < sb_size x" "\<not> block_used x v n"
    and w: "w = v(BBLOCK n x := set_map_bit (unat n mod BPB) (v (BBLOCK n x)), n := z)"
    and u: "\<And>b. b \<notin> fblocks v a \<Longrightarrow> u b = w b" and c: "wf_file u c" "fblocks u c = insert n (fblocks v a)"
  shows "file_step x v a u c" "free_blocks x v = Suc (free_blocks x u)"
proof -
  note g = alloc_view [OF x n w]
  have lo: "u (BBLOCK b x) = w (BBLOCK b x)" if "b < sb_size x" for b
    using BBLOCK_before [OF x that] f by (intro u) (auto simp: file_ok_def)
  note d = data_change [of x w u, OF g(6) lo]
  show "free_blocks x v = Suc (free_blocks x u)" using g(7) d(3) by simp
  show "file_step x v a u c" unfolding file_step_def file_ok_def c(2)
    using d(1,2) c(1) g(1,4,5) f n u by (auto simp: file_ok_def)
qed

section \<open>bmap\<close>

abbreviation (input) fa :: "nat \<Rightarrow> 'a fs_scheme \<Rightarrow> addrs" where "fa ip s \<equiv> i_addrs (icache s ip)"

definition file_state :: "nat \<Rightarrow> 'a fs_scheme \<Rightarrow> bool" where
  "file_state ip s \<longleftrightarrow> i_dev (icache s ip) = ROOTDEV \<and> fs_ok (sb s) (view s) \<and> file_ok (sb s) (view s) (fa ip s)"

text \<open>The state after blocks of file \<open>ip\<close> were added or written: of the inode only the addresses change.\<close>

definition moves :: "nat \<Rightarrow> 'a fs_scheme \<Rightarrow> 'a fs_scheme \<Rightarrow> bool" where
  "moves ip s t \<longleftrightarrow> sb t = sb s \<and> fs.more t = fs.more s \<and> same_procs s t \<and>
     (\<exists>c. icache t = (icache s)(ip := (icache s ip)\<lparr>i_addrs := c\<rparr>)) \<and>
     file_step (sb s) (view s) (fa ip s) (view t) (fa ip t)"

lemma moves_trans:
  assumes "moves ip s t" "moves ip t u"
  shows "moves ip s u"
proof -
  obtain c d where "icache t = (icache s)(ip := (icache s ip)\<lparr>i_addrs := c\<rparr>)" "icache u = (icache t)(ip := (icache t ip)\<lparr>i_addrs := d\<rparr>)"
    using assms by (auto simp: moves_def)
  then have "icache u = (icache s)(ip := (icache s ip)\<lparr>i_addrs := d\<rparr>)" by simp
  then show ?thesis using assms by (auto simp: moves_def intro: same_procs_trans file_step_trans)
qed

lemma moves_state: "file_state ip s \<Longrightarrow> moves ip s t \<Longrightarrow> file_state ip t"
  by (auto simp: moves_def file_state_def file_step_def)

lemma moves_refl: "file_state ip s \<Longrightarrow> same_fs s t \<Longrightarrow> view t = view s \<Longrightarrow> moves ip s t"
proof -
  assume a: "file_state ip s" "same_fs s t" "view t = view s"
  have "icache s = (icache s)(ip := (icache s ip)\<lparr>i_addrs := i_addrs (icache s ip)\<rparr>)" by simp
  then show ?thesis using a same_fs_sel [OF a(2)] file_step_refl unfolding moves_def file_state_def same_fs_def by metis
qed

lemma upd_inode_sel [simp]:
  "view (upd_inode ip f s) = view s" "room B k (upd_inode ip f s) = room B k s" "sb (upd_inode ip f s) = sb s"
  "icache (upd_inode ip f s) = (icache s)(ip := f (icache s ip))" "fs.more (upd_inode ip f s) = fs.more s"
proof -
  have c: "cached (upd_inode ip f s) = cached s" by (simp add: cached_def upd_inode_def fun_eq_iff)
  show "view (upd_inode ip f s) = view s" by (simp add: view_def fun_eq_iff c split: option.split) (simp add: upd_inode_def)
  show "room B k (upd_inode ip f s) = room B k s" by (simp add: room_def bio_inv_def clean_bufs_def upd_inode_def)
qed (simp_all add: upd_inode_def)

lemma same_procs_upd_inode [simp]: "same_procs s (upd_inode ip f s)"
  by (rule same_procs_cong) (simp_all add: upd_inode_def)

lemma balloc_state:
  assumes r: "room B (Suc (Suc j)) s" and B: "B \<subseteq> {a}" "held_used B (sb s) s" and x: "fs_ok (sb s) (view s)" and f: "0 < free_blocks (sb s) (view s)"
  obtains n t z where "balloc ROOTDEV s = Ok (n, t)" "room B j t" "n < sb_size (sb s)" "\<not> block_used (sb s) (view s) n" "zeroed z"
    "view t = (view s)(BBLOCK n (sb s) := set_map_bit (unat n mod BPB) (view s (BBLOCK n (sb s))), n := z)"
    "\<forall>c \<in> B. bufs t c = bufs s c" "same_fs s t"
proof -
  obtain b where "b < sb_size (sb s)" "\<not> block_used (sb s) (view s) b" using f by (fastforce simp: free_blocks_def card_gt_0_iff)
  from balloc_ready [OF r B _ this] x obtain n t where "balloc ROOTDEV s = Ok (n, t)" "allocated B j s n t" by (auto simp: fs_ok_def)
  then show thesis by (auto simp: allocated_def intro: that)
qed

text \<open>A missing block is added to the inode: direct block \<open>k\<close>, or the indirect block for \<open>k = NDIRECT\<close>.\<close>

lemma balloc_inode:
  assumes r: "room {} (Suc (Suc j)) s" and st: "file_state ip s" and f: "0 < free_blocks (sb s) (view s)" and k: "k \<le> NDIRECT" "fa ip s k = 0"
  obtains n t where "balloc ROOTDEV s = Ok (n, t)" "room {} j t" "moves ip s (upd_inode ip (\<lambda>i. i\<lparr>i_addrs := (i_addrs i)(k := n)\<rparr>) t)"
    "n \<noteq> 0" "free_blocks (sb s) (view s) = Suc (free_blocks (sb s) (view t))" "fa ip t = fa ip s"
    "\<And>j. j < MAXFILE \<Longrightarrow> fblock (view t) ((fa ip s)(k := n)) j = (if j = k \<and> k < NDIRECT then n else fblock (view s) (fa ip s) j)"
    "\<And>off. off < MAXFILE * BSIZE \<Longrightarrow> fbyte (view t) ((fa ip s)(k := n)) off = fbyte (view s) (fa ip s) off"
proof -
  let ?v = "view s" and ?a = "fa ip s"
  have x: "fs_ok (sb s) ?v" and fo: "file_ok (sb s) ?v ?a" and wf: "wf_file ?v ?a" using st by (auto simp: file_state_def file_ok_def)
  obtain n t z where t: "balloc ROOTDEV s = Ok (n, t)" "room {} j t" "n < sb_size (sb s)"
    "\<not> block_used (sb s) ?v n" "zeroed z" "view t = ?v(BBLOCK n (sb s) := set_map_bit (unat n mod BPB) (?v (BBLOCK n (sb s))), n := z)"
    "\<forall>c \<in> {}. bufs t c = bufs s c" "same_fs s t"
    by (rule balloc_state [OF r empty_subsetI held_used_empty x f])
  note g = alloc_view [OF x t(3,4,6)]
  have n: "n \<noteq> 0" "n \<notin> fblocks ?v ?a" "zeroed (view t n)" using g(2,3) t(4,5) fo by (auto simp: file_ok_def)
  have same: "view t b = ?v b" if "b \<in> fblocks ?v ?a" for b using that fo n(2) by (intro g(4)) (auto simp: file_ok_def)
  let ?c = "?a(k := n)"
  have gr: "wf_file (view t) ?c" "fblocks (view t) ?c = insert n (fblocks ?v ?a)"
    "\<And>j. j < MAXFILE \<Longrightarrow> fblock (view t) ?c j = (if j = k \<and> k < NDIRECT then n else fblock ?v ?a j)"
    "\<And>off. off < MAXFILE * BSIZE \<Longrightarrow> fbyte (view t) ?c off = fbyte ?v ?a off"
    using add_direct [OF wf n(1,2) _ k(2) same n(3)] add_indirect [OF wf n(1,2) _ same n(3)] k by (cases "k = NDIRECT"; simp)+
  note fg = file_step_grow [OF x fo t(3,4,6) refl gr(1,2)]
  have sel: "icache t = icache s" "sb t = sb s" "fs.more t = fs.more s" using same_fs_sel [OF t(8)] by simp_all
  have "moves ip s (upd_inode ip (\<lambda>i. i\<lparr>i_addrs := (i_addrs i)(k := n)\<rparr>) t)"
    using fg(1) sel t(8) by (auto simp: moves_def same_fs_def intro: same_procs_trans)
  then show thesis by (rule that [OF t(1,2) _ n(1) fg(2)]) (simp_all add: sel gr(3,4))
qed

text \<open>The two halves of bmap for a block in the indirect block.\<close>

definition bmap_ind :: "nat \<Rightarrow> 'a fs_scheme \<Rightarrow> (u32 \<times> 'a fs_scheme) res" where
  "bmap_ind ip s =
     (if i_addrs (icache s ip) NDIRECT = 0 then
        bindR (balloc (i_dev (icache s ip)) s) (\<lambda>(addr, s).
          Ok (addr, upd_inode ip (\<lambda>i. i\<lparr>i_addrs := (i_addrs i)(NDIRECT := addr)\<rparr>) s))
      else Ok (i_addrs (icache s ip) NDIRECT, s))"

definition bmap_entry :: "nat \<Rightarrow> nat \<Rightarrow> u32 \<Rightarrow> 'a fs_scheme \<Rightarrow> (u32 \<times> 'a fs_scheme) res" where
  "bmap_entry ip k ind s =
     bindR (bread (i_dev (icache s ip)) ind s) (\<lambda>(bp, s).
       bindR (if ld32 (b_data (bufs s bp)) k = 0 then
                bindR (balloc (i_dev (icache s ip)) s) (\<lambda>(addr, s).
                bindR (log_write bp (upd_buf bp (\<lambda>bf. bf\<lparr>b_data := st32 (b_data bf) k addr\<rparr>) s)) (\<lambda>s. Ok (addr, s)))
              else Ok (ld32 (b_data (bufs s bp)) k, s)) (\<lambda>(addr, s).
         bindR (brelse bp s) (\<lambda>s. Ok (addr, s))))"

lemma bmap_indirect:
  "NDIRECT \<le> unat bn \<Longrightarrow> unat bn < MAXFILE \<Longrightarrow>
   bmap ip bn s = bindR (bmap_ind ip s) (\<lambda>(ind, s). bmap_entry ip (4 * (unat bn - NDIRECT)) ind s)"
  using less_diff_conv2 [of NDIRECT "unat bn" NINDIRECT] unfolding bmap_def bmap_ind_def bmap_entry_def Let_def by simp

lemma held_blockno: "held s n b \<Longrightarrow> b_blockno (bufs s b) = n \<and> sl_locked (b_lock (bufs s b))"
  by (auto simp: held_def cached_def my_lock_def)

text \<open>An entry that is there is only read.\<close>

lemma bmap_entry_present:
  assumes r: "room {} j s" and st: "file_state ip s" and i: "fa ip s NDIRECT \<noteq> 0" and k: "ld32 (view s (fa ip s NDIRECT)) k \<noteq> 0"
  obtains t where "bmap_entry ip k (fa ip s NDIRECT) s = Ok (ld32 (view s (fa ip s NDIRECT)) k, t)" "room {} j t" "view t = view s" "same_fs s t"
proof -
  let ?i = "fa ip s NDIRECT"
  have lt: "?i < FSSIZE" and dev: "i_dev (icache s ip) = ROOTDEV"
    using st indirect_in [of "fa ip s" "view s", OF i] size_FSSIZE by (auto simp: file_state_def file_ok_def)
  obtain b t where t: "bread ROOTDEV ?i s = Ok (b, t)" "room {b} j t" "held t ?i b" "b_data (bufs t b) = view s ?i" "view t = view s" "same_fs s t"
    by (rule bread_alone [OF r lt])
  from brelse_ready [OF t(2,3)] obtain u where u: "brelse b t = Ok u" "room {} j u" "view u = view t" "same_fs t u" by auto
  show thesis using t u k dev by (intro that [of u]) (auto simp: bmap_entry_def intro: same_fs_trans)
qed

text \<open>An entry that is missing is filled while the indirect block is held.\<close>

lemma bmap_entry_absent:
  assumes r: "room {} (Suc (Suc (Suc j))) s" and st: "file_state ip s" and f: "0 < free_blocks (sb s) (view s)"
    and i: "fa ip s NDIRECT \<noteq> 0" and z: "ld32 (view s (fa ip s NDIRECT)) p = 0"
  obtains n t w where "bmap_entry ip p (fa ip s NDIRECT) s = Ok (n, t)" "room {} j t" "n < sb_size (sb s)" "\<not> block_used (sb s) (view s) n"
    "\<exists>z. zeroed z \<and> w = (view s)(BBLOCK n (sb s) := set_map_bit (unat n mod BPB) (view s (BBLOCK n (sb s))), n := z)"
    "view t = w(fa ip s NDIRECT := st32 (view s (fa ip s NDIRECT)) p n)" "same_fs s t"
proof -
  let ?i = "fa ip s NDIRECT"
  have x: "fs_ok (sb s) (view s)" and dev: "i_dev (icache s ip) = ROOTDEV" using st by (simp_all add: file_state_def)
  have ii: "data_start (sb s) \<le> unat ?i" "?i < sb_size (sb s)" "block_used (sb s) (view s) ?i"
    using st indirect_in [of "fa ip s" "view s", OF i] by (auto simp: file_state_def file_ok_def)
  note lt = size_FSSIZE [OF x ii(2)]
  obtain b t where t: "bread ROOTDEV ?i s = Ok (b, t)" "room {b} (Suc (Suc (Suc j))) t" "held t ?i b" "b_data (bufs t b) = view s ?i"
    "view t = view s" "same_fs s t"
    by (rule bread_alone [OF r lt])
  have sel: "sb t = sb s" "icache t = icache s" using same_fs_sel [OF t(6)] by simp_all
  have "?i \<noteq> BBLOCK c (sb s)" if "c < sb_size (sb s)" for c using BBLOCK_before [OF x that] ii(1) by auto
  then have hu: "held_used {b} (sb t) t" using held_blockno [OF t(3)] lt ii(3) t(5) sel by (simp add: held_used_def)
  obtain n u z where u: "balloc ROOTDEV t = Ok (n, u)" "room {b} (Suc j) u" "n < sb_size (sb s)" "\<not> block_used (sb s) (view s) n" "zeroed z"
    "view u = (view s)(BBLOCK n (sb s) := set_map_bit (unat n mod BPB) (view s (BBLOCK n (sb s))), n := z)"
    "\<forall>c \<in> {b}. bufs u c = bufs t c" "same_fs t u"
    by (rule balloc_state [OF t(2) subset_refl hu, unfolded t(5) sel(1), OF x f])
  have hb: "held u ?i b" using held_same [OF t(3) _ u(8)] u(7) by simp
  have bd: "b_data (bufs u b) = view s ?i" using u(7) t(4) by simp
  from log_write_ready [OF u(2) hb, of "\<lambda>bf. st32 (b_data bf) p n"] obtain w where
    w: "log_write b (upd_buf b (\<lambda>bf. bf\<lparr>b_data := st32 (b_data bf) p n\<rparr>) u) = Ok w" "room {b} j w" "held w ?i b"
      "view w = (view u)(?i := st32 (view s ?i) p n)" "same_fs u w" by (auto simp: bd)
  from brelse_ready [OF w(2,3)] obtain y where y: "brelse b w = Ok y" "room {} j y" "view y = view w" "same_fs w y" by auto
  have "bmap_entry ip p ?i s = Ok (n, y)" using t(1,4) u(1) w(1) y(1) z dev sel by (simp add: bmap_entry_def)
  moreover have "same_fs s y" using t(6) u(8) w(5) y(4) by (blast intro: same_fs_trans)
  ultimately show thesis using u(3-6) w(4) y(2,3) by (intro that [of n y "view u"]) auto
qed

text \<open>A block that the file has is found; nothing changes.\<close>

lemma bmap_present:
  assumes r: "room {} j s" and st: "file_state ip s" and k: "k < MAXFILE" "fblock (view s) (fa ip s) k \<noteq> 0"
  obtains t where "bmap ip (of_nat k) s = Ok (fblock (view s) (fa ip s) k, t)" "room {} j t" "view t = view s" "same_fs s t"
proof (cases "k < NDIRECT")
  case True
  then have "unat (of_nat k :: u32) = k" by (simp add: unat_of_nat)
  then show thesis using True k r by (intro that [of s]) (simp_all add: bmap_def fblock_def)
next
  case False
  have u: "unat (of_nat k :: u32) = k" using k(1) by (simp add: unat_of_nat)
  have i: "fa ip s NDIRECT \<noteq> 0" "ld32 (view s (fa ip s NDIRECT)) (4 * (k - NDIRECT)) \<noteq> 0"
    and e: "fblock (view s) (fa ip s) k = ld32 (view s (fa ip s NDIRECT)) (4 * (k - NDIRECT))"
    using False k(2) by (auto simp: fblock_def split: if_splits)
  from bmap_entry_present [OF r st i] obtain t where
    t: "bmap_entry ip (4 * (k - NDIRECT)) (fa ip s NDIRECT) s = Ok (fblock (view s) (fa ip s) k, t)" "room {} j t" "view t = view s" "same_fs s t"
    by (auto simp: e)
  have "bmap ip (of_nat k) s = Ok (fblock (view s) (fa ip s) k, t)"
    using t(1) i(1) False k(1) u bmap_indirect [of "of_nat k" ip s] by (simp add: bmap_ind_def)
  then show thesis using t(2-4) by (rule that)
qed

text \<open>What bmap promises: the block of the file, which reads as it did before.\<close>

definition mapped :: "nat \<Rightarrow> nat \<Rightarrow> 'a fs_scheme \<Rightarrow> u32 \<Rightarrow> 'a fs_scheme \<Rightarrow> bool" where
  "mapped ip k s n t \<longleftrightarrow> moves ip s t \<and> n \<noteq> 0 \<and> fblock (view t) (fa ip t) k = n \<and>
     (\<forall>off < MAXFILE * BSIZE. fbyte (view t) (fa ip t) off = fbyte (view s) (fa ip s) off) \<and>
     (\<forall>i < MAXFILE. fblock (view s) (fa ip s) i \<noteq> 0 \<longrightarrow> fblock (view t) (fa ip t) i = fblock (view s) (fa ip s) i) \<and>
     free_blocks (sb s) (view s) \<le> free_blocks (sb s) (view t) + 2"

lemma bmap_entry_ready:
  assumes r: "room {} (j + 3) s" and st: "file_state ip s" and f: "0 < free_blocks (sb s) (view s)"
    and i: "fa ip s NDIRECT \<noteq> 0" and k: "NDIRECT \<le> k" "k < MAXFILE" "fblock (view s) (fa ip s) k = 0"
  obtains n t where "bmap_entry ip (4 * (k - NDIRECT)) (fa ip s NDIRECT) s = Ok (n, t)" "room {} j t" "mapped ip k s n t"
    "free_blocks (sb s) (view s) = Suc (free_blocks (sb s) (view t))"
proof -
  let ?v = "view s" and ?a = "fa ip s" and ?i = "fa ip s NDIRECT"
  have x: "fs_ok (sb s) ?v" and fo: "file_ok (sb s) ?v ?a" and wf: "wf_file ?v ?a" using st by (auto simp: file_state_def file_ok_def)
  have r': "room {} (Suc (Suc (Suc j))) s" using r by (simp add: numeral_3_eq_3)
  have "ld32 (?v ?i) (4 * (k - NDIRECT)) = 0" using k i by (simp add: fblock_def)
  then obtain n t w where t: "bmap_entry ip (4 * (k - NDIRECT)) ?i s = Ok (n, t)" "room {} j t" "n < sb_size (sb s)" "\<not> block_used (sb s) ?v n"
    "\<exists>z. zeroed z \<and> w = ?v(BBLOCK n (sb s) := set_map_bit (unat n mod BPB) (?v (BBLOCK n (sb s))), n := z)"
    "view t = w(?i := st32 (?v ?i) (4 * (k - NDIRECT)) n)" "same_fs s t"
    by (rule bmap_entry_absent [OF r' st f i])
  then obtain z where z: "zeroed z" "w = ?v(BBLOCK n (sb s) := set_map_bit (unat n mod BPB) (?v (BBLOCK n (sb s))), n := z)" by blast
  note g = alloc_view [OF x t(3,4) z(2)]
  have ii: "?i \<in> fblocks ?v ?a" by (rule indirect_in [of ?a ?v, OF i])
  have n: "n \<noteq> 0" "n \<notin> fblocks ?v ?a" using g(2) t(4) fo by (auto simp: file_ok_def)
  then have zn: "zeroed (view t n)" using ii g(3) z(1) t(6) by auto
  have same: "view t b = ?v b" if "b \<in> fblocks ?v ?a" "b \<noteq> ?i" for b
  proof -
    have "w b = ?v b" using that n(2) fo by (intro g(4)) (auto simp: file_ok_def)
    then show ?thesis using that t(6) by simp
  qed
  have iv: "view t ?i = st32 (?v ?i) (4 * (k - NDIRECT)) n" by (simp add: t(6))
  note gr = add_in_indirect [of ?v ?a n k "view t", OF wf n k i iv same zn]
  have out: "view t b = w b" if "b \<notin> fblocks ?v ?a" for b using that ii t(6) by auto
  note fg = file_step_grow [OF x fo t(3,4) z(2) out gr(1,2)]
  have sel: "icache t = icache s" "sb t = sb s" "fs.more t = fs.more s" using same_fs_sel [OF t(7)] by simp_all
  have "icache s = (icache s)(ip := (icache s ip)\<lparr>i_addrs := i_addrs (icache s ip)\<rparr>)" by simp
  then have "moves ip s t" using fg(1) sel t(7) unfolding moves_def same_fs_def by metis
  then have "mapped ip k s n t" using n(1) gr(3,4) fg(2) sel k(3) by (simp add: mapped_def)
  then show thesis by (rule that [OF t(1,2) _ fg(2)])
qed

lemma mapped_present: "file_state ip s \<Longrightarrow> fblock (view s) (fa ip s) k \<noteq> 0 \<Longrightarrow> view t = view s \<Longrightarrow> same_fs s t
    \<Longrightarrow> mapped ip k s (fblock (view s) (fa ip s) k) t"
  using moves_refl [of ip s t] same_fs_sel [of s t] by (simp add: mapped_def)

text \<open>The indirect block is there, or is added; the blocks of the file stay.\<close>

lemma bmap_ind_ready:
  assumes r: "room {} (j + 2) s" and st: "file_state ip s" and f: "0 < free_blocks (sb s) (view s)"
  obtains t where "bmap_ind ip s = Ok (fa ip t NDIRECT, t)" "room {} j t" "moves ip s t" "fa ip t NDIRECT \<noteq> 0"
    "free_blocks (sb s) (view s) \<le> Suc (free_blocks (sb s) (view t))"
    "\<forall>i < MAXFILE. fblock (view t) (fa ip t) i = fblock (view s) (fa ip s) i"
    "\<forall>off < MAXFILE * BSIZE. fbyte (view t) (fa ip t) off = fbyte (view s) (fa ip s) off"
proof (cases "fa ip s NDIRECT = 0")
  case False
  show thesis by (rule that [of s]) (use False moves_refl [OF st] ready_mono [OF r] in \<open>simp_all add: bmap_ind_def\<close>)
next
  case True
  have r': "room {} (Suc (Suc j)) s" using r by (simp add: numeral_2_eq_2)
  from balloc_inode [OF r' st f le_refl True] obtain n t where t: "balloc ROOTDEV s = Ok (n, t)" "room {} j t"
    "moves ip s (upd_inode ip (\<lambda>i. i\<lparr>i_addrs := (i_addrs i)(NDIRECT := n)\<rparr>) t)" "n \<noteq> 0"
    "free_blocks (sb s) (view s) = Suc (free_blocks (sb s) (view t))" "fa ip t = fa ip s"
    "\<And>j. j < MAXFILE \<Longrightarrow> fblock (view t) ((fa ip s)(NDIRECT := n)) j = fblock (view s) (fa ip s) j"
    "\<And>off. off < MAXFILE * BSIZE \<Longrightarrow> fbyte (view t) ((fa ip s)(NDIRECT := n)) off = fbyte (view s) (fa ip s) off" by (auto simp del: One_nat_def)
  show thesis
    by (rule that [of "upd_inode ip (\<lambda>i. i\<lparr>i_addrs := (i_addrs i)(NDIRECT := n)\<rparr>) t"])
      (use t True st in \<open>simp_all add: bmap_ind_def file_state_def\<close>)
qed

lemma mapped_after:
  assumes m: "moves ip s t" "\<forall>i < MAXFILE. fblock (view t) (fa ip t) i = fblock (view s) (fa ip s) i"
    "\<forall>off < MAXFILE * BSIZE. fbyte (view t) (fa ip t) off = fbyte (view s) (fa ip s) off"
    and u: "mapped ip k t n u" and f: "free_blocks (sb s) (view s) \<le> free_blocks (sb s) (view u) + 2"
  shows "mapped ip k s n u"
  using assms moves_trans [OF m(1), of u] by (simp add: mapped_def)

lemma bmap_ready:
  assumes r: "room {} (j + 5) s" and st: "file_state ip s" and f: "2 \<le> free_blocks (sb s) (view s)" and k: "k < MAXFILE"
  obtains n t where "bmap ip (of_nat k) s = Ok (n, t)" "room {} j t" "mapped ip k s n t"
proof (cases "fblock (view s) (fa ip s) k = 0")
  case False
  have "room {} j s" by (rule ready_mono [OF r]) simp
  from bmap_present [OF this st k False] obtain t where t: "bmap ip (of_nat k) s = Ok (fblock (view s) (fa ip s) k, t)"
    "room {} j t" "view t = view s" "same_fs s t" .
  then show thesis using mapped_present [OF st False] by (intro that)
next
  case z: True
  have u: "unat (of_nat k :: u32) = k" using k by (simp add: unat_of_nat)
  have f': "0 < free_blocks (sb s) (view s)" using f by simp
  have dev: "i_dev (icache s ip) = ROOTDEV" using st by (simp add: file_state_def)
  show thesis
  proof (cases "k < NDIRECT")
    case True
    have k0: "fa ip s k = 0" "k \<le> NDIRECT" using z True by (simp_all add: fblock_def)
    have "room {} (Suc (Suc j)) s" by (rule ready_mono [OF r]) simp
    from balloc_inode [OF this st f' k0(2,1)] obtain n t where t: "balloc ROOTDEV s = Ok (n, t)" "room {} j t"
      "moves ip s (upd_inode ip (\<lambda>i. i\<lparr>i_addrs := (i_addrs i)(k := n)\<rparr>) t)" "n \<noteq> 0"
      "free_blocks (sb s) (view s) = Suc (free_blocks (sb s) (view t))" "fa ip t = fa ip s"
      "\<And>j. j < MAXFILE \<Longrightarrow> fblock (view t) ((fa ip s)(k := n)) j = (if j = k \<and> k < NDIRECT then n else fblock (view s) (fa ip s) j)"
      "\<And>off. off < MAXFILE * BSIZE \<Longrightarrow> fbyte (view t) ((fa ip s)(k := n)) off = fbyte (view s) (fa ip s) off" by blast
    show thesis
      by (rule that [of n "upd_inode ip (\<lambda>i. i\<lparr>i_addrs := (i_addrs i)(k := n)\<rparr>) t"])
        (use t True k z k0 dev u in \<open>auto simp: bmap_def mapped_def\<close>)
  next
    case False
    have "room {} (j + 3 + 2) s" by (rule ready_mono [OF r]) simp
    from bmap_ind_ready [OF this st f'] obtain t where t: "bmap_ind ip s = Ok (fa ip t NDIRECT, t)" "room {} (j + 3) t" "moves ip s t"
      "fa ip t NDIRECT \<noteq> 0" "free_blocks (sb s) (view s) \<le> Suc (free_blocks (sb s) (view t))"
      "\<forall>i < MAXFILE. fblock (view t) (fa ip t) i = fblock (view s) (fa ip s) i"
      "\<forall>off < MAXFILE * BSIZE. fbyte (view t) (fa ip t) off = fbyte (view s) (fa ip s) off" .
    have "sb t = sb s" using t(3) by (simp add: moves_def)
    then have ft: "0 < free_blocks (sb t) (view t)" using t(5) f by simp
    have kz: "NDIRECT \<le> k" "fblock (view t) (fa ip t) k = 0" using False t(6) k z by simp_all
    from bmap_entry_ready [OF t(2) moves_state [OF st t(3)] ft t(4) kz(1) k kz(2)] obtain n w where
      w: "bmap_entry ip (4 * (k - NDIRECT)) (fa ip t NDIRECT) t = Ok (n, w)" "room {} j w" "mapped ip k t n w"
        "free_blocks (sb t) (view t) = Suc (free_blocks (sb t) (view w))" .
    have "mapped ip k s n w" using mapped_after [OF t(3,6,7) w(3)] w(4) t(5) \<open>sb t = sb s\<close> by simp
    moreover have "bmap ip (of_nat k) s = Ok (n, w)" using bmap_indirect [of "of_nat k" ip s] t(1) w(1) kz(1) k u by simp
    ultimately show thesis using w(2) that by blast
  qed
qed

section \<open>The block allocator\<close>

text \<open>With no free bit in its map blocks, balloc runs to the end of the map.\<close>

lemma balloc_loop_full:
  fixes s :: "'a fs_scheme"
  assumes "room {} k s" "map_ok (sb s)" "\<forall>b \<in> set bs. BPB dvd b \<and> b < unat (sb_size (sb s))"
    and "\<forall>b < sb_size (sb s). block_used (sb s) (view s) b"
  shows "balloc_loop ROOTDEV bs s = Err (Panic ''balloc: out of blocks'')"
  using assms
proof (induction bs arbitrary: s)
  case (Cons c bs)
  let ?M = "BBLOCK (of_nat c) (sb s)"
  have c: "BPB dvd c" "c < unat (sb_size (sb s))" using Cons.prems(3) by simp_all
  have "free_bit (view s ?M) c (unat (sb_size (sb s))) = None"
  proof (rule ccontr)
    assume "free_bit (view s ?M) c (unat (sb_size (sb s))) \<noteq> None"
    then obtain bi where f: "free_bit (view s ?M) c (unat (sb_size (sb s))) = Some bi" by blast
    note g = free_bit_Some [OF f]
    note h = BBLOCK_first [OF Cons.prems(2) c(1) conjunct1 [OF g] conjunct1 [OF conjunct2 [OF g]]]
    have "(of_nat (c + bi) :: u32) < sb_size (sb s)" using g h(2) by (simp add: word_less_nat_alt)
    then have "block_used (sb s) (view s) (of_nat (c + bi))" using Cons.prems(4) by blast
    then show False using g h(1-3) by (simp add: block_used_def)
  qed
  moreover have M: "?M < FSSIZE"
    using unat_BBLOCK(2) [OF Cons.prems(2) BBLOCK_first(5) [OF Cons.prems(2) c(1), of 0]] c(2) by simp
  moreover obtain b t where t: "bread ROOTDEV ?M s = Ok (b, t)" "room {b} k t" "held t ?M b" "b_data (bufs t b) = view s ?M" "view t = view s" "same_fs s t"
    by (rule bread_alone [OF Cons.prems(1) M])
  moreover from brelse_ready [OF t(2,3)] obtain u where u: "brelse b t = Ok u" "room {} k u" "view u = view t" "same_fs t u" by auto
  moreover have "sb t = sb s" "sb u = sb s" using same_fs_sel(1) [OF t(6)] same_fs_sel(1) [OF u(4)] by simp_all
  ultimately show ?case using Cons.IH [of u] Cons.prems by simp
qed simp

end
