(* ===== verification/FileIO.thy ===== *)
theory FileIO
  imports Bmap Fs
begin

text \<open>
  Reading and writing files: readi returns the bytes of the file, writei replaces those it was given and
  nothing else, also where it has to add blocks, and keeps the inode on disk up to date.
\<close>

unbundle bit_operations_syntax

section \<open>Writing\<close>

text \<open>The number of blocks a transfer touches.\<close>

function touched :: "nat \<Rightarrow> nat \<Rightarrow> nat" where
  "touched off left = (if left = 0 then 0 else Suc (touched (off + chunk off left) (left - chunk off left)))"
  by pat_completeness auto
termination
  by (relation "measure snd") (auto simp: chunk_pos)

declare touched.simps [simp del] writei_loop.simps [simp del] readi_loop.simps [simp del]

lemma chunk_block: "0 < left \<Longrightarrow> off \<le> q \<Longrightarrow> q < off + chunk off left \<Longrightarrow> q div BSIZE = off div BSIZE \<and> q mod BSIZE = off mod BSIZE + (q - off)"
proof -
  assume a: "0 < left" "off \<le> q" "q < off + chunk off left"
  have "q = off div BSIZE * BSIZE + (off mod BSIZE + (q - off))" using a(2) by simp
  moreover have "off mod BSIZE + (q - off) < BSIZE" using a by (auto simp: chunk_def)
  ultimately show ?thesis by (metis div_mult_self3 div_less add_0_right mod_mult_self3 mod_less zero_neq_numeral)
qed

text \<open>What a write of \<open>xs\<close> at \<open>off\<close> makes of a file.\<close>

definition overwrite :: "(nat \<Rightarrow> u8) \<Rightarrow> nat \<Rightarrow> u8 list \<Rightarrow> nat \<Rightarrow> u8" where
  "overwrite f off xs q = (if off \<le> q \<and> q < off + length xs then xs ! (q - off) else f q)"

lemma overwrite_append: "overwrite (overwrite f off xs) (off + length xs) ys q = overwrite f off (xs @ ys) q"
  by (auto simp: overwrite_def nth_append)

lemma overwrite_cong: "f q = g q \<Longrightarrow> overwrite f off xs q = overwrite g off xs q"
  by (simp add: overwrite_def)

text \<open>The bytes of a block after one chunk was stored into it.\<close>

lemma put_chunk:
  assumes "0 < left" "length xs = chunk off left" "q div BSIZE = off div BSIZE"
  shows "put_bytes d (off mod BSIZE) xs (q mod BSIZE) = (if off \<le> q \<and> q < off + length xs then xs ! (q - off) else d (q mod BSIZE))"
proof -
  have "q = off div BSIZE * BSIZE + q mod BSIZE" "off = off div BSIZE * BSIZE + off mod BSIZE"
    using assms(3) div_mult_mod_eq [of q BSIZE] div_mult_mod_eq [of off BSIZE] by simp_all
  then have "off mod BSIZE \<le> q mod BSIZE \<longleftrightarrow> off \<le> q" "q mod BSIZE < off mod BSIZE + length xs \<longleftrightarrow> q < off + length xs"
    "q mod BSIZE - off mod BSIZE = q - off" by linarith+
  then show ?thesis by (simp add: put_bytes_def)
qed

text \<open>The effect of writing to file \<open>ip\<close>.\<close>

definition wrote :: "nat \<Rightarrow> nat \<Rightarrow> u8 list \<Rightarrow> 'a fs_scheme \<Rightarrow> 'a fs_scheme \<Rightarrow> bool" where
  "wrote ip off xs s t \<longleftrightarrow> moves ip s t \<and>
     (\<forall>q < MAXFILE * BSIZE. fbyte (view t) (fa ip t) q = overwrite (fbyte (view s) (fa ip s)) off xs q) \<and>
     (\<forall>i < MAXFILE. fblock (view s) (fa ip s) i \<noteq> 0 \<longrightarrow> fblock (view t) (fa ip t) i \<noteq> 0) \<and>
     (\<forall>q. off \<le> q \<and> q < off + length xs \<longrightarrow> fblock (view t) (fa ip t) (q div BSIZE) \<noteq> 0)"

lemma wrote_trans:
  assumes "wrote ip off xs s t" "wrote ip (off + length xs) ys t u" "off + length xs + length ys \<le> MAXFILE * BSIZE"
  shows "wrote ip off (xs @ ys) s u"
proof -
  have b: "fbyte (view u) (fa ip u) q = overwrite (fbyte (view s) (fa ip s)) off (xs @ ys) q" if "q < MAXFILE * BSIZE" for q
  proof -
    have "fbyte (view u) (fa ip u) q = overwrite (fbyte (view t) (fa ip t)) (off + length xs) ys q"
      "fbyte (view t) (fa ip t) q = overwrite (fbyte (view s) (fa ip s)) off xs q" using assms(1,2) that by (simp_all add: wrote_def)
    then show ?thesis using overwrite_cong [of "fbyte (view t) (fa ip t)" q] overwrite_append by metis
  qed
  have "fblock (view u) (fa ip u) (q div BSIZE) \<noteq> 0" if q: "off \<le> q" "q < off + length (xs @ ys)" for q
  proof (cases "q < off + length xs")
    case True
    then have "q div BSIZE < MAXFILE" using assms(3) by (simp add: div_less_iff_less_mult)
    then show ?thesis using True q assms(1,2) by (simp add: wrote_def)
  next
    case False
    then show ?thesis using q assms(2) by (simp add: wrote_def)
  qed
  then show ?thesis using assms(1,2) moves_trans b by (auto simp: wrote_def)
qed

text \<open>One round of the loop of writei.\<close>

lemma write_chunk:
  assumes m: "mapped ip (off div BSIZE) s n t" and st: "file_state ip s" and r: "room {} (Suc j) t"
    and l: "0 < left" "length src = left" "off + left \<le> MAXFILE * BSIZE"
  obtains u where "edit_block ROOTDEV n (\<lambda>d. put_bytes d (off mod BSIZE) (take (chunk off left) src)) t = Ok u"
    "room {} j u" "wrote ip off (take (chunk off left) src) s u" "free_blocks (sb s) (view s) \<le> free_blocks (sb s) (view u) + 2"
proof -
  let ?k = "off div BSIZE" and ?m = "chunk off left" and ?xs = "take (chunk off left) src"
  have mv: "moves ip s t" and n: "n \<noteq> 0" "fblock (view t) (fa ip t) ?k = n"
    and fb: "\<And>q. q < MAXFILE * BSIZE \<Longrightarrow> fbyte (view t) (fa ip t) q = fbyte (view s) (fa ip s) q"
    and keep: "\<And>i. i < MAXFILE \<Longrightarrow> fblock (view s) (fa ip s) i \<noteq> 0 \<Longrightarrow> fblock (view t) (fa ip t) i = fblock (view s) (fa ip s) i"
    using m by (auto simp: mapped_def)
  note stt = moves_state [OF st mv]
  have x: "fs_ok (sb t) (view t)" and fo: "file_ok (sb t) (view t) (fa ip t)" and wf: "wf_file (view t) (fa ip t)"
    using stt by (auto simp: file_state_def file_ok_def)
  have k: "?k < MAXFILE" using l by (simp add: div_less_iff_less_mult)
  have kn: "fblock (view t) (fa ip t) ?k \<noteq> 0" using n by simp
  have "n < FSSIZE" using fblock_in [OF k kn] fo size_FSSIZE [OF x] n(2) by (simp add: file_ok_def)
  from edit_block_alone [OF r this, of "\<lambda>d. put_bytes d (off mod BSIZE) ?xs"] obtain u where
    u: "edit_block ROOTDEV n (\<lambda>d. put_bytes d (off mod BSIZE) ?xs) t = Ok u" "room {} j u"
      "view u = (view t)(n := put_bytes (view t n) (off mod BSIZE) ?xs)" "same_fs t u" .
  have vu: "view u = (view t)(fblock (view t) (fa ip t) ?k := put_bytes (view t n) (off mod BSIZE) ?xs)" using u(3) n(2) by simp
  note w = write_fblock [OF wf k kn vu] and fs = file_step_write [OF x fo k kn vu]
  have sel: "sb u = sb t" "icache u = icache t" "fs.more u = fs.more t" using same_fs_sel [OF u(4)] by simp_all
  have "icache t = (icache t)(ip := (icache t ip)\<lparr>i_addrs := i_addrs (icache t ip)\<rparr>)" by simp
  then have "moves ip t u" using fs(1) sel u(4) unfolding moves_def same_fs_def by metis
  with mv have mu: "moves ip s u" by (rule moves_trans)
  have lx: "length ?xs = ?m" using l chunk_pos(2) [of off left] by simp
  have bq: "fbyte (view u) (fa ip u) q = overwrite (fbyte (view s) (fa ip s)) off ?xs q" if q: "q < MAXFILE * BSIZE" for q
    using w(4) [OF q] fb [OF q] put_chunk [OF l(1) lx, of q "view t n"] chunk_block [OF l(1), of off q] lx n by (auto simp: sel overwrite_def fbyte_def)
  have "fblock (view u) (fa ip u) (q div BSIZE) \<noteq> 0" if "off \<le> q" "q < off + length ?xs" for q
    using chunk_block [OF l(1) that(1)] that(2) lx w(1) sel n by simp
  moreover have "fblock (view u) (fa ip u) i \<noteq> 0" if "i < MAXFILE" "fblock (view s) (fa ip s) i \<noteq> 0" for i
    using keep [OF that] that(2) w(1) sel by simp
  ultimately have "wrote ip off ?xs s u" using mu bq unfolding wrote_def by blast
  moreover have "sb t = sb s" using mv by (simp add: moves_def)
  ultimately show thesis using m fs(2) by (intro that [OF u(1,2)]) (simp_all add: mapped_def)
qed

lemma writei_loop_round:
  assumes "left \<noteq> 0"
  shows "writei_loop ip off left src s =
    bindR (bmap ip (of_nat (off div BSIZE)) s) (\<lambda>(addr, s).
    bindR (edit_block (i_dev (icache s ip)) addr (\<lambda>d. put_bytes d (off mod BSIZE) (take (chunk off left) src)) s) (\<lambda>s.
      writei_loop ip (off + chunk off left) (left - chunk off left) (drop (chunk off left) src) s))"
  using assms by (subst writei_loop.simps) (simp add: edit_block_def Let_def bindR_assoc case_prod_unfold)

lemma writei_loop_ready:
  fixes s :: "'a console_scheme"
  assumes "room {} (j + 6 * touched off left) s" "file_state ip s" "2 * touched off left \<le> free_blocks (sb s) (view s)"
    "length src = left" "off + left \<le> MAXFILE * BSIZE"
  shows "\<exists>t. writei_loop ip off left src s = Ok t \<and> room {} j t \<and> (left = 0 \<and> t = s \<or> wrote ip off src s t)"
  using assms
proof (induction left arbitrary: off src s rule: less_induct)
  case (less left)
  show ?case
  proof (cases "left = 0")
    case True
    then show ?thesis using less.prems(1) by (simp add: writei_loop.simps touched.simps)
  next
    case False
    let ?m = "chunk off left" and ?xs = "take (chunk off left) src" and ?ys = "drop (chunk off left) src"
    let ?T = "touched (off + chunk off left) (left - chunk off left)"
    have T: "touched off left = Suc ?T" using False by (subst touched.simps) simp
    have k: "off div BSIZE < MAXFILE" using less.prems(5) False by (simp add: div_less_iff_less_mult)
    have r: "room {} (Suc (j + 6 * ?T) + 5) s" using less.prems(1) by (rule ready_mono) (simp add: T)
    have f: "2 \<le> free_blocks (sb s) (view s)" using less.prems(3) T by simp
    from bmap_ready [OF r less.prems(2) f k] obtain n t where t: "bmap ip (of_nat (off div BSIZE)) s = Ok (n, t)"
      "room {} (Suc (j + 6 * ?T)) t" "mapped ip (off div BSIZE) s n t" .
    from write_chunk [OF t(3) less.prems(2) t(2) _ less.prems(4,5)] False obtain u where
      u: "edit_block ROOTDEV n (\<lambda>d. put_bytes d (off mod BSIZE) ?xs) t = Ok u" "room {} (j + 6 * ?T) u" "wrote ip off ?xs s u"
        "free_blocks (sb s) (view s) \<le> free_blocks (sb s) (view u) + 2" by auto
    have mt: "moves ip s t" and mu: "moves ip s u" using t(3) u(3) by (simp_all add: mapped_def wrote_def)
    have dev: "i_dev (icache t ip) = ROOTDEV" using moves_state [OF less.prems(2) mt] by (simp add: file_state_def)
    have fu: "2 * ?T \<le> free_blocks (sb u) (view u)" using less.prems(3) u(4) T mu by (simp add: moves_def)
    have ly: "length ?xs = ?m" "length ?ys = left - ?m" "off + ?m + (left - ?m) \<le> MAXFILE * BSIZE"
      using less.prems(4,5) chunk_pos(2) [of off left] by simp_all
    obtain v where v: "writei_loop ip (off + ?m) (left - ?m) ?ys u = Ok v" "room {} j v"
      "left - ?m = 0 \<and> v = u \<or> wrote ip (off + ?m) ?ys u v"
      using less.IH [OF _ u(2) moves_state [OF less.prems(2) mu] fu ly(2,3)] chunk_pos(1) [of left off] False by auto
    have "writei_loop ip off left src s = Ok v" using t(1) u(1) v(1) dev by (simp add: writei_loop_round [OF False])
    moreover have "wrote ip off src s v" using v(3) u(3) wrote_trans [of ip off ?xs s u ?ys v] ly by auto
    ultimately show ?thesis using v(2) by blast
  qed
qed

text \<open>The number of blocks from the first to the last byte of the transfer.\<close>

lemma touched_blocks: "0 < left \<Longrightarrow> touched off left = Suc ((off + left - 1) div BSIZE - off div BSIZE)"
proof (induction left arbitrary: off rule: less_induct)
  case (less left)
  let ?m = "chunk off left"
  have T: "touched off left = Suc (touched (off + ?m) (left - ?m))" using less.prems by (subst touched.simps) simp
  show ?case
  proof (cases "left = ?m")
    case True
    then have "(off + left - 1) div BSIZE = off div BSIZE" using chunk_block [OF less.prems, of off "off + left - 1"] less.prems by auto
    then show ?thesis using T True by (simp add: touched.simps)
  next
    case False
    then have m: "?m = BSIZE - off mod BSIZE" "?m < left" by (auto simp: chunk_def)
    have "off div BSIZE * BSIZE + off mod BSIZE = off" "off mod BSIZE < BSIZE" by simp_all
    then have "off + ?m = BSIZE + off div BSIZE * BSIZE" using m(1) by linarith
    then have o: "off + ?m = Suc (off div BSIZE) * BSIZE" by simp
    then have d: "(off + ?m) div BSIZE = Suc (off div BSIZE)" by simp
    have "Suc (off div BSIZE) \<le> (off + left - 1) div BSIZE"
      using o m(2) div_le_mono [of "off + ?m" "off + left - 1" BSIZE] d by simp
    then show ?thesis using T less.IH [of "left - ?m" "off + ?m"] m(2) chunk_pos(1) [OF less.prems, of off] d by (simp add: Suc_diff_Suc Suc_le_eq)
  qed
qed

section \<open>Reading\<close>

lemma readi_loop_round:
  assumes "left \<noteq> 0"
  shows "readi_loop ip off left dst s =
    bindR (bmap ip (of_nat (off div BSIZE)) s) (\<lambda>(addr, s).
    bindR (bread (i_dev (icache s ip)) addr s) (\<lambda>(bp, s).
    bindR (brelse bp s)
      (readi_loop ip (off + chunk off left) (left - chunk off left) (dst @ bytes_of (b_data (bufs s bp)) (off mod BSIZE) (chunk off left)))))"
  using assms by (subst readi_loop.simps) (simp add: Let_def)

lemma bytes_of_block:
  assumes "0 < left" "fblock v a (off div BSIZE) \<noteq> 0"
  shows "bytes_of (v (fblock v a (off div BSIZE))) (off mod BSIZE) (chunk off left) = map (fbyte v a) [off..<off + chunk off left]"
proof (rule nth_equalityI)
  fix i assume "i < length (bytes_of (v (fblock v a (off div BSIZE))) (off mod BSIZE) (chunk off left))"
  then have i: "i < chunk off left" by simp
  then show "bytes_of (v (fblock v a (off div BSIZE))) (off mod BSIZE) (chunk off left) ! i = map (fbyte v a) [off..<off + chunk off left] ! i"
    using chunk_block [OF assms(1), of off "off + i"] assms(2) by (simp add: fbyte_def)
qed simp

lemma read_chunk:
  fixes s :: "'a console_scheme"
  assumes r: "room {} j s" and st: "file_state ip s" and l: "left \<noteq> 0" "off + left \<le> MAXFILE * BSIZE"
    and n: "fblock (view s) (fa ip s) (off div BSIZE) \<noteq> 0"
  obtains t where "readi_loop ip off left dst s =
      readi_loop ip (off + chunk off left) (left - chunk off left) (dst @ map (fbyte (view s) (fa ip s)) [off..<off + chunk off left]) t"
    "room {} j t" "view t = view s" "same_fs s t"
proof -
  let ?k = "off div BSIZE" and ?n = "fblock (view s) (fa ip s) (off div BSIZE)"
  have k: "?k < MAXFILE" using l by (simp add: div_less_iff_less_mult)
  from bmap_present [OF r st k n] obtain t where t: "bmap ip (of_nat ?k) s = Ok (?n, t)" "room {} j t" "view t = view s" "same_fs s t" .
  have nF: "?n < FSSIZE" using st fblock_in [OF k n] size_FSSIZE by (auto simp: file_state_def file_ok_def)
  obtain b u where u: "bread ROOTDEV ?n t = Ok (b, u)" "room {b} j u" "held u ?n b" "b_data (bufs u b) = view t ?n" "view u = view t" "same_fs t u"
    by (rule bread_alone [OF t(2) nF])
  from brelse_ready [OF u(2,3)] obtain w where w: "brelse b u = Ok w" "room {} j w" "view w = view u" "same_fs u w" by auto
  have dev: "i_dev (icache t ip) = ROOTDEV" using st same_fs_sel [OF t(4)] by (simp add: file_state_def)
  have "bytes_of (view s ?n) (off mod BSIZE) (chunk off left) = map (fbyte (view s) (fa ip s)) [off..<off + chunk off left]"
    using bytes_of_block [OF _ n, of left] l(1) by simp
  then have "readi_loop ip off left dst s =
      readi_loop ip (off + chunk off left) (left - chunk off left) (dst @ map (fbyte (view s) (fa ip s)) [off..<off + chunk off left]) w"
    using t(1,3) u(1,4) w(1) dev by (simp add: readi_loop_round [OF l(1)])
  moreover have "same_fs s w" using t(4) u(6) w(4) by (blast intro: same_fs_trans)
  ultimately show thesis using w(2,3) u(5) t(3) by (intro that [of w]) simp_all
qed

lemma readi_loop_ready:
  fixes s :: "'a console_scheme"
  assumes "room {} j s" "file_state ip s" "off + left \<le> MAXFILE * BSIZE"
    "\<forall>q. off \<le> q \<and> q < off + left \<longrightarrow> fblock (view s) (fa ip s) (q div BSIZE) \<noteq> 0"
  shows "\<exists>t. readi_loop ip off left dst s = Ok (dst @ map (fbyte (view s) (fa ip s)) [off..<off + left], t) \<and>
    room {} j t \<and> view t = view s \<and> same_fs s t"
  using assms
proof (induction left arbitrary: off dst s rule: less_induct)
  case (less left)
  show ?case
  proof (cases "left = 0")
    case True
    then show ?thesis using less.prems(1) by (simp add: readi_loop.simps)
  next
    case False
    let ?m = "chunk off left"
    have n: "fblock (view s) (fa ip s) (off div BSIZE) \<noteq> 0" using less.prems(4) False by auto
    from read_chunk [OF less.prems(1,2) False less.prems(3) n, of dst] obtain w where
      w: "readi_loop ip off left dst s = readi_loop ip (off + ?m) (left - ?m) (dst @ map (fbyte (view s) (fa ip s)) [off..<off + ?m]) w"
        "room {} j w" "view w = view s" "same_fs s w" .
    have sel: "sb w = sb s" "icache w = icache s" "view w = view s" using same_fs_sel [OF w(4)] w(3) by simp_all
    have fs: "file_state ip w" using less.prems(2) sel by (simp add: file_state_def)
    have mle: "?m \<le> left" "left - ?m < left" using chunk_pos [of left off] chunk_pos(2) [of off left] False by simp_all
    have bl: "\<forall>q. off + ?m \<le> q \<and> q < off + ?m + (left - ?m) \<longrightarrow> fblock (view w) (fa ip w) (q div BSIZE) \<noteq> 0"
      using less.prems(4) mle sel by simp
    have ol: "off + ?m + (left - ?m) \<le> MAXFILE * BSIZE" using less.prems(3) mle by simp
    from less.IH [OF mle(2) w(2) fs ol bl, of "dst @ map (fbyte (view s) (fa ip s)) [off..<off + ?m]"] sel mle obtain v where
      v: "readi_loop ip (off + ?m) (left - ?m) (dst @ map (fbyte (view s) (fa ip s)) [off..<off + ?m]) w =
          Ok (dst @ map (fbyte (view s) (fa ip s)) [off..<off + ?m] @ map (fbyte (view s) (fa ip s)) [off + ?m..<off + left], v)"
        "room {} j v" "view v = view s" "same_fs w v" by auto
    have "[off..<off + ?m] @ [off + ?m..<off + left] = [off..<off + left]" using upt_add_eq_append [of off "off + ?m" "left - ?m"] mle by simp
    then have ap: "map (fbyte (view s) (fa ip s)) [off..<off + ?m] @ map (fbyte (view s) (fa ip s)) [off + ?m..<off + left] = map (fbyte (view s) (fa ip s)) [off..<off + left]"
      by (metis map_append)
    have "readi_loop ip off left dst s = Ok (dst @ map (fbyte (view s) (fa ip s)) [off..<off + left], v)" using w(1) v(1) ap by simp
    then show ?thesis using v(2,3) same_fs_trans [OF w(4) v(4)] by blast
  qed
qed

section \<open>The inode on disk\<close>

lemma fold_st32:
  "ld32 (fold (\<lambda>i b. st32 b (q + 4 * i) (f i)) [0..<n] b) (q + 4 * k) = (if k < n then f k else ld32 b (q + 4 * k))"
proof (induction n)
  case (Suc n)
  have "q + 4 * n + 4 \<le> q + 4 * k \<or> q + 4 * k + 4 \<le> q + 4 * n" if "k \<noteq> n" using that by auto
  then show ?case using Suc by (cases "k = n") (auto simp: ld32_st32_disjoint)
qed simp

lemma fold_st32_outside: "i < q \<Longrightarrow> fold (\<lambda>i b. st32 b (q + 4 * i) (f i)) [0..<n] b i = b i"
  by (induction n) (auto simp: st32_outside)

text \<open>Loading an inode that was stored gives it back, whatever was there before.\<close>

lemma load_stored: "load_inode (ld_dinode (st_dinode b p (dinode_of i)) p) i = i"
proof -
  let ?h = "st32 (st16 (st16 (st16 (st16 b p (i_type i)) (p + 2) (i_major i)) (p + 4) (i_minor i)) (p + 6) (i_nlink i)) (p + 8) (i_size i)"
  let ?d = "st_dinode b p (dinode_of i)"
  have d: "?d = fold (\<lambda>k b. st32 b (p + 12 + 4 * k) (i_addrs i k)) [0..<NDIRECT + 1] ?h"
    by (simp only: st_dinode_def dinode_of_def dinode.simps)
  have out: "?d j = ?h j" if "j < p + 12" for j unfolding d by (rule fold_st32_outside [OF that])
  have "ld16 ?d (p + q) = ld16 ?h (p + q)" if "q \<le> 10" for q using that out by (intro ld16_cong) auto
  from this [of 0] this [of 2] this [of 4] this [of 6]
  have h: "ld16 ?d p = i_type i" "ld16 ?d (p + 2) = i_major i" "ld16 ?d (p + 4) = i_minor i" "ld16 ?d (p + 6) = i_nlink i"
    by (simp_all add: ld16_st16_disjoint ld16_st32_disjoint)
  have "ld32 ?d (p + 8) = ld32 ?h (p + 8)" using out by (intro ld32_cong) auto
  then have s: "ld32 ?d (p + 8) = i_size i" by simp
  have a: "ld32 ?d (p + 12 + 4 * k) = i_addrs i k" if "k < NDIRECT + 1" for k unfolding d fold_st32 using that by simp
  then have "(\<lambda>k. if k < NDIRECT + 1 then ld32 ?d (p + 12 + 4 * k) else i_addrs i k) = i_addrs i" by auto
  then show ?thesis using h s by (simp add: load_inode_def ld_dinode_def cong: if_cong)
qed

lemma iupdate_edit: "iupdate ip s = edit_block (i_dev (icache s ip)) (IBLOCK (i_inum (icache s ip)) (sb s))
    (\<lambda>d. st_dinode d (dinode_off (i_inum (icache s ip))) (dinode_of (icache s ip))) s"
  by (simp add: iupdate_def edit_block_def Let_def)

text \<open>A block before the map holds neither map bits nor blocks of files.\<close>

lemma before_map:
  assumes x: "fs_ok x v" and q: "q < sb_bmapstart x"
  shows "fs_ok x (v(q := d))" "free_blocks x (v(q := d)) = free_blocks x v"
    "\<And>a. file_ok x v a \<Longrightarrow> file_ok x (v(q := d)) a \<and> fblock (v(q := d)) a = fblock v a \<and> fblocks (v(q := d)) a = fblocks v a"
    "\<And>a off. file_ok x v a \<Longrightarrow> off < MAXFILE * BSIZE \<Longrightarrow> fbyte (v(q := d)) a off = fbyte v a off"
proof -
  have lo: "(v(q := d)) (BBLOCK b x) = v (BBLOCK b x)" if "b < sb_size x" for b
    using unat_BBLOCK(1) [OF _ size_FSSIZE [OF x that]] x q by (auto simp: fs_ok_def word_less_nat_alt)
  note dc = data_change [of x v "v(q := d)", OF x lo]
  show "fs_ok x (v(q := d))" "free_blocks x (v(q := d)) = free_blocks x v" using dc(1,3) by blast+
  have same: "(v(q := d)) b = v b" if "file_ok x v a" "b \<in> fblocks v a" for a b
    using that q by (auto simp: file_ok_def data_start_def word_less_nat_alt)
  show "file_ok x (v(q := d)) a \<and> fblock (v(q := d)) a = fblock v a \<and> fblocks (v(q := d)) a = fblocks v a" if f: "file_ok x v a" for a
    using file_cong [of v a "v(q := d)", OF same [OF f]] f dc(2) by (simp add: file_ok_def)
  show "fbyte (v(q := d)) a off = fbyte v a off" if "file_ok x v a" "off < MAXFILE * BSIZE" for a off
    by (rule fbyte_cong [of v a "v(q := d)", OF same [OF that(1)] that(2)])
qed

section \<open>Files as lists of bytes\<close>

text \<open>
  A file or directory in the cache: its inode lies before the map and every block up to its size is there.
  Its contents are a list of bytes.
\<close>

definition regular :: "nat \<Rightarrow> 'a fs_scheme \<Rightarrow> bool" where
  "regular ip s \<longleftrightarrow> file_state ip s \<and> i_type (icache s ip) \<noteq> T_DEV \<and> IBLOCK (i_inum (icache s ip)) (sb s) < sb_bmapstart (sb s) \<and>
     unat (i_size (icache s ip)) \<le> MAXFILE * BSIZE \<and>
     (\<forall>q < unat (i_size (icache s ip)). fblock (view s) (fa ip s) (q div BSIZE) \<noteq> 0)"

definition contents :: "nat \<Rightarrow> 'a fs_scheme \<Rightarrow> u8 list" where
  "contents ip s = map (fbyte (view s) (fa ip s)) [0..<unat (i_size (icache s ip))]"

lemma contents_eqI: "view t = view s \<Longrightarrow> icache t = icache s \<Longrightarrow> contents ip t = contents ip s"
  by (simp add: contents_def)

text \<open>The inode on disk says what the cached one says.\<close>

definition stored :: "nat \<Rightarrow> 'a fs_scheme \<Rightarrow> bool" where
  "stored ip s \<longleftrightarrow> load_inode (ld_dinode (view s (IBLOCK (i_inum (icache s ip)) (sb s))) (dinode_off (i_inum (icache s ip)))) (icache s ip)
     = icache s ip"

text \<open>Two files that have no block in common.\<close>

definition apart :: "nat \<Rightarrow> nat \<Rightarrow> 'a fs_scheme \<Rightarrow> bool" where
  "apart ip jp s \<longleftrightarrow> ip \<noteq> jp \<and> fblocks (view s) (fa jp s) \<inter> fblocks (view s) (fa ip s) = {}"

lemma sint_small: "unat w < 2 ^ 31 \<Longrightarrow> sint (w :: u32) = int (unat w)"
proof -
  assume "unat w < 2 ^ 31"
  then have "int (unat w) < int (2 ^ 31)" by (simp only: of_nat_less_iff)
  then have "uint w < 2 ^ 31" unfolding of_nat_unat by (simp only: of_nat_power of_nat_numeral)
  then have "signed_take_bit 31 (uint w) = uint w" using uint_ge_0 [of w] by (intro signed_take_bit_int_eq_self) linarith+
  then show ?thesis by (simp add: sint_uint)
qed

lemma readi_spec:
  assumes r: "room {} j s" and f: "regular ip s" and off: "off \<le> i_size (icache s ip)" and ov: "unat off + unat n < 2 ^ 32"
  obtains t where "readi ip off n s = Ok (int (length (take (unat n) (drop (unat off) (contents ip s)))),
      take (unat n) (drop (unat off) (contents ip s)), t)" "room {} j t" "view t = view s" "same_fs s t"
proof -
  let ?sz = "i_size (icache s ip)"
  let ?n = "if off + n > ?sz then ?sz - off else n"
  have sz: "unat ?sz \<le> 71680" using f by (simp add: regular_def)
  have o: "unat off \<le> unat ?sz" using off by (simp add: word_le_nat_alt)
  have on: "unat (off + n) = unat off + unat n" using ov by (simp add: unat_word_ariths)
  have un: "unat ?n = min (unat n) (unat ?sz - unat off)"
    using o on off by (auto simp: word_less_nat_alt unat_sub)
  have si: "sint ?n = int (unat ?n)" using un sz by (intro sint_small) simp
  have "unat off + unat ?n \<le> unat ?sz" using un o by simp
  then have le: "unat off + unat ?n \<le> MAXFILE * BSIZE" "\<forall>q. unat off \<le> q \<and> q < unat off + unat ?n \<longrightarrow> fblock (view s) (fa ip s) (q div BSIZE) \<noteq> 0"
    using f sz by (auto simp: regular_def)
  have fs: "file_state ip s" using f by (simp add: regular_def)
  from readi_loop_ready [OF r fs le, of "[]"] obtain t where t: "readi_loop ip (unat off) (unat ?n) [] s =
      Ok (map (fbyte (view s) (fa ip s)) [unat off..<unat off + unat ?n], t)" "room {} j t" "view t = view s" "same_fs s t" by auto
  have c: "map (fbyte (view s) (fa ip s)) [unat off..<unat off + unat ?n] = take (unat n) (drop (unat off) (contents ip s))"
    using o by (simp add: contents_def drop_map take_map un min_def)
  have ty: "i_type (icache s ip) \<noteq> T_DEV" using f by (simp add: regular_def)
  have nn: "\<not> (off > ?sz \<or> off + n < off)" using off on by (auto simp: word_less_nat_alt word_le_nat_alt)
  have "readi ip off n s = Ok (sint ?n, take (unat n) (drop (unat off) (contents ip s)), t)"
    unfolding readi_def Let_def if_not_P [OF ty] if_not_P [OF nn] t(1) c by simp
  moreover have "sint ?n = int (length (take (unat n) (drop (unat off) (contents ip s))))" unfolding si un by (simp add: contents_def)
  ultimately show thesis using t(2-4) by (intro that [of t]) simp_all
qed

text \<open>The size a write leaves, and the new contents: the bytes written replace those at their place.\<close>

definition spliced :: "u8 list \<Rightarrow> nat \<Rightarrow> u8 list \<Rightarrow> u8 list" where
  "spliced c off xs = take off c @ xs @ drop (off + length xs) c"

lemma spliced_overwrite:
  assumes "off \<le> sz" "n = max sz (off + length xs)"
  shows "map (overwrite f off xs) [0..<n] = spliced (map f [0..<sz]) off xs"
  by (rule nth_equalityI) (use assms in \<open>auto simp: spliced_def overwrite_def nth_append min_def max_def split: if_splits\<close>)

text \<open>The end of writei: the size and the inode on disk change when the file grew.\<close>

definition finished :: "nat \<Rightarrow> u32 \<Rightarrow> u8 list \<Rightarrow> 'a fs_scheme \<Rightarrow> 'a fs_scheme \<Rightarrow> 'a fs_scheme \<Rightarrow> bool" where
  "finished ip off xs s t u \<longleftrightarrow>
     u = t \<and> unat off + length xs \<le> unat (i_size (icache s ip)) \<or>
     unat (i_size (icache s ip)) < unat off + length xs \<and> sb u = sb t \<and>
     icache u = (icache t)(ip := (icache t ip)\<lparr>i_size := off + of_nat (length xs)\<rparr>) \<and>
     view u = (view t)(IBLOCK (i_inum (icache s ip)) (sb s) :=
       st_dinode (view t (IBLOCK (i_inum (icache s ip)) (sb s))) (dinode_off (i_inum (icache s ip))) (dinode_of (icache u ip)))"

lemma writei_spec:
  fixes s :: "'a console_scheme"
  assumes f: "regular ip s" and xs: "xs \<noteq> []" and off: "off \<le> i_size (icache s ip)" "unat off + length xs \<le> MAXFILE * BSIZE"
    and r: "room {} (6 * touched (unat off) (length xs) + 1) s" and fr: "2 * touched (unat off) (length xs) \<le> free_blocks (sb s) (view s)"
  obtains t u where "writei ip xs off (of_nat (length xs)) s = Ok (int (length xs), u)" "room {} 0 u" "room {} 1 t" "wrote ip (unat off) xs s t"
    "finished ip off xs s t u"
proof -
  let ?i = "icache s ip" and ?n = "of_nat (length xs) :: u32"
  have st: "file_state ip s" and ty: "i_type ?i \<noteq> T_DEV" using f by (simp_all add: regular_def)
  have un: "unat ?n = length xs" using off(2) by (simp add: unat_of_nat)
  have on: "unat (off + ?n) = unat off + length xs" using off(2) un by (simp add: unat_word_ariths)
  have nn: "\<not> (off > i_size ?i \<or> off + ?n < off)" "\<not> unat (off + ?n) > MAXFILE * BSIZE"
    using off on by (auto simp: word_less_nat_alt word_le_nat_alt)
  have si: "sint ?n = int (length xs)" using sint_small [of ?n] un off(2) by simp
  have "room {} (1 + 6 * touched (unat off) (length xs)) s" using r by (simp add: add.commute)
  from writei_loop_ready [OF this st fr refl off(2)] xs obtain t where t: "writei_loop ip (unat off) (length xs) xs s = Ok t" "room {} 1 t" "wrote ip (unat off) xs s t"
    by auto
  have mv: "moves ip s t" using t(3) by (simp add: wrote_def)
  obtain c where c: "icache t = (icache s)(ip := ?i\<lparr>i_addrs := c\<rparr>)" using mv by (auto simp: moves_def)
  then have it: "i_size (icache t ip) = i_size ?i" "i_inum (icache t ip) = i_inum ?i" "i_dev (icache t ip) = i_dev ?i" "sb t = sb s"
    using mv by (simp_all add: moves_def)
  define u0 where "u0 = upd_inode ip (\<lambda>i. i\<lparr>i_size := off + ?n\<rparr>) t"
  have w: "writei ip xs off ?n s = (if off + ?n > i_size ?i then bindR (iupdate ip u0) (\<lambda>s. Ok (int (length xs), s)) else Ok (int (length xs), t))"
    unfolding writei_def Let_def if_not_P [OF ty] if_not_P [OF nn(1)] if_not_P [OF nn(2)] un using t(1) it(1) xs un si
    by (simp add: u0_def word_less_nat_alt)
  have gt: "off + ?n > i_size ?i \<longleftrightarrow> unat (i_size ?i) < unat off + length xs" by (simp add: word_less_nat_alt on)
  show thesis
  proof (cases "off + ?n > i_size ?i")
    case False
    then show ?thesis using w gt t(2,3) ready_mono [OF t(2)] by (intro that [of t t]) (auto simp: finished_def)
  next
    case True
    let ?b = "IBLOCK (i_inum ?i) (sb s)"
    have dev: "i_dev ?i = ROOTDEV" and x: "fs_ok (sb s) (view s)" using st by (simp_all add: file_state_def)
    have "?b < sb_bmapstart (sb s)" using f by (simp add: regular_def)
    then have b: "?b < FSSIZE" using x by (simp add: fs_ok_def map_ok_def word_less_nat_alt)
    have r0: "room {} (Suc 0) u0" using t(2) by (simp add: u0_def)
    from edit_block_alone [OF r0 b, of "\<lambda>d. st_dinode d (dinode_off (i_inum ?i)) (dinode_of (icache u0 ip))"] obtain u where
      u: "edit_block ROOTDEV ?b (\<lambda>d. st_dinode d (dinode_off (i_inum ?i)) (dinode_of (icache u0 ip))) u0 = Ok u" "room {} 0 u"
        "view u = (view u0)(?b := st_dinode (view u0 ?b) (dinode_off (i_inum ?i)) (dinode_of (icache u0 ip)))" "same_fs u0 u" .
    note sel = same_fs_sel [OF u(4)]
    have "iupdate ip u0 = Ok u" unfolding iupdate_edit using u(1) it dev by (simp add: u0_def)
    moreover have "icache u = (icache t)(ip := (icache t ip)\<lparr>i_size := off + ?n\<rparr>)" "sb u = sb t" "view u0 = view t"
      using sel by (simp_all add: u0_def)
    ultimately show ?thesis using w True gt u(2,3) t(2,3) sel by (intro that [of u t]) (simp_all add: finished_def)
  qed
qed

lemma finished_view:
  assumes f: "regular ip s" and w: "wrote ip (unat off) xs s t" and u: "finished ip off xs s t u" and le: "unat off + length xs \<le> MAXFILE * BSIZE"
  shows "sb u = sb s" "fs_ok (sb s) (view u)"
    "icache u = (icache s)(ip := (icache s ip)\<lparr>i_addrs := fa ip t, i_size := i_size (icache u ip)\<rparr>)"
    "unat (i_size (icache u ip)) = max (unat (i_size (icache s ip))) (unat off + length xs)"
    "\<And>a. file_ok (sb s) (view t) a \<Longrightarrow> file_ok (sb s) (view u) a \<and> fblock (view u) a = fblock (view t) a \<and> fblocks (view u) a = fblocks (view t) a"
    "\<And>a q. file_ok (sb s) (view t) a \<Longrightarrow> q < MAXFILE * BSIZE \<Longrightarrow> fbyte (view u) a q = fbyte (view t) a q"
proof -
  have mv: "moves ip s t" using w by (simp add: wrote_def)
  obtain c where c: "icache t = (icache s)(ip := (icache s ip)\<lparr>i_addrs := c\<rparr>)" using mv by (auto simp: moves_def)
  have ct: "icache t = (icache s)(ip := (icache s ip)\<lparr>i_addrs := fa ip t\<rparr>)" using c by simp
  have sb: "sb t = sb s" and x: "fs_ok (sb s) (view t)" using mv by (simp_all add: moves_def file_step_def)
  have b: "IBLOCK (i_inum (icache s ip)) (sb s) < sb_bmapstart (sb s)" using f by (simp add: regular_def)
  have on: "unat (off + of_nat (length xs) :: u32) = unat off + length xs" using le by (simp add: unat_word_ariths unat_of_nat)
  note bm = before_map [OF x b]
  show "sb u = sb s" using u sb by (auto simp: finished_def)
  show "fs_ok (sb s) (view u)" using u x bm(1) by (auto simp: finished_def)
  show "icache u = (icache s)(ip := (icache s ip)\<lparr>i_addrs := fa ip t, i_size := i_size (icache u ip)\<rparr>)"
    using u by (auto simp: finished_def c)
  show "unat (i_size (icache u ip)) = max (unat (i_size (icache s ip))) (unat off + length xs)"
    using u on by (auto simp: finished_def c max_def)
  show "file_ok (sb s) (view u) a \<and> fblock (view u) a = fblock (view t) a \<and> fblocks (view u) a = fblocks (view t) a" if "file_ok (sb s) (view t) a" for a
    using u bm(3) [OF that] that by (auto simp: finished_def)
  show "fbyte (view u) a q = fbyte (view t) a q" if "file_ok (sb s) (view t) a" "q < MAXFILE * BSIZE" for a q
    using u bm(4) [OF that] by (auto simp: finished_def)
qed

lemma wrote_regular:
  assumes f: "regular ip s" and w: "wrote ip (unat off) xs s t" and u: "finished ip off xs s t u"
    and off: "off \<le> i_size (icache s ip)" "unat off + length xs \<le> MAXFILE * BSIZE"
  shows "regular ip u" "contents ip u = spliced (contents ip s) (unat off) xs"
    "unat (i_size (icache s ip)) < unat off + length xs \<Longrightarrow> stored ip u"
proof -
  let ?sz = "unat (i_size (icache s ip))"
  note v = finished_view [OF f w u off(2)]
  have mv: "moves ip s t" using w by (simp add: wrote_def)
  have fo: "file_ok (sb s) (view t) (fa ip t)" using mv by (simp add: moves_def file_step_def)
  have fa: "fa ip u = fa ip t" "i_inum (icache u ip) = i_inum (icache s ip)" "i_dev (icache u ip) = i_dev (icache s ip)"
    "i_type (icache u ip) = i_type (icache s ip)" by (subst v(3); simp)+
  have le: "?sz \<le> MAXFILE * BSIZE" and o: "unat off \<le> ?sz" using f off(1) by (simp_all add: regular_def word_le_nat_alt)
  have bl: "fblock (view u) (fa ip u) (q div BSIZE) \<noteq> 0" if q: "q < max ?sz (unat off + length xs)" for q
  proof -
    have "q div BSIZE < MAXFILE" using q le off(2) by (simp add: div_less_iff_less_mult)
    then have "fblock (view t) (fa ip t) (q div BSIZE) \<noteq> 0"
      using q w f o by (cases "q < ?sz") (auto simp: wrote_def regular_def)
    then show ?thesis using v(5) [OF fo] fa by simp
  qed
  then show "regular ip u" unfolding regular_def file_state_def
    using f v(1,2,4) v(5) [OF fo] fa le off(2) by (auto simp: regular_def file_state_def)
  have "fbyte (view u) (fa ip u) q = overwrite (fbyte (view s) (fa ip s)) (unat off) xs q" if "q < max ?sz (unat off + length xs)" for q
    using w v(6) [OF fo, of q] fa le off(2) that by (auto simp: wrote_def)
  then have "contents ip u = map (overwrite (fbyte (view s) (fa ip s)) (unat off) xs) [0..<max ?sz (unat off + length xs)]"
    by (simp add: contents_def v(4))
  then show "contents ip u = spliced (contents ip s) (unat off) xs" unfolding contents_def using spliced_overwrite [OF o refl] by simp
  show "stored ip u" if "?sz < unat off + length xs"
    using u that v(1) fa(2) load_stored [of _ "dinode_off (i_inum (icache s ip))" "icache u ip"] by (auto simp: finished_def stored_def)
qed

lemma wrote_others:
  assumes f: "regular ip s" and w: "wrote ip (unat off) xs s t" and u: "finished ip off xs s t u" and le: "unat off + length xs \<le> MAXFILE * BSIZE"
    and g: "regular jp s" "apart ip jp s"
  shows "regular jp u" "apart ip jp u" "contents jp u = contents jp s"
proof -
  note v = finished_view [OF f w u le]
  have st: "file_step (sb s) (view s) (fa ip s) (view t) (fa ip t)" using w by (simp add: wrote_def moves_def)
  have fo: "file_ok (sb s) (view t) (fa ip t)" using st by (simp add: file_step_def)
  have o: "file_ok (sb s) (view s) (fa jp s)" "fblocks (view s) (fa jp s) \<inter> fblocks (view s) (fa ip s) = {}" "jp \<noteq> ip"
    using g by (auto simp: regular_def file_state_def apart_def)
  note oth = file_step_other [OF st o(1,2)]
  note vj = v(5) [OF oth(2)] and vb = v(6) [OF oth(2)] and vi = v(5) [OF fo]
  have ij: "icache u jp = icache s jp" "fa ip u = fa ip t" by (subst v(3), simp add: o(3))+
  have sz: "unat (i_size (icache s jp)) \<le> MAXFILE * BSIZE" using g(1) by (simp add: regular_def)
  show "regular jp u" using g(1) v(1,2) vj oth(5) ij by (auto simp: regular_def file_state_def)
  show "apart ip jp u" using o(3) vj vi oth(3) ij by (simp add: apart_def)
  show "contents jp u = contents jp s" using vb oth(4) sz ij by (simp add: contents_def)
qed

lemma readi_spliced:
  assumes f: "regular ip u" and r: "room {} 0 u" and c: "contents ip u = spliced c (unat off) xs" and off: "unat off \<le> length c"
    and le: "unat off + length xs \<le> MAXFILE * BSIZE"
  shows "\<exists>v. readi ip off (of_nat (length xs)) u = Ok (int (length xs), xs, v)"
proof -
  have un: "unat (of_nat (length xs) :: u32) = length xs" using le by (simp add: unat_of_nat)
  have "length (contents ip u) = unat (i_size (icache u ip))" by (simp add: contents_def)
  then have "off \<le> i_size (icache u ip)" using c off by (simp add: spliced_def word_le_nat_alt)
  moreover have "unat off + unat (of_nat (length xs) :: u32) < 2 ^ 32" using un le by simp
  moreover have "take (length xs) (drop (unat off) (contents ip u)) = xs" using c off by (simp add: spliced_def)
  ultimately show ?thesis using readi_spec [OF r f, of off "of_nat (length xs)"] un by metis
qed

text \<open>
  C5. writei in a file refines the replacement of bytes in a list: it returns the number of bytes written, the
  contents of the file afterwards are the old ones with the given bytes at the offset, behind the old end if
  need be, the file is well formed again and readi gives back the bytes; the inode on disk is brought up to date whenever the file
  grows; and every other file that shares no block with this one keeps its contents and still shares none,
  also where blocks were allocated. The write starts no later than at the end of the file, fits into the
  largest file, and finds enough room: in the transaction for six blocks per block it touches and one for the
  inode, on the disk for two blocks per block it touches.
\<close>

theorem writei_refines_list:
  fixes s :: "'a console_scheme"
  assumes f: "regular ip s" and xs: "xs \<noteq> []" and off: "off \<le> i_size (icache s ip)" "unat off + length xs \<le> MAXFILE * BSIZE"
    and k: "k = Suc ((unat off + length xs - 1) div BSIZE - unat off div BSIZE)"
    and r: "room {} (6 * k + 1) s" and fr: "2 * k \<le> free_blocks (sb s) (view s)"
  shows "\<exists>u. writei ip xs off (of_nat (length xs)) s = Ok (int (length xs), u) \<and> regular ip u \<and>
    contents ip u = spliced (contents ip s) (unat off) xs \<and>
    (\<exists>v. readi ip off (of_nat (length xs)) u = Ok (int (length xs), xs, v)) \<and>
    (unat (i_size (icache s ip)) < unat off + length xs \<longrightarrow> stored ip u) \<and>
    (\<forall>jp. regular jp s \<and> apart ip jp s \<longrightarrow> regular jp u \<and> apart ip jp u \<and> contents jp u = contents jp s)"
proof -
  have T: "touched (unat off) (length xs) = k" using touched_blocks [of "length xs" "unat off"] xs k by simp
  obtain t u where tu: "writei ip xs off (of_nat (length xs)) s = Ok (int (length xs), u)" "room {} 0 u" "room {} 1 t" "wrote ip (unat off) xs s t"
    "finished ip off xs s t u"
    by (rule writei_spec [OF f xs off, unfolded T, OF r fr])
  note w = wrote_regular [OF f tu(4,5) off]
  have rd: "\<exists>v. readi ip off (of_nat (length xs)) u = Ok (int (length xs), xs, v)"
    by (rule readi_spliced [OF w(1) tu(2) w(2)]) (use off in \<open>simp_all add: contents_def word_le_nat_alt\<close>)
  then show ?thesis using w tu(1) wrote_others [OF f tu(4,5) off(2)] rd by blast
qed

text \<open>
  C18. readi in a file returns the bytes of its contents from the offset on, at most as many as it was asked
  for and none behind the end, and leaves contents and well-formedness of every file alone; an offset behind
  the end, or one that overflows with the count, is refused with -1.
\<close>

theorem readi_returns_contents:
  fixes s :: "'a console_scheme"
  assumes f: "regular ip s" and r: "room {} 0 s"
  shows "if off \<le> i_size (icache s ip) \<and> unat off + unat n < 2 ^ 32
    then (\<exists>t. readi ip off n s = Ok (int (length (take (unat n) (drop (unat off) (contents ip s)))), take (unat n) (drop (unat off) (contents ip s)), t) \<and>
      (\<forall>jp. contents jp t = contents jp s \<and> regular jp t = regular jp s))
    else readi ip off n s = Ok (-1, [], s)"
proof (cases "off \<le> i_size (icache s ip) \<and> unat off + unat n < 2 ^ 32")
  case True
  then obtain t where t: "readi ip off n s = Ok (int (length (take (unat n) (drop (unat off) (contents ip s)))), take (unat n) (drop (unat off) (contents ip s)), t)"
    "room {} 0 t" "view t = view s" "same_fs s t" by (auto intro: readi_spec [OF r f])
  have "contents jp t = contents jp s \<and> regular jp t = regular jp s" for jp
    using t(3) same_fs_sel [OF t(4)] by (simp add: contents_def regular_def file_state_def)
  then show ?thesis unfolding if_P [OF True] using t(1) by blast
next
  case False
  have "off > i_size (icache s ip) \<or> off + n < off" using False no_olen_add_nat [of off n] by (auto simp: not_le)
  moreover have "i_type (icache s ip) \<noteq> T_DEV" using f by (simp add: regular_def)
  ultimately show ?thesis using False by (simp add: readi_def Let_def)
qed

text \<open>
  C17. balloc hands out a block only if the map has one free: then the block lies behind the map, was free, is
  marked now and reads as zeros, no other bit of the map changes and no other data block; with none free it
  panics.
\<close>

theorem balloc_fresh:
  fixes s :: "'a fs_scheme"
  assumes r: "room {} 2 s" and x: "fs_ok (sb s) (view s)"
  shows "if \<forall>b < sb_size (sb s). block_used (sb s) (view s) b then balloc ROOTDEV s = Err (Panic ''balloc: out of blocks'')
    else \<exists>n t. balloc ROOTDEV s = Ok (n, t) \<and> data_start (sb s) \<le> unat n \<and> n < sb_size (sb s) \<and> \<not> block_used (sb s) (view s) n \<and>
      zeroed (view t n) \<and> (\<forall>b < sb_size (sb s). block_used (sb s) (view t) b \<longleftrightarrow> block_used (sb s) (view s) b \<or> b = n) \<and>
      (\<forall>b. data_start (sb s) \<le> unat b \<and> b \<noteq> n \<longrightarrow> view t b = view s b) \<and> icache t = icache s"
proof (cases "\<forall>b < sb_size (sb s). block_used (sb s) (view s) b")
  case True
  have "map_ok (sb s)" using x by (simp add: fs_ok_def)
  moreover have "\<forall>b \<in> set (map (\<lambda>k. k * BPB) [0..<(unat (sb_size (sb s)) + BPB - 1) div BPB]). BPB dvd b \<and> b < unat (sb_size (sb s))" by auto
  ultimately have "balloc ROOTDEV s = Err (Panic ''balloc: out of blocks'')" unfolding balloc_def by (rule balloc_loop_full [OF r _ _ True])
  then show ?thesis unfolding if_P [OF True] .
next
  case False
  then have "{b. b < sb_size (sb s) \<and> \<not> block_used (sb s) (view s) b} \<noteq> {}" by auto
  then have f: "0 < free_blocks (sb s) (view s)" by (simp add: free_blocks_def card_gt_0_iff)
  have r': "room {} (Suc (Suc 0)) s" using r by (simp add: numeral_2_eq_2)
  obtain n t z where t: "balloc ROOTDEV s = Ok (n, t)" "room {} 0 t" "n < sb_size (sb s)" "\<not> block_used (sb s) (view s) n" "zeroed z"
    "view t = (view s)(BBLOCK n (sb s) := set_map_bit (unat n mod BPB) (view s (BBLOCK n (sb s))), n := z)"
    "\<forall>c \<in> {}. bufs t c = bufs s c" "same_fs s t"
    by (rule balloc_state [OF r' empty_subsetI held_used_empty x f])
  note g = alloc_view [OF x t(3,4,6)]
  have "icache t = icache s" using same_fs_sel [OF t(8)] by simp
  then show ?thesis unfolding if_not_P [OF False] using t(1,3,4,5) g(1,3,4,5) by blast
qed

text \<open>
  A small file system: the inodes in block 1, the map in block 2 with the first three of twenty blocks marked,
  and inode 1, an empty file, in a transaction that has just begun.
\<close>

definition small_fs :: console where
  "small_fs = (quiet_cons (\<lambda>_. zero_proc) (\<lambda>_ b. if b = 2 then (\<lambda>_. 0)(0 := 7) else (\<lambda>_. 0)) ())
     \<lparr>outstanding := 1, sb := (sb_of (\<lambda>_. 0))\<lparr>sb_size := 20, sb_inodestart := 1, sb_bmapstart := 2\<rparr>,
      icache := (\<lambda>_. \<lparr>i_dev = ROOTDEV, i_inum = 1, i_ref = 1, i_lock = initsleeplock, i_valid = True,
        i_type = T_FILE, i_major = 0, i_minor = 0, i_nlink = 1, i_size = 0, i_addrs = (\<lambda>_. 0)\<rparr>)\<rparr>"

lemma small_fs_sel:
  "sb_size (sb small_fs) = 20" "sb_bmapstart (sb small_fs) = 2" "sb_inodestart (sb small_fs) = 1"
  "icache small_fs i = \<lparr>i_dev = ROOTDEV, i_inum = 1, i_ref = 1, i_lock = initsleeplock, i_valid = True,
        i_type = T_FILE, i_major = 0, i_minor = 0, i_nlink = 1, i_size = 0, i_addrs = (\<lambda>_. 0)\<rparr>"
  "disk small_fs d b = (if b = 2 then (\<lambda>_. 0)(0 := 7) else (\<lambda>_. 0))"
  "bufs small_fs c = \<lparr>b_flags = 0, b_dev = 0, b_blockno = 0, b_lock = initsleeplock, b_refcnt = 0, b_data = (\<lambda>_. 0)\<rparr>"
  "lru small_fs = rev [0..<NBUF]" "idequeue small_fs = []" "\<not> ide_err small_fs" "havedisk1 small_fs" "curproc small_fs = Some 0"
  "lh_n small_fs = 0" "log_size small_fs = 30" "outstanding small_fs = 1"
  by (simp_all add: small_fs_def quiet_defs)

lemma small_fs_room: "k \<le> 28 \<Longrightarrow> room {} k small_fs"
proof -
  assume k: "k \<le> 28"
  have "bio_inv small_fs" by (auto simp: bio_inv_def small_fs_sel initsleeplock_def)
  moreover have "clean_bufs small_fs = {..<NBUF}" by (auto simp: clean_bufs_def small_fs_sel)
  ultimately show ?thesis using k by (simp add: room_def small_fs_sel initsleeplock_def)
qed

lemma small_fs_view: "view small_fs = disk small_fs ROOTDEV"
  by (rule ext) (simp add: view_uncached cached_def small_fs_sel)

lemma small_fs_used:
  assumes "b < 20"
  shows "block_used (sb small_fs) (view small_fs) b \<longleftrightarrow> b < 3"
proof -
  have lt: "unat b < 20" using assms by (simp add: word_less_nat_alt)
  have "unat (BBLOCK b (sb small_fs)) = 2"
    using lt by (simp add: BBLOCK_def small_fs_sel unat_word_ariths unat_div)
  then have m: "BBLOCK b (sb small_fs) = 2" by (simp add: word_unat_eq_iff)
  have m3: "(mask 3 :: u8) = 7" by (simp add: mask_eq_exp_minus_1)
  have b7: "bit (7 :: u8) n \<longleftrightarrow> n < 3" if "n < 8" for n unfolding m3 [symmetric] bit_mask_iff using that by simp
  have "block_used (sb small_fs) (view small_fs) b \<longleftrightarrow> map_bit ((\<lambda>_. 0)(0 := 7)) (unat b)"
    using lt by (simp add: block_used_def m small_fs_view small_fs_sel)
  also have "\<dots> \<longleftrightarrow> unat b < 3"
  proof (cases "unat b < 8")
    case True
    then show ?thesis using b7 [of "unat b"] by (simp add: map_bit_iff)
  next
    case False
    then have "unat b div 8 \<noteq> 0" by simp
    then show ?thesis using False by (simp add: map_bit_iff)
  qed
  finally show ?thesis by (simp add: word_less_nat_alt)
qed

lemma small_fs_regular: "regular ip small_fs" "2 \<le> free_blocks (sb small_fs) (view small_fs)"
proof -
  have fb: "fblocks (view small_fs) (\<lambda>_. 0) = {}" "wf_file (view small_fs) (\<lambda>_. 0)"
    by (auto simp: fblocks_def wf_file_def slot_def fblock_def)
  have "data_start (sb small_fs) = 3" by (simp add: data_start_def small_fs_sel)
  moreover have "block_used (sb small_fs) (view small_fs) b" if "unat b < 3" for b
    using that small_fs_used [of b] by (simp add: word_less_nat_alt)
  ultimately have "fs_ok (sb small_fs) (view small_fs)" by (simp add: fs_ok_def map_ok_def small_fs_sel)
  then show "regular ip small_fs"
    using fb by (simp add: regular_def file_state_def file_ok_def small_fs_sel IBLOCK_def)
  have "{5, 6} \<subseteq> {b. b < sb_size (sb small_fs) \<and> \<not> block_used (sb small_fs) (view small_fs) b}"
    using small_fs_used by (simp add: small_fs_sel)
  then have "card {5, 6 :: u32} \<le> free_blocks (sb small_fs) (view small_fs)" unfolding free_blocks_def by (intro card_mono) simp_all
  then show "2 \<le> free_blocks (sb small_fs) (view small_fs)" by simp
qed

theorem writei_refines_list_witness:
  "\<exists>u. writei 0 [104, 105] 0 2 small_fs = Ok (2, u) \<and> contents 0 u = [104, 105] \<and> stored 0 u \<and>
     (\<exists>v. readi 0 0 2 u = Ok (2, [104, 105], v))"
proof -
  have "contents 0 small_fs = []" by (simp add: contents_def small_fs_sel)
  moreover have "room {} (6 * 1 + 1) small_fs" by (rule small_fs_room) simp
  ultimately show ?thesis
    using writei_refines_list [OF small_fs_regular(1) [of 0], of "[104, 105]" 0 1] small_fs_regular(2)
    by (simp add: small_fs_sel spliced_def) blast
qed

theorem readi_returns_contents_witness:
  "(\<exists>t. readi 0 0 4 small_fs = Ok (0, [], t) \<and> regular 0 t) \<and> readi 0 1 4 small_fs = Ok (-1, [], small_fs)"
proof -
  have r: "room {} 0 small_fs" by (rule small_fs_room) simp
  have c: "contents 0 small_fs = []" by (simp add: contents_def small_fs_sel)
  have "\<exists>t. readi 0 0 4 small_fs = Ok (0, [], t) \<and> (\<forall>jp. contents jp t = contents jp small_fs \<and> regular jp t = regular jp small_fs)"
    using readi_returns_contents [OF small_fs_regular(1) [of 0] r, of 0 4] by (simp add: c small_fs_sel)
  moreover have "readi 0 1 4 small_fs = Ok (-1, [], small_fs)"
    using readi_returns_contents [OF small_fs_regular(1) [of 0] r, of 1 4] by (simp add: small_fs_sel)
  ultimately show ?thesis using small_fs_regular(1) by blast
qed

theorem balloc_fresh_witness:
  "\<exists>n t. balloc ROOTDEV small_fs = Ok (n, t) \<and> 3 \<le> unat n \<and> n < 20 \<and> zeroed (view t n) \<and> block_used (sb small_fs) (view t) n"
proof -
  have r: "room {} 2 small_fs" by (rule small_fs_room) simp
  have x: "fs_ok (sb small_fs) (view small_fs)" using small_fs_regular(1) [of 0] by (simp add: regular_def file_state_def)
  have "\<not> block_used (sb small_fs) (view small_fs) 5" using small_fs_used [of 5] by simp
  then have n: "\<not> (\<forall>b < sb_size (sb small_fs). block_used (sb small_fs) (view small_fs) b)" by (auto simp: small_fs_sel intro!: exI [of _ 5])
  have "data_start (sb small_fs) = 3" by (simp add: data_start_def small_fs_sel)
  then show ?thesis using balloc_fresh [OF r x, unfolded if_not_P [OF n]] by (simp add: small_fs_sel) blast
qed

end
