(* ===== verification/Spec2Isabelle.thy ===== *)
theory Spec2Isabelle
  imports SwapFree Isolation Trap Tty Sched Reserve Grep ShRun Umalloc FileIO
begin

text \<open>
  \<^bold>\<open>The program.\<close> The sources are an xv6 kernel for the 32-bit x86 to which copy-on-write fork and
  swapping were added: fork shares the frames of the parent read-only and counts their references, the page
  fault handler makes private copies, and the allocator writes pages of a victim process to slots on the
  disk when no frame is free.

  \<^bold>\<open>The state\<close> is a chain of extensible records, one per layer, so that an operation of a layer works on every
  state above it: the process table (\<open>ptab\<close>, Kproc), the disk with its buffer cache (\<open>bio\<close>, Bio), physical
  memory, reference counts, slots and processor registers (\<open>vm\<close>, Kmem), the log (\<open>klog\<close>, Log), the inode cache
  (\<open>fs\<close>, Inode), the console (\<open>console\<close>, Console), open files and pipes (\<open>files\<close>, File) and the rest of the
  kernel (\<open>kern\<close>, Proc). Machine words are words of their width, memory is a function from frame numbers to
  arrays of bytes, and page directories and page tables live in that memory as they do in the machine. A C
  pointer to a table entry is an index; a null pointer is \<open>None\<close> where the code tests it.

  \<^bold>\<open>Operations\<close> take and return the state. A result is \<open>Ok\<close> or an error: a call of panic, an access outside
  memory, an index outside an array, a wait that never ends, or \<open>Sleep\<close> with the channel on which the
  operation would have to wait before it could go on. The loops that read and write pipes and the console
  return what they have done when they block. A switch to the scheduler ends an operation.

  \<^bold>\<open>The theories\<close>, in the order of the layers:
  \<^item> Prelude, Bytes, Machine, CString: results and errors, little-endian loads and stores, the constants and
    address arithmetic of mmu.h and memlayout.h, and string.c with the string routines of ulib.c. memmove and
    memset are proved equal to their one-line references.
  \<^item> Kproc, Spinlock: the process table with wakeup, kill and the choice of the victim process (proc.c);
    spinlock.c with a step relation for any number of processors, mutual exclusion and progress.
  \<^item> Bio: bio.c and ide.c. The laws of a block store are a locale that the cache satisfies; the round trip of
    a page through eight blocks follows from them.
  \<^item> Seg, Kmem, Vm: descriptors of mmu.h; kalloc.c with the free list in the pages, whose laws are a locale; vm.c.
  \<^item> PageTable, CowFork: a well-formed directory read as a map from page numbers to entries, what walkpgdir,
    mappages and setupkvm do to that map, and the copy of an address space by copyuvm\_cow.
  \<^item> Pageswap, Fault, Swap, SwapFree: pageswap.c, page faults on present pages, the round trip of a page
    through a slot of the disk, the panics that freeing a swapped-out page and forking with one end in, and the
    slots whose pages cannot be read back.
  \<^item> Umem, Isolation: accesses to user memory, by the process and by the kernel, through the page table and the
    page fault handler; a fork is refined by two separate memories under every interleaving of stores.
  \<^item> Log, Inode, Fs, Ring, Pipe, File: log.c, fs.c, pipe.c and file.c. Ring buffers with free-running 32-bit
    counters are a locale, interpreted for pipes and for the console.
  \<^item> Held, Commit, Reserve: buffers held while the cache is at rest; a crash at any point of a commit, followed
    by recovery, leaves all of a transaction or nothing; the reservations of begin\_op keep the log within its
    bound, and the check of log\_write that is one block too strict.
  \<^item> Layout, Block, Balloc, Bmap, FileIO: the bytes of a file from the addresses in its inode; the read, log and
    release of a block inside a transaction; balloc hands out a free block; bmap finds or adds the block of an
    offset; readi and writei are reading and replacing bytes in a list, and other files keep their contents.
  \<^item> Format, Kbd, Console, Tty: number printing and formats of printf.c and console.c, the keyboard decoder, the
    console and the properties of its output, its line editor and its readers.
  \<^item> Proc, Sched, Exec, Syscall, Sysfile, Trap: the rest of proc.c, the scheduler over many turns, exec.c,
    the system calls and trap.c.
  \<^item> Grep, Umalloc, Sh, ShParse, ShRun: user programs. The matcher of grep.c decides the language of its
    expressions; malloc and free of umalloc.c hand out disjoint blocks; the parser of sh.c returns on every
    line and reads back every command that can be written down, the main loop does what the lines say, and
    runcmd starts the processes that the command asks for.

  \<^bold>\<open>Bounds.\<close> An access to user memory handles at most two faults before it is made, one that brings the page in
  and one that makes it writable, so that fuel 3 is enough; a third fault would repeat the second. Loops over
  tables recurse on the list of indices they visit. The parser of the shell gets fuel \<open>4 * k + 5\<close> for a line of
  \<open>k\<close> characters, which is proved to be enough for every line; malloc, which may search for ever in a
  damaged heap, is a partial function and is proved to return, for requests of at most 0x7FFFFFF0 bytes, in
  every heap that such calls of malloc and calls of free make; a larger request gives sbrk a negative size. A
  write to a file is proved to return when the transaction has room for six blocks per block it touches, the
  most that bmap and the write can log, and one for the inode. Loops that wait for another party end with the
  state in which they wait.

  \<^bold>\<open>Where copy-on-write and swapping are shown to be transparent.\<close> The isolation of fork is shown for a parent whose
  pages are all in memory and with so many free frames that no page is evicted while parent and child run; the
  round trip through the disk is shown for pages that are not shared and for the first 128 of the 400 slots.
  Outside these bounds the code does not keep what it means to: a process with a page on the disk panics when it
  forks or frees the page, and a page in a slot from 128 on makes the fault write behind an array.

  \<^bold>\<open>Not modelled:\<close> start-up code and assembly, interrupt controllers and the discovery of processors, which
  set up registers that nothing here reads; the small user programs (cat, wc, ls and the like), which only
  call the system; tests, superseded sources and the host program mkfs. Except in Spinlock the kernel runs one
  operation at a time, so that a spin lock it takes is free. Hardware is seen through the state: sectors of
  the disk, bytes that arrive from the keyboard and the serial line, cells of the screen.

  \<^bold>\<open>Simplifications.\<close> The register cr3 is a value and there is no translation buffer: every access walks the tables
  as they are. In Spinlock the stores of release are one step, as is an exchange. A pipewrite that finds the
  pipe full wakes the readers before it sleeps; here it ends with the channel it sleeps on, and what it has written by
  then is the result of its loop. Process numbers do not wrap around.
  Arithmetic on int wraps around in atoi, where C leaves an overflow open. The constructors of the shell's
  commands, whose result the code does not test either, always get their memory.
\<close>

end
